(* ===== verification/Prelude.thy ===== *)
theory Prelude
  imports Main "HOL-Library.Word"
begin

text \<open>
  Shared vocabulary of the development: the machine's integer types, the result of a stretch of
  kernel code, searches through fixed-size tables, updates of byte arrays, and the little-endian
  encoding the on-disk structures use.

  A stretch of kernel code starts in a state and ends in one of five ways.
  \<^item> \<open>Ok x s\<close>: it returned \<open>x\<close> in state \<open>s\<close>.
  \<^item> \<open>Panic m\<close>: it called \<open>panic(m)\<close>, which prints the message and stops the machine.
  \<^item> \<open>Switch s\<close>: it reached \<open>swtch\<close> in \<open>sched\<close> and gave the processor to the scheduler in
    state \<open>s\<close>; the code after the switch is a stretch of its own.
  \<^item> \<open>Spin\<close>: it spins on a lock another processor holds.
  \<^item> \<open>Undef\<close>: it read or wrote through a null pointer or past the end of an array, where C
    promises nothing.
\<close>

unbundle bit_operations_syntax

type_synonym u8 = "8 word"
type_synonym u16 = "16 word"
type_synonym u32 = "32 word"

named_theorems res_simps "equations of the result type"
named_theorems lock_simps "what the lock operations do on a state that is ready for them"

section \<open>Results of kernel code\<close>

datatype ('s, 'a) res = Ok 'a 's | Panic string | Switch 's | Spin | Undef

primrec bind :: "('s, 'a) res \<Rightarrow> ('a \<Rightarrow> 's \<Rightarrow> ('s, 'b) res) \<Rightarrow> ('s, 'b) res" where
  "bind (Ok x s) k = k x s"
| "bind (Panic m) k = Panic m"
| "bind (Switch s) k = Switch s"
| "bind Spin k = Spin"
| "bind Undef k = Undef"

primrec is_ok :: "('s, 'a) res \<Rightarrow> bool" where
  "is_ok (Ok x s) = True"
| "is_ok (Panic m) = False"
| "is_ok (Switch s) = False"
| "is_ok Spin = False"
| "is_ok Undef = False"

text \<open>The state a stretch leaves behind, when it leaves one.\<close>

primrec res_state :: "('s, 'a) res \<Rightarrow> 's option" where
  "res_state (Ok x s) = Some s"
| "res_state (Panic m) = None"
| "res_state (Switch s) = Some s"
| "res_state Spin = None"
| "res_state Undef = None"

lemma bind_assoc: "bind (bind m f) g = bind m (\<lambda>x s. bind (f x s) g)"
  by (cases m) simp_all

lemma bind_Ok_right [simp]: "bind m Ok = m"
  by (cases m) simp_all

lemma bind_eq_Ok [res_simps]:
  "bind m f = Ok y t \<longleftrightarrow> (\<exists>x s. m = Ok x s \<and> f x s = Ok y t)"
  by (cases m) auto

lemma bind_eq_Switch [res_simps]:
  "bind m f = Switch t \<longleftrightarrow> m = Switch t \<or> (\<exists>x s. m = Ok x s \<and> f x s = Switch t)"
  by (cases m) auto

lemma bind_OkE:
  assumes "bind m f = Ok y t"
  obtains x s where "m = Ok x s" and "f x s = Ok y t"
  using assms by (cases m) auto

lemma bind_cong [fundef_cong]:
  "m = n \<Longrightarrow> (\<And>x s. n = Ok x s \<Longrightarrow> f x s = g x s) \<Longrightarrow> bind m f = bind n g"
  by (cases n) simp_all

lemma bind_if: "bind (if b then m else n) f = (if b then bind m f else bind n f)"
  by simp

lemma is_ok_iff: "is_ok r \<longleftrightarrow> (\<exists>x s. r = Ok x s)"
  by (cases r) auto

section \<open>Relations every stretch of code respects\<close>

text \<open>
  \<open>stays R s r\<close>: if code started in \<open>s\<close> with result \<open>r\<close> leaves a state behind, that state is
  related to \<open>s\<close>. For a preorder the composition of code respects it when each part does.
\<close>

definition stays :: "('s \<Rightarrow> 's \<Rightarrow> bool) \<Rightarrow> 's \<Rightarrow> ('s, 'a) res \<Rightarrow> bool" where
  "stays R s r \<longleftrightarrow> (\<forall>t. res_state r = Some t \<longrightarrow> R s t)"

lemma stays_simps [simp]:
  "stays R s (Ok x t) = R s t" "stays R s (Switch t) = R s t"
  "stays R s (Panic m)" "stays R s Spin" "stays R s Undef"
  by (simp_all add: stays_def)

lemma stays_OkD: "stays R s r \<Longrightarrow> r = Ok x t \<Longrightarrow> R s t"
  by simp

lemma stays_mono: "stays R s r \<Longrightarrow> (\<And>t. R s t \<Longrightarrow> Q s t) \<Longrightarrow> stays Q s r"
  by (auto simp: stays_def)

lemma stays_if:
  "(b \<Longrightarrow> stays R s x) \<Longrightarrow> (\<not> b \<Longrightarrow> stays R s y) \<Longrightarrow> stays R s (if b then x else y)"
  by simp

lemma stays_option:
  "(z = None \<Longrightarrow> stays R s x) \<Longrightarrow> (\<And>a. z = Some a \<Longrightarrow> stays R s (y a)) \<Longrightarrow>
   stays R s (case z of None \<Rightarrow> x | Some a \<Rightarrow> y a)"
  by (cases z) simp_all

locale frame =
  fixes R :: "'s \<Rightarrow> 's \<Rightarrow> bool"
  assumes refl: "R s s"
    and trans: "R s t \<Longrightarrow> R t u \<Longrightarrow> R s u"
begin

lemma stays_bind:
  assumes "stays R s m" "\<And>x t. m = Ok x t \<Longrightarrow> stays R t (k x t)"
  shows "stays R s (bind m k)"
  using assms by (cases m) (auto simp: stays_def intro: trans)

lemma stays_after:
  assumes "R s t" "stays R t r"
  shows "stays R s r"
  using assms by (auto simp: stays_def intro: trans)

end

section \<open>First entry of a table that satisfies a test\<close>

text \<open>The shape of every \<open>for(p = tab; p < &tab[N]; p++) if(\<dots>) goto found;\<close> of the kernel.\<close>

primrec scan :: "('a \<Rightarrow> bool) \<Rightarrow> 'a list \<Rightarrow> nat option" where
  "scan P [] = None"
| "scan P (x # xs) = (if P x then Some 0 else map_option Suc (scan P xs))"

lemma scan_None_iff [simp]: "scan P xs = None \<longleftrightarrow> (\<forall>x \<in> set xs. \<not> P x)"
  by (induction xs) auto

lemma scan_SomeD:
  assumes "scan P xs = Some i"
  shows "i < length xs" "P (xs ! i)" "\<And>j. j < i \<Longrightarrow> \<not> P (xs ! j)"
proof -
  have "i < length xs \<and> P (xs ! i) \<and> (\<forall>j < i. \<not> P (xs ! j))"
    using assms
  proof (induction xs arbitrary: i)
    case (Cons x xs)
    show ?case
    proof (cases "P x")
      case True
      with Cons.prems show ?thesis by simp
    next
      case False
      with Cons.prems obtain k where k: "scan P xs = Some k" "i = Suc k" by auto
      with Cons.IH [OF k(1)] False show ?thesis
        by (auto simp: nth_Cons less_Suc_eq_0_disj split: nat.splits)
    qed
  qed simp
  then show "i < length xs" "P (xs ! i)" "\<And>j. j < i \<Longrightarrow> \<not> P (xs ! j)" by auto
qed

lemma scan_SomeI:
  assumes "i < length xs" "P (xs ! i)" "\<And>j. j < i \<Longrightarrow> \<not> P (xs ! j)"
  shows "scan P xs = Some i"
  using assms
proof (induction xs arbitrary: i)
  case (Cons x xs)
  show ?case
  proof (cases i)
    case 0
    with Cons.prems show ?thesis by simp
  next
    case (Suc k)
    from Cons.prems(3) [of 0] Suc have "\<not> P x" by simp
    moreover have "scan P xs = Some k"
    proof (rule Cons.IH)
      show "k < length xs" using Cons.prems(1) Suc by simp
      show "P (xs ! k)" using Cons.prems(2) Suc by simp
      show "\<And>j. j < k \<Longrightarrow> \<not> P (xs ! j)" using Cons.prems(3) Suc by force
    qed
    ultimately show ?thesis using Suc by simp
  qed
qed simp

lemma scan_Some_iff:
  "scan P xs = Some i \<longleftrightarrow> i < length xs \<and> P (xs ! i) \<and> (\<forall>j < i. \<not> P (xs ! j))"
  by (auto intro: scan_SomeI dest: scan_SomeD)

lemma scan_ex: "x \<in> set xs \<Longrightarrow> P x \<Longrightarrow> \<exists>i. scan P xs = Some i"
  using scan_None_iff [of P xs] by (cases "scan P xs") auto

lemma scan_cong_idx:
  assumes "length xs = length ys" "\<And>i. i < length xs \<Longrightarrow> P (xs ! i) = Q (ys ! i)"
  shows "scan P xs = scan Q ys"
  using assms
proof (induction xs ys rule: list_induct2')
  case (4 x xs y ys)
  have "P x = Q y" using "4.prems"(2) [of 0] by simp
  moreover have "scan P xs = scan Q ys"
    using "4.prems" "4.IH" by (metis Suc_less_eq length_Cons nth_Cons_Suc old.nat.inject)
  ultimately show ?case by simp
qed auto

section \<open>Byte arrays\<close>

text \<open>
  \<open>chunk xs off n\<close> is the \<open>n\<close> bytes of an array at \<open>off\<close>; \<open>blit xs off ys\<close> is the array
  after \<open>memmove(xs + off, ys, length ys)\<close>.
\<close>

definition chunk :: "'a list \<Rightarrow> nat \<Rightarrow> nat \<Rightarrow> 'a list" where
  "chunk xs off n = take n (drop off xs)"

definition blit :: "'a list \<Rightarrow> nat \<Rightarrow> 'a list \<Rightarrow> 'a list" where
  "blit xs off ys = take off xs @ ys @ drop (off + length ys) xs"

lemma length_chunk [simp]: "length (chunk xs off n) = min n (length xs - off)"
  by (simp add: chunk_def)

lemma nth_chunk [simp]: "i < n \<Longrightarrow> off + i < length xs \<Longrightarrow> chunk xs off n ! i = xs ! (off + i)"
  by (simp add: chunk_def)

lemma chunk_0_all [simp]: "chunk xs 0 (length xs) = xs"
  by (simp add: chunk_def)

lemma chunk_zero [simp]: "chunk xs off 0 = []"
  by (simp add: chunk_def)

lemma length_blit [simp]:
  "off + length ys \<le> length xs \<Longrightarrow> length (blit xs off ys) = length xs"
  by (simp add: blit_def)

lemma nth_blit:
  "off + length ys \<le> length xs \<Longrightarrow> i < length xs \<Longrightarrow>
   blit xs off ys ! i = (if off \<le> i \<and> i < off + length ys then ys ! (i - off) else xs ! i)"
  by (auto simp: blit_def nth_append min_def)

lemma blit_Nil [simp]: "blit xs off [] = xs"
  by (simp add: blit_def)

lemma chunk_blit_same:
  "off + length ys \<le> length xs \<Longrightarrow> chunk (blit xs off ys) off (length ys) = ys"
  by (simp add: chunk_def blit_def)

lemma chunk_blit_disjoint:
  assumes "off + length ys \<le> length xs" "o2 + n \<le> length xs"
    and "o2 + n \<le> off \<or> off + length ys \<le> o2"
  shows "chunk (blit xs off ys) o2 n = chunk xs o2 n"
  using assms by (intro nth_equalityI) (auto simp: nth_blit)

lemma blit_chunk_id: "off + n \<le> length xs \<Longrightarrow> blit xs off (chunk xs off n) = xs"
  by (intro nth_equalityI) (auto simp: nth_blit)

lemma chunk_append_chunk:
  "chunk xs off a @ chunk xs (off + a) b = chunk xs off (a + b)"
  by (simp add: chunk_def take_add add.commute)

section \<open>Little-endian fields of on-disk structures\<close>

definition put16 :: "u16 \<Rightarrow> u8 list" where
  "put16 w = [ucast w, ucast (drop_bit 8 w)]"

definition put32 :: "u32 \<Rightarrow> u8 list" where
  "put32 w = [ucast w, ucast (drop_bit 8 w), ucast (drop_bit 16 w), ucast (drop_bit 24 w)]"

definition get16 :: "u8 list \<Rightarrow> nat \<Rightarrow> u16" where
  "get16 bs off = ucast (bs ! off) OR push_bit 8 (ucast (bs ! (off + 1)))"

definition get32 :: "u8 list \<Rightarrow> nat \<Rightarrow> u32" where
  "get32 bs off = ucast (bs ! off) OR push_bit 8 (ucast (bs ! (off + 1)))
     OR push_bit 16 (ucast (bs ! (off + 2))) OR push_bit 24 (ucast (bs ! (off + 3)))"

lemma length_put16 [simp]: "length (put16 w) = 2"
  by (simp add: put16_def)

lemma length_put32 [simp]: "length (put32 w) = 4"
  by (simp add: put32_def)

lemma get16_put16 [simp]: "get16 (put16 w) 0 = w"
  unfolding get16_def put16_def
  by (rule bit_eqI) (auto simp: bit_simps)

lemma get32_put32 [simp]: "get32 (put32 w) 0 = w"
proof (rule bit_word_eqI)
  fix n :: nat
  assume "n < LENGTH(32)"
  consider "n < 8" | "8 \<le> n" "n < 16" | "16 \<le> n" "n < 24" | "24 \<le> n" by linarith
  then show "bit (get32 (put32 w) 0) n = bit w n"
    using \<open>n < LENGTH(32)\<close>
    by cases (auto simp: get32_def put32_def bit_simps numeral_3_eq_3)
qed

end
