(* ===== verification/KState.thy ===== *)
theory KState
  imports Prelude
begin

text \<open>
  The kernel's data: the constants of \<open>param.h\<close>, \<open>mmu.h\<close>, \<open>memlayout.h\<close>, \<open>fs.h\<close>, \<open>stat.h\<close> and
  \<open>fcntl.h\<close>, one record per C structure, and the record \<open>kstate\<close> of the kernel's global variables.

  A pointer into a fixed table (\<open>struct proc*\<close>, \<open>struct file*\<close>, \<open>struct inode*\<close>, \<open>struct buf*\<close>) is
  an index of the table, the null pointer is \<open>None\<close>. A pointer to allocated memory is an address.
  Every \<open>uint\<close> and \<open>int\<close> that the code computes with is a \<open>32 word\<close>; a signed comparison is one
  of \<open>sint\<close>. An \<open>int\<close> that the code uses as a flag is a \<open>bool\<close>.
\<close>

section \<open>Constants\<close>

abbreviation (input) NPROC :: nat where "NPROC \<equiv> 64"
abbreviation (input) KSTACKSIZE :: u32 where "KSTACKSIZE \<equiv> 4096"
abbreviation (input) NOFILE :: nat where "NOFILE \<equiv> 16"
abbreviation (input) NFILE :: nat where "NFILE \<equiv> 100"
abbreviation (input) NINODE :: nat where "NINODE \<equiv> 50"
abbreviation (input) NDEV :: nat where "NDEV \<equiv> 10"
abbreviation (input) ROOTDEV :: u32 where "ROOTDEV \<equiv> 1"
abbreviation (input) MAXARG :: nat where "MAXARG \<equiv> 32"
abbreviation (input) MAXOPBLOCKS :: int where "MAXOPBLOCKS \<equiv> 10"
abbreviation (input) LOGSIZE :: nat where "LOGSIZE \<equiv> 30"
abbreviation (input) NBUF :: nat where "NBUF \<equiv> 30"
abbreviation (input) FSSIZE :: u32 where "FSSIZE \<equiv> 1500"
abbreviation (input) QUANTUM :: u32 where "QUANTUM \<equiv> 5"

abbreviation (input) ROOTINO :: u32 where "ROOTINO \<equiv> 1"
abbreviation (input) BSIZE :: nat where "BSIZE \<equiv> 512"
abbreviation (input) NDIRECT :: nat where "NDIRECT \<equiv> 12"
abbreviation (input) NINDIRECT :: nat where "NINDIRECT \<equiv> 128"
abbreviation (input) MAXFILE :: nat where "MAXFILE \<equiv> 140"
abbreviation (input) IPB :: nat where "IPB \<equiv> 8"
abbreviation (input) BPB :: nat where "BPB \<equiv> 4096"
abbreviation (input) DIRSIZ :: nat where "DIRSIZ \<equiv> 14"

abbreviation (input) T_DIR :: u16 where "T_DIR \<equiv> 1"
abbreviation (input) T_FILE :: u16 where "T_FILE \<equiv> 2"
abbreviation (input) T_DEV :: u16 where "T_DEV \<equiv> 3"

abbreviation (input) SCHED_FCFS :: u32 where "SCHED_FCFS \<equiv> 0"
abbreviation (input) SCHED_SJF :: u32 where "SCHED_SJF \<equiv> 1"
abbreviation (input) SCHED_BJF :: u32 where "SCHED_BJF \<equiv> 2"
abbreviation (input) SCHED_RANDOM :: u32 where "SCHED_RANDOM \<equiv> 3"
abbreviation (input) SCHED_RR :: u32 where "SCHED_RR \<equiv> 4"

abbreviation (input) PGSIZE :: u32 where "PGSIZE \<equiv> 4096"
abbreviation (input) KERNBASE :: u32 where "KERNBASE \<equiv> 0x80000000"
abbreviation (input) PHYSTOP :: u32 where "PHYSTOP \<equiv> 0xE000000"
abbreviation (input) EXTMEM :: u32 where "EXTMEM \<equiv> 0x100000"
abbreviation (input) DEVSPACE :: u32 where "DEVSPACE \<equiv> 0xFE000000"

section \<open>Locks and channels\<close>

text \<open>
  Every spin lock of the kernel has a name here: the ones inside \<open>ptable\<close>, \<open>kmem\<close>, \<open>bcache\<close>,
  \<open>log\<close>, \<open>icache\<close>, \<open>ftable\<close>, \<open>cons\<close>, the locks \<open>tickslock\<close> and \<open>idelock\<close>, the lock inside
  each pipe, and the spin lock inside the sleep lock of each buffer and each inode.
\<close>

datatype lockid =
    PtableLock | KmemLock | BcacheLock | LogLock | IcacheLock | FtableLock | ConsLock
  | TicksLock | IdeLock | PipeLock u32 | BufLk nat | InodeLk nat

text \<open>\<open>spinlock.h\<close>; \<open>pcs\<close>, the saved call stack, only serves debugging and is left out.\<close>

record spinlock =
  locked :: bool
  lk_name :: string
  lk_cpu :: "nat option"

text \<open>\<open>sleeplock.h\<close>; the spin lock \<open>lk\<close> inside it is named by a \<^typ>\<open>lockid\<close>.\<close>

record sleeplock =
  sl_locked :: bool
  sl_name :: string
  sl_pid :: u32

text \<open>The addresses processes sleep on: each constructor is one expression passed to \<open>sleep\<close>.\<close>

datatype chan =
    ChProc nat | ChLog | ChTicks | ChInput | ChBuf nat | ChBufLock nat | ChInodeLock nat
  | ChNread u32 | ChNwrite u32

section \<open>Processors and processes\<close>

text \<open>
  \<open>struct cpu\<close> of \<open>proc.h\<close>. The scheduler's saved context and the segment table are left out;
  of the task state the fields that \<open>switchuvm\<close> sets are kept. \<open>iflag\<close> and \<open>cr3\<close> are the
  processor's own interrupt flag and page-table register.
\<close>

record cpu =
  apicid :: u8
  started :: bool
  ncli :: int
  intena :: bool
  cpu_proc :: "nat option"
  ts_ss0 :: u16
  ts_esp0 :: u32
  ts_iomb :: u16
  iflag :: bool
  cr3 :: u32

datatype procstate = UNUSED | EMBRYO | SLEEPING | RUNNABLE | RUNNING | ZOMBIE

record trapframe =
  tf_edi :: u32
  tf_esi :: u32
  tf_ebp :: u32
  tf_oesp :: u32
  tf_ebx :: u32
  tf_edx :: u32
  tf_ecx :: u32
  tf_eax :: u32
  tf_gs :: u16
  tf_fs :: u16
  tf_es :: u16
  tf_ds :: u16
  tf_trapno :: u32
  tf_err :: u32
  tf_eip :: u32
  tf_cs :: u16
  tf_eflags :: u32
  tf_esp :: u32
  tf_ss :: u16

record kcontext =
  cx_edi :: u32
  cx_esi :: u32
  cx_ebx :: u32
  cx_ebp :: u32
  cx_eip :: u32

text \<open>
  \<open>struct proc\<close> of \<open>proc.h\<close>. The trap frame and the saved context live on the kernel stack page:
  \<open>p_tf\<close> and \<open>p_context\<close> are their addresses and \<open>tf_of\<close> and \<open>cx_of\<close> what they hold.
\<close>

record proc =
  p_sz :: u32
  p_pgdir :: u32
  p_kstack :: u32
  p_state :: procstate
  p_pid :: u32
  p_parent :: "nat option"
  p_tf :: u32
  tf_of :: trapframe
  p_context :: u32
  cx_of :: kcontext
  p_chan :: "chan option"
  p_killed :: bool
  p_ofile :: "nat option list"
  p_cwd :: "nat option"
  p_name :: "u8 list"
  p_createtime :: u32
  p_syscall_count :: u32
  p_good_syscall_count :: u32
  p_runtime :: u32
  p_sleeptime :: u32
  p_exittime :: u32
  p_priority :: u32
  p_estimated_burst :: u32
  p_last_burst_ticks :: u32
  p_ticks :: u32
  p_yield_request :: bool

section \<open>Disk, buffers, log, inodes\<close>

text \<open>
  \<open>struct buf\<close> of \<open>buf.h\<close>: \<open>b_valid\<close> and \<open>b_dirty\<close> are the two bits of \<open>flags\<close>. The pointers
  \<open>prev\<close> and \<open>next\<close> of the cache's list index \<open>bcache.buf\<close>; the index \<open>NBUF\<close> is \<open>bcache.head\<close>.
\<close>

record buf =
  b_valid :: bool
  b_dirty :: bool
  b_dev :: u32
  b_blockno :: u32
  b_lock :: sleeplock
  b_refcnt :: u32
  b_data :: "u8 list"

record superblock =
  sb_size :: u32
  sb_nblocks :: u32
  sb_ninodes :: u32
  sb_nlog :: u32
  sb_logstart :: u32
  sb_inodestart :: u32
  sb_bmapstart :: u32

text \<open>\<open>struct log\<close> and the \<open>struct logheader\<close> inside it (\<open>log.c\<close>).\<close>

record klog =
  lg_start :: u32
  lg_size :: int
  lg_outstanding :: int
  lg_committing :: bool
  lg_dev :: u32
  lh_n :: int
  lh_block :: "u32 list"

record inode =
  ip_dev :: u32
  ip_inum :: u32
  ip_ref :: int
  ip_lock :: sleeplock
  ip_valid :: bool
  ip_type :: u16
  ip_major :: u16
  ip_minor :: u16
  ip_nlink :: u16
  ip_size :: u32
  ip_addrs :: "u32 list"

section \<open>Open files and pipes\<close>

datatype ftype = FD_NONE | FD_PIPE | FD_INODE

record kfile =
  f_type :: ftype
  f_ref :: int
  f_readable :: bool
  f_writable :: bool
  f_pipe :: u32
  f_ip :: "nat option"
  f_off :: u32

record pipe =
  pi_data :: "u8 list"
  pi_nread :: u32
  pi_nwrite :: u32
  pi_readopen :: bool
  pi_writeopen :: bool

section \<open>Console\<close>

text \<open>\<open>input\<close> of \<open>console.c\<close>.\<close>

record inputbuf =
  in_buf :: "u8 list"
  in_r :: u32
  in_w :: u32
  in_e :: u32

section \<open>The kernel's global variables\<close>

text \<open>
  \<open>kend\<close>, \<open>kdata\<close>, \<open>sym_trapret\<close> and \<open>sym_forkret\<close> are the addresses the linker gives the
  symbols \<open>end\<close>, \<open>data\<close>, \<open>trapret\<close> and \<open>forkret\<close>; no operation changes them.
  \<open>lapic_id\<close> is what \<open>lapicid()\<close> answers: the identity of the processor that executes. \<open>mem\<close> is
  memory at kernel addresses; \<open>pipes\<close> is the part of it that holds pipe structures, by address;
  \<open>disk\<close> the blocks of device 1 and \<open>disk_trace\<close> the blocks written to it, oldest first; \<open>cons_out\<close> the bytes sent to the serial line, oldest first;
  \<open>idequeue\<close>, \<open>b_qnext\<close> and \<open>havedisk1\<close> are the variables of \<open>ide.c\<close> (\<open>b_qnext\<close> is the field \<open>qnext\<close>
  of the buffers), \<open>port_out\<close> the values written to device ports, \<open>kbd_shift\<close> the static variable of
  \<open>kbdgetc\<close>; \<open>crt\<close> and \<open>crt_pos\<close> the cells and the cursor register of the display; \<open>uart\<close> says whether a
  serial port was found.
\<close>

record kstate =
  kend :: u32
  kdata :: u32
  sym_trapret :: u32
  sym_forkret :: u32
  lapic_id :: u8
  cpus :: "cpu list"
  locks :: "lockid \<Rightarrow> spinlock"
  mem :: "u32 \<Rightarrow> u8"
  km_freelist :: u32
  km_use_lock :: bool
  procs :: "proc list"
  initproc :: "nat option"
  nextpid :: u32
  current_scheduler :: u32
  random_seed :: u32
  ticks :: u32
  forkret_first :: bool
  kpgdir :: u32
  disk :: "u32 \<Rightarrow> u8 list"
  disksize :: u32
  disk_trace :: "(u32 \<times> u8 list) list"
  bufs :: "buf list"
  b_next :: "nat \<Rightarrow> nat"
  b_prev :: "nat \<Rightarrow> nat"
  ksb :: superblock
  klog :: klog
  inodes :: "inode list"
  ftable :: "kfile list"
  pipes :: "u32 \<Rightarrow> pipe"
  cons_locking :: bool
  cons_out :: "u8 list"
  input :: inputbuf
  uart :: bool
  crt :: "nat \<Rightarrow> u16"
  crt_pos :: int
  idequeue :: "nat option"
  b_qnext :: "nat \<Rightarrow> nat option"
  havedisk1 :: "bool"
  port_out :: "(u16 \<times> u32) list"
  kbd_shift :: "u32"

section \<open>The kernel image before \<open>main\<close> runs\<close>

text \<open>C clears global data; the initialisers of \<open>proc.c\<close> set three of the variables.\<close>

definition spinlock0 :: spinlock where
  "spinlock0 = \<lparr>locked = False, lk_name = [], lk_cpu = None\<rparr>"

definition sleeplock0 :: sleeplock where
  "sleeplock0 = \<lparr>sl_locked = False, sl_name = [], sl_pid = 0\<rparr>"

definition cpu0 :: "u8 \<Rightarrow> cpu" where
  "cpu0 a = \<lparr>apicid = a, started = False, ncli = 0, intena = False, cpu_proc = None,
     ts_ss0 = 0, ts_esp0 = 0, ts_iomb = 0, iflag = False, cr3 = 0\<rparr>"

definition trapframe0 :: trapframe where
  "trapframe0 = \<lparr>tf_edi = 0, tf_esi = 0, tf_ebp = 0, tf_oesp = 0, tf_ebx = 0, tf_edx = 0,
     tf_ecx = 0, tf_eax = 0, tf_gs = 0, tf_fs = 0, tf_es = 0, tf_ds = 0, tf_trapno = 0,
     tf_err = 0, tf_eip = 0, tf_cs = 0, tf_eflags = 0, tf_esp = 0, tf_ss = 0\<rparr>"

definition kcontext0 :: kcontext where
  "kcontext0 = \<lparr>cx_edi = 0, cx_esi = 0, cx_ebx = 0, cx_ebp = 0, cx_eip = 0\<rparr>"

definition proc0 :: proc where
  "proc0 = \<lparr>p_sz = 0, p_pgdir = 0, p_kstack = 0, p_state = UNUSED, p_pid = 0, p_parent = None,
     p_tf = 0, tf_of = trapframe0, p_context = 0, cx_of = kcontext0, p_chan = None,
     p_killed = False, p_ofile = replicate NOFILE None, p_cwd = None, p_name = replicate 16 0,
     p_createtime = 0, p_syscall_count = 0, p_good_syscall_count = 0, p_runtime = 0,
     p_sleeptime = 0, p_exittime = 0, p_priority = 0, p_estimated_burst = 0,
     p_last_burst_ticks = 0, p_ticks = 0, p_yield_request = False\<rparr>"

definition buf0 :: buf where
  "buf0 = \<lparr>b_valid = False, b_dirty = False, b_dev = 0, b_blockno = 0, b_lock = sleeplock0,
     b_refcnt = 0, b_data = replicate BSIZE 0\<rparr>"

definition superblock0 :: superblock where
  "superblock0 = \<lparr>sb_size = 0, sb_nblocks = 0, sb_ninodes = 0, sb_nlog = 0, sb_logstart = 0,
     sb_inodestart = 0, sb_bmapstart = 0\<rparr>"

definition klog0 :: klog where
  "klog0 = \<lparr>lg_start = 0, lg_size = 0, lg_outstanding = 0, lg_committing = False, lg_dev = 0,
     lh_n = 0, lh_block = replicate LOGSIZE 0\<rparr>"

definition inode0 :: inode where
  "inode0 = \<lparr>ip_dev = 0, ip_inum = 0, ip_ref = 0, ip_lock = sleeplock0, ip_valid = False,
     ip_type = 0, ip_major = 0, ip_minor = 0, ip_nlink = 0, ip_size = 0,
     ip_addrs = replicate (NDIRECT + 1) 0\<rparr>"

definition kfile0 :: kfile where
  "kfile0 = \<lparr>f_type = FD_NONE, f_ref = 0, f_readable = False, f_writable = False, f_pipe = 0,
     f_ip = None, f_off = 0\<rparr>"

definition pipe0 :: pipe where
  "pipe0 = \<lparr>pi_data = replicate 512 0, pi_nread = 0, pi_nwrite = 0, pi_readopen = False,
     pi_writeopen = False\<rparr>"

definition inputbuf0 :: inputbuf where
  "inputbuf0 = \<lparr>in_buf = replicate 128 0, in_r = 0, in_w = 0, in_e = 0\<rparr>"

text \<open>A machine with the given processors and disk.\<close>

definition kstate0 :: "u8 list \<Rightarrow> (u32 \<Rightarrow> u8 list) \<Rightarrow> kstate" where
  "kstate0 apics dsk = \<lparr>kend = 0x80200000, kdata = 0x80110000, sym_trapret = 0x80106000,
     sym_forkret = 0x80104000, lapic_id = 0, cpus = map cpu0 apics, locks = (\<lambda>_. spinlock0),
     mem = (\<lambda>_. 0), km_freelist = 0, km_use_lock = False, procs = replicate NPROC proc0,
     initproc = None, nextpid = 1, current_scheduler = SCHED_FCFS, random_seed = 1, ticks = 0,
     forkret_first = True, kpgdir = 0, disk = dsk, disksize = FSSIZE, disk_trace = [], bufs = replicate NBUF buf0,
     b_next = (\<lambda>_. 0), b_prev = (\<lambda>_. 0), ksb = superblock0, klog = klog0,
     inodes = replicate NINODE inode0, ftable = replicate NFILE kfile0, pipes = (\<lambda>_. pipe0),
     cons_locking = False, cons_out = [], input = inputbuf0, uart = True, crt = (\<lambda>_. 0),
     crt_pos = 0, idequeue = None, b_qnext = (\<lambda>_. None), havedisk1 = False, port_out = [], kbd_shift = 0\<rparr>"

end
