(* ===== verification/CString.thy ===== *)
theory CString
  imports KState
begin

text \<open>
  The memory and string routines of \<open>string.c\<close> (kernel) and \<open>ulib.c\<close> (user programs).

  \<open>memset\<close>, \<open>memcmp\<close> and \<open>memmove\<close> act on a memory, a function from addresses to bytes, because
  their arguments may overlap. The string routines act on arrays: a pointer into an array is the
  list of the bytes from there to the array's end, and reading or writing past the end is \<open>None\<close>.
\<close>

section \<open>Blocks of memory\<close>

text \<open>\<open>rep stosb\<close> and \<open>rep stosl\<close> of \<open>x86.h\<close>.\<close>

primrec stosb :: "(u32 \<Rightarrow> u8) \<Rightarrow> u32 \<Rightarrow> u8 \<Rightarrow> nat \<Rightarrow> (u32 \<Rightarrow> u8)" where
  "stosb m a d 0 = m"
| "stosb m a d (Suc n) = stosb (m(a := d)) (a + 1) d n"

definition write32 :: "(u32 \<Rightarrow> u8) \<Rightarrow> u32 \<Rightarrow> u32 \<Rightarrow> (u32 \<Rightarrow> u8)" where
  "write32 m a w = m(a := ucast w, a + 1 := ucast (drop_bit 8 w),
     a + 2 := ucast (drop_bit 16 w), a + 3 := ucast (drop_bit 24 w))"

definition read32 :: "(u32 \<Rightarrow> u8) \<Rightarrow> u32 \<Rightarrow> u32" where
  "read32 m a = get32 [m a, m (a + 1), m (a + 2), m (a + 3)] 0"

primrec stosl :: "(u32 \<Rightarrow> u8) \<Rightarrow> u32 \<Rightarrow> u32 \<Rightarrow> nat \<Rightarrow> (u32 \<Rightarrow> u8)" where
  "stosl m a d 0 = m"
| "stosl m a d (Suc n) = stosl (write32 m a d) (a + 4) d n"

definition memset :: "(u32 \<Rightarrow> u8) \<Rightarrow> u32 \<Rightarrow> u32 \<Rightarrow> u32 \<Rightarrow> (u32 \<Rightarrow> u8)" where
  "memset m dst c n =
     (if sint dst mod 4 = 0 \<and> n mod 4 = 0
      then let c = c AND 0xFF
           in stosl m dst (push_bit 24 c OR push_bit 16 c OR push_bit 8 c OR c) (unat (n div 4))
      else stosb m dst (ucast c) (unat n))"

primrec memcmp_loop :: "(u32 \<Rightarrow> u8) \<Rightarrow> u32 \<Rightarrow> u32 \<Rightarrow> nat \<Rightarrow> int" where
  "memcmp_loop m s1 s2 0 = 0"
| "memcmp_loop m s1 s2 (Suc n) =
     (if m s1 \<noteq> m s2 then uint (m s1) - uint (m s2) else memcmp_loop m (s1 + 1) (s2 + 1) n)"

definition memcmp :: "(u32 \<Rightarrow> u8) \<Rightarrow> u32 \<Rightarrow> u32 \<Rightarrow> u32 \<Rightarrow> int" where
  "memcmp m v1 v2 n = memcmp_loop m v1 v2 (unat n)"

primrec copy_up :: "(u32 \<Rightarrow> u8) \<Rightarrow> u32 \<Rightarrow> u32 \<Rightarrow> nat \<Rightarrow> (u32 \<Rightarrow> u8)" where
  "copy_up m d s 0 = m"
| "copy_up m d s (Suc n) = copy_up (m(d := m s)) (d + 1) (s + 1) n"

primrec copy_down :: "(u32 \<Rightarrow> u8) \<Rightarrow> u32 \<Rightarrow> u32 \<Rightarrow> nat \<Rightarrow> (u32 \<Rightarrow> u8)" where
  "copy_down m d s 0 = m"
| "copy_down m d s (Suc n) = copy_down (m(d - 1 := m (s - 1))) (d - 1) (s - 1) n"

definition memmove :: "(u32 \<Rightarrow> u8) \<Rightarrow> u32 \<Rightarrow> u32 \<Rightarrow> u32 \<Rightarrow> (u32 \<Rightarrow> u8)" where
  "memmove m dst src n =
     (if src < dst \<and> src + n > dst
      then copy_down m (dst + n) (src + n) (unat n)
      else copy_up m dst src (unat n))"

definition memcpy :: "(u32 \<Rightarrow> u8) \<Rightarrow> u32 \<Rightarrow> u32 \<Rightarrow> u32 \<Rightarrow> (u32 \<Rightarrow> u8)" where
  "memcpy m dst src n = memmove m dst src n"

text \<open>\<open>memmove\<close> of \<open>ulib.c\<close> always copies upwards.\<close>

definition u_memmove :: "(u32 \<Rightarrow> u8) \<Rightarrow> u32 \<Rightarrow> u32 \<Rightarrow> u32 \<Rightarrow> (u32 \<Rightarrow> u8)" where
  "u_memmove m vdst vsrc n = copy_up m vdst vsrc (nat (sint n))"

definition u_memset :: "(u32 \<Rightarrow> u8) \<Rightarrow> u32 \<Rightarrow> u32 \<Rightarrow> u32 \<Rightarrow> (u32 \<Rightarrow> u8)" where
  "u_memset m dst c n = stosb m dst (ucast c) (unat n)"

section \<open>Strings\<close>

fun strncmp :: "u8 list \<Rightarrow> u8 list \<Rightarrow> nat \<Rightarrow> int option" where
  "strncmp p q 0 = Some 0"
| "strncmp (x # p) (y # q) (Suc n) =
     (if x \<noteq> 0 \<and> x = y then strncmp p q n else Some (uint x - uint y))"
| "strncmp p q (Suc n) = None"

fun strncpy :: "u8 list \<Rightarrow> u8 list \<Rightarrow> nat \<Rightarrow> u8 list option" where
  "strncpy s t 0 = Some s"
| "strncpy (d # s) (x # t) (Suc n) =
     (if x \<noteq> 0 then map_option ((#) x) (strncpy s t n)
      else if n \<le> length s then Some (0 # replicate n 0 @ drop n s)
      else None)"
| "strncpy s t (Suc n) = None"

text \<open>The loop of \<open>safestrcpy\<close> with \<open>n\<close> not yet decremented, and the final \<open>*s = 0\<close>.\<close>

fun set_nul :: "u8 list \<Rightarrow> u8 list option" where
  "set_nul [] = None"
| "set_nul (d # s) = Some (0 # s)"

fun safestrcpy_loop :: "u8 list \<Rightarrow> u8 list \<Rightarrow> nat \<Rightarrow> u8 list option" where
  "safestrcpy_loop s t 0 = set_nul s"
| "safestrcpy_loop s t (Suc 0) = set_nul s"
| "safestrcpy_loop (d # s) (x # t) (Suc (Suc n)) =
     map_option ((#) x) (if x \<noteq> 0 then safestrcpy_loop s t (Suc n) else set_nul s)"
| "safestrcpy_loop s t (Suc (Suc n)) = None"

definition safestrcpy :: "u8 list \<Rightarrow> u8 list \<Rightarrow> int \<Rightarrow> u8 list option" where
  "safestrcpy s t n = (if n \<le> 0 then Some s else safestrcpy_loop s t (nat n))"

fun strlen :: "u8 list \<Rightarrow> nat option" where
  "strlen [] = None"
| "strlen (x # s) = (if x = 0 then Some 0 else map_option Suc (strlen s))"

fun strcpy :: "u8 list \<Rightarrow> u8 list \<Rightarrow> u8 list option" where
  "strcpy (d # s) (x # t) = (if x \<noteq> 0 then map_option ((#) x) (strcpy s t) else Some (0 # s))"
| "strcpy s t = None"

fun strcmp :: "u8 list \<Rightarrow> u8 list \<Rightarrow> int option" where
  "strcmp (x # p) (y # q) = (if x \<noteq> 0 \<and> x = y then strcmp p q else Some (uint x - uint y))"
| "strcmp p q = None"

text \<open>\<open>strchr\<close>: the rest of the string from the first \<open>c\<close>; \<open>Some None\<close> is the null pointer.\<close>

fun strchr :: "u8 list \<Rightarrow> u8 \<Rightarrow> u8 list option option" where
  "strchr [] c = None"
| "strchr (x # s) c = (if x = 0 then Some None else if x = c then Some (Some (x # s)) else strchr s c)"

text \<open>\<open>atoi\<close>: the digits at the start of the string, in wrapping 32-bit arithmetic.\<close>

fun atoi_loop :: "u8 list \<Rightarrow> u32 \<Rightarrow> u32 option" where
  "atoi_loop [] n = None"
| "atoi_loop (x # s) n =
     (if 48 \<le> x \<and> x \<le> 57 then atoi_loop s (n * 10 + ucast x - 48) else Some n)"

definition atoi :: "u8 list \<Rightarrow> u32 option" where
  "atoi s = atoi_loop s 0"

section \<open>What the block routines do\<close>

text \<open>The addresses \<open>dst\<close>, \<open>dst + 1\<close>, \<dots> of a block of \<open>n\<close> bytes, wrap-around included.\<close>

definition in_block :: "u32 \<Rightarrow> nat \<Rightarrow> u32 \<Rightarrow> bool" where
  "in_block dst n a \<longleftrightarrow> unat (a - dst) < n"

lemma in_block_0 [simp]: "\<not> in_block dst 0 a"
  by (simp add: in_block_def)

lemma unat32: "unat (n :: u32) < 4294967296"
  using unsigned_less [of n] by simp

lemma unat_Suc_sub: "a \<noteq> d \<Longrightarrow> unat (a - (d + 1)) = unat (a - d) - 1" for a d :: u32
  using unat_minus_one [of "a - d"] by (simp add: algebra_simps)

lemma in_block_Suc:
  assumes "n < 2 ^ 32"
  shows "in_block d (Suc n) a \<longleftrightarrow> a = d \<or> in_block (d + 1) n a \<and> a \<noteq> d"
proof (cases "a = d")
  case False
  then have "unat (a - d) \<noteq> 0" by (simp add: unat_eq_0)
  with unat_Suc_sub [OF False] show ?thesis by (auto simp: in_block_def)
qed (simp add: in_block_def)

lemma stosb_eq:
  "n \<le> 2 ^ 32 \<Longrightarrow> stosb m dst d n = (\<lambda>a. if in_block dst n a then d else m a)"
proof (induction n arbitrary: m dst)
  case (Suc n)
  then show ?case by (auto simp: in_block_Suc fun_eq_iff)
qed simp

lemma stosb_add: "stosb m a d (i + j) = stosb (stosb m a d i) (a + of_nat i) d j"
  by (induction i arbitrary: m a) (simp_all add: algebra_simps)

lemma stosl_eq_stosb:
  assumes "\<And>m a. write32 m a w = m(a := b, a + 1 := b, a + 2 := b, a + 3 := b)"
  shows "stosl m a w n = stosb m a b (4 * n)"
proof (induction n arbitrary: m a)
  case (Suc n)
  have "stosb m a b (4 + 4 * n) = stosb (stosb m a b 4) (a + 4) b (4 * n)"
    by (simp only: stosb_add) simp
  moreover have "stosb m a b 4 = write32 m a w"
    by (simp add: assms numeral_eq_Suc add.assoc)
  ultimately show ?case by (simp add: Suc.IH)
qed simp

lemma ucast_drop_byte:
  fixes w c :: u32
  assumes "\<And>k. k < 8 \<Longrightarrow> bit w (j + k) \<longleftrightarrow> bit c k"
  shows "ucast (drop_bit j w) = (ucast c :: u8)"
  using assms by (intro bit_word_eqI) (simp add: bit_ucast_iff bit_drop_bit_eq)

lemma write32_replicated:
  fixes c :: u32
  defines "d \<equiv> c AND 0xFF"
  shows "write32 m a (push_bit 24 d OR push_bit 16 d OR push_bit 8 d OR d)
       = m(a := ucast c, a + 1 := ucast c, a + 2 := ucast c, a + 3 := ucast c)"
proof -
  let ?w = "push_bit 24 d OR push_bit 16 d OR push_bit 8 d OR d"
  have "d = take_bit 8 c" by (simp add: d_def take_bit_eq_mask mask_eq_exp_minus_1)
  then have d: "bit d k \<longleftrightarrow> k < 8 \<and> bit c k" for k by (simp add: bit_take_bit_iff)
  have w: "bit ?w (j + k) \<longleftrightarrow> bit c k" if "k < 8" "j \<in> {0, 8, 16, 24}" for j k
    using that by (auto simp: bit_or_iff bit_push_bit_iff d)
  note byte = ucast_drop_byte [of ?w _ c]
  have "ucast ?w = (ucast c :: u8)" "ucast (drop_bit 8 ?w) = (ucast c :: u8)"
    "ucast (drop_bit 16 ?w) = (ucast c :: u8)" "ucast (drop_bit 24 ?w) = (ucast c :: u8)"
    using byte [of 0] byte [of 8] byte [of 16] byte [of 24] w w [of _ 0] by simp_all
  then show ?thesis by (simp add: write32_def)
qed

lemma memset_eq:
  "memset m dst c n = (\<lambda>a. if in_block dst (unat n) a then ucast c else m a)"
proof (cases "sint dst mod 4 = 0 \<and> n mod 4 = 0")
  case True
  then have "unat n mod 4 = 0" using unat_mod [of n 4] by simp
  then have n: "unat n = 4 * unat (n div 4)"
    using mult_div_mod_eq [of 4 "unat n"] by (simp add: unat_div)
  show ?thesis
    using True stosl_eq_stosb [OF write32_replicated] stosb_eq [of "unat n" m dst]
      unat32 [of n]
    by (simp add: memset_def Let_def n [symmetric])
next
  case False
  then show ?thesis
    using unat32 [of n] by (auto simp: memset_def stosb_eq)
qed

lemma in_block_self: "0 < n \<Longrightarrow> in_block d n d"
  by (simp add: in_block_def)

lemma copy_up_eq:
  assumes "n \<le> 2 ^ 32" "d = s \<or> n \<le> unat (d - s)"
  shows "copy_up m d s n = (\<lambda>a. if in_block d n a then m (s + (a - d)) else m a)"
  using assms
proof (induction n arbitrary: m d s)
  case (Suc n)
  have n: "n < 2 ^ 32" using Suc.prems(1) by simp
  have apart: "d + 1 = s + 1 \<or> n \<le> unat (d + 1 - (s + 1))" using Suc.prems(2) by auto
  have src: "s + (a - d) \<noteq> d" if "in_block (d + 1) n a" "a \<noteq> d" for a
  proof
    assume "s + (a - d) = d"
    then have e: "a - d = d - s" by (simp add: algebra_simps)
    with that have "d \<noteq> s" by auto
    moreover have "unat (a - d) < Suc n"
      using that in_block_Suc [OF n, of d a] by (simp add: in_block_def)
    ultimately show False using Suc.prems(2) e by simp
  qed
  have off: "s + 1 + (a - (d + 1)) = s + (a - d)" for a by simp
  have "copy_up m d s (Suc n) a = (if in_block d (Suc n) a then m (s + (a - d)) else m a)" for a
    unfolding copy_up.simps Suc.IH [OF less_imp_le [OF n] apart] in_block_Suc [OF n] off
    using src [of a] by auto
  then show ?case by blast
qed simp

lemma in_block_last:
  assumes "n < 2 ^ 32"
  shows "in_block d (Suc n) a \<longleftrightarrow> a = d + of_nat n \<or> in_block d n a"
proof -
  have "unat (a - d) = n \<longleftrightarrow> a - d = of_nat n"
    using assms by (auto simp: word_unat_eq_iff unat_of_nat take_bit_nat_eq_self)
  then show ?thesis by (auto simp: in_block_def less_Suc_eq algebra_simps)
qed

lemma copy_down_eq:
  assumes "n \<le> 2 ^ 32" "d = s \<or> n \<le> unat (s - d)"
  shows "copy_down m (d + of_nat n) (s + of_nat n) n
       = (\<lambda>a. if in_block d n a then m (s + (a - d)) else m a)"
  using assms
proof (induction n arbitrary: m)
  case (Suc n)
  let ?d = "d + of_nat n" and ?s = "s + of_nat n"
  have n: "n < 2 ^ 32" using Suc.prems(1) by simp
  have apart: "d = s \<or> n \<le> unat (s - d)" using Suc.prems(2) by auto
  have nb: "\<not> in_block d n ?d" using n by (simp add: in_block_def unat_of_nat take_bit_nat_eq_self)
  have src: "s + (a - d) \<noteq> ?d" if "in_block d n a" for a
  proof
    assume "s + (a - d) = ?d"
    then have e: "of_nat n = (a - d) + (s - d)" by (simp add: algebra_simps)
    have an: "unat (a - d) < n" using that by (simp add: in_block_def)
    show False
    proof (cases "d = s")
      case True
      with e an n show False by (auto simp: word_unat_eq_iff unat_of_nat take_bit_nat_eq_self)
    next
      case False
      with Suc.prems(2) have sd: "Suc n \<le> unat (s - d)" by simp
      from e have "s - d = of_nat n - (a - d)" by (simp add: algebra_simps)
      moreover have "unat (of_nat n - (a - d)) = n - unat (a - d)"
        using an n by (subst unat_sub) (auto simp: word_le_nat_alt unat_of_nat take_bit_nat_eq_self)
      ultimately have "unat (s - d) = n - unat (a - d)" by (simp only:)
      with sd show False by linarith
    qed
  qed
  have step: "copy_down m (d + of_nat (Suc n)) (s + of_nat (Suc n)) (Suc n)
       = copy_down (m(?d := m ?s)) ?d ?s n"
    by (simp add: algebra_simps)
  have "copy_down m (d + of_nat (Suc n)) (s + of_nat (Suc n)) (Suc n) a
       = (if in_block d (Suc n) a then m (s + (a - d)) else m a)" for a
    unfolding step Suc.IH [OF less_imp_le [OF n] apart] in_block_last [OF n]
    using src [of a] nb by auto
  then show ?case by blast
qed simp

text \<open>The bytes a \<open>memmove\<close> leaves behind, for blocks that do not wrap around the address space.\<close>

lemma memmove_eq:
  assumes "unat src + unat n < 2 ^ 32" "unat dst + unat n \<le> 2 ^ 32"
  shows "memmove m dst src n = (\<lambda>a. if in_block dst (unat n) a then m (src + (a - dst)) else m a)"
proof (cases "src < dst \<and> src + n > dst")
  case True
  have "unat (src + n) = unat src + unat n" using assms(1) by (intro unat_add_lem [THEN iffD1]) simp
  with True assms(2) have "unat n \<le> unat (src - dst)"
    by (simp add: unat_sub_if' word_less_nat_alt)
  then show ?thesis
    using True copy_down_eq [of "unat n" dst src m] unat32 [of n] by (simp add: memmove_def)
next
  case False
  have "unat (src + n) = unat src + unat n" using assms(1) by (intro unat_add_lem [THEN iffD1]) simp
  with False assms have "dst = src \<or> unat n \<le> unat (dst - src)"
    by (auto simp: unat_sub_if' word_less_nat_alt word_unat_eq_iff not_less)
  then show ?thesis
    using False copy_up_eq [of "unat n" dst src m] unat32 [of n] by (auto simp: memmove_def)
qed

section \<open>What the string routines do\<close>

text \<open>The string in an array of which at most \<open>n\<close> bytes are read: the bytes before the first NUL.\<close>

definition cstr :: "nat \<Rightarrow> u8 list \<Rightarrow> u8 list" where
  "cstr n bs = takeWhile (\<lambda>x. x \<noteq> 0) (take n bs)"

lemma cstr_0 [simp]: "cstr 0 bs = []"
  by (simp add: cstr_def)

lemma cstr_Cons_Suc [simp]: "cstr (Suc n) (x # bs) = (if x = 0 then [] else x # cstr n bs)"
  by (simp add: cstr_def)

lemma uint_eq_iff_eq [simp]: "uint x = uint y \<longleftrightarrow> x = y" for x y :: u8
  by (simp add: word_uint_eq_iff)

lemma strncmp_zero_iff: "strncmp p q n = Some r \<Longrightarrow> r = 0 \<longleftrightarrow> cstr n p = cstr n q"
  by (induction p q n arbitrary: r rule: strncmp.induct) (auto simp: unsigned_eq_0_iff split: if_splits)

lemma strncmp_total: "n \<le> length p \<Longrightarrow> n \<le> length q \<Longrightarrow> \<exists>r. strncmp p q n = Some r"
  by (induction p q n rule: strncmp.induct) auto

lemma strncmp_refl: "n \<le> length p \<Longrightarrow> strncmp p p n = Some 0"
  using strncmp_total [of n p p] strncmp_zero_iff [of p p n] by auto

lemma strncpy_cstr:
  "strncpy s t n = Some u \<Longrightarrow> length u = length s \<and> drop n u = drop n s \<and> cstr n u = cstr n t"
proof (induction s t n arbitrary: u rule: strncpy.induct)
  case (2 d s x t n)
  then show ?case by (auto split: if_splits)
qed auto

lemma strncpy_total: "n \<le> length s \<Longrightarrow> n \<le> length t \<Longrightarrow> \<exists>u. strncpy s t n = Some u"
proof (induction s t n rule: strncpy.induct)
  case (2 d s x t n)
  then show ?case by auto
qed auto

lemma safestrcpy_loop_spec:
  "safestrcpy_loop s t n = Some u \<Longrightarrow> 0 < n \<Longrightarrow> n \<le> length s \<Longrightarrow>
   length u = length s \<and> drop n u = drop n s \<and> cstr n u = cstr (n - 1) t \<and> 0 \<in> set (take n u)"
proof (induction s t n arbitrary: u rule: safestrcpy_loop.induct)
  case (2 s t)
  then show ?case by (cases s) auto
next
  case (3 d s x t n)
  show ?case
  proof (cases "x = 0")
    case True
    with "3.prems" show ?thesis by (cases s) auto
  next
    case False
    with "3.prems" obtain v where v: "safestrcpy_loop s t (Suc n) = Some v" "u = x # v" by auto
    with "3.IH" False "3.prems" show ?thesis by auto
  qed
qed auto

lemma strlen_Some_iff: "strlen s = Some n \<longleftrightarrow> n < length s \<and> s ! n = 0 \<and> (\<forall>i < n. s ! i \<noteq> 0)"
proof -
  have "strlen s = scan (\<lambda>x. x = 0) s" by (induction s) auto
  then show ?thesis by (simp add: scan_Some_iff)
qed

lemma strcmp_zero_iff:
  "strcmp p q = Some r \<Longrightarrow> r = 0 \<longleftrightarrow> takeWhile (\<lambda>x. x \<noteq> 0) p = takeWhile (\<lambda>x. x \<noteq> 0) q"
  by (induction p q arbitrary: r rule: strcmp.induct) (auto simp: unsigned_eq_0_iff split: if_splits)

end
