(* ===== verification/Fmt.thy ===== *)
theory Fmt
  imports CString
begin

text \<open>
  Printing numbers and formatted text: \<open>printint\<close> of \<open>console.c\<close> and \<open>printf.c\<close>, and the user
  library's \<open>printf\<close>. What is printed is a list of bytes in the order they are written. A string
  argument is the array it points to (\<open>None\<close> is the null pointer), a format an array as well;
  reading past the end of an array or of the arguments is \<open>None\<close>.
\<close>

section \<open>Numbers\<close>

definition bytes :: "string \<Rightarrow> u8 list" where
  "bytes cs = map of_char cs"

text \<open>A string literal: its bytes and the terminating NUL.\<close>

definition lit :: "string \<Rightarrow> u8 list" where
  "lit cs = bytes cs @ [0]"

definition digits_lower :: "u8 list" where
  "digits_lower = bytes ''0123456789abcdef''"

definition digits_upper :: "u8 list" where
  "digits_upper = bytes ''0123456789ABCDEF''"

text \<open>The \<open>do \<dots> while\<close> loop that fills \<open>buf\<close>, least digit first; both callers pass 10 or 16.\<close>

function put_digits :: "u8 list \<Rightarrow> u32 \<Rightarrow> u32 \<Rightarrow> u8 list" where
  "put_digits tab base x =
     tab ! unat (x mod base) #
       (if x div base \<noteq> 0 \<and> 1 < base then put_digits tab base (x div base) else [])"
  by pat_completeness auto
termination
proof (relation "measure (\<lambda>(tab, base, x). unat x)")
  fix tab :: "u8 list" and base x :: u32
  assume a: "x div base \<noteq> 0 \<and> 1 < base"
  then have "1 < unat base" "0 < unat x" by (auto simp: word_less_nat_alt unat_gt_0)
  then have "unat x div unat base < unat x" by simp
  then show "((tab, base, x div base), tab, base, x) \<in> measure (\<lambda>(tab, base, x). unat x)"
    by (simp add: unat_div)
qed simp

declare put_digits.simps [simp del]

text \<open>The bytes \<open>printint\<close> prints: \<open>buf\<close> is read backwards.\<close>

definition printint :: "u32 \<Rightarrow> u32 \<Rightarrow> bool \<Rightarrow> u8 list" where
  "printint xx base sign =
     (let neg = sign \<and> sint xx < 0;
          x = (if neg then - xx else xx);
          buf = put_digits digits_lower base x;
          buf = (if neg then buf @ [45] else buf)
      in rev buf)"

definition u_printint :: "u32 \<Rightarrow> u32 \<Rightarrow> bool \<Rightarrow> u8 list" where
  "u_printint xx base sg =
     (let neg = sg \<and> sint xx < 0;
          x = (if neg then - xx else xx);
          buf = put_digits digits_upper base x;
          buf = (if neg then buf @ [45] else buf)
      in rev buf)"

section \<open>\<open>printf\<close>\<close>

datatype fmt_arg = AInt u32 | AStr "u8 list option"

text \<open>The bytes of a string argument, up to its NUL.\<close>

fun str_bytes :: "u8 list \<Rightarrow> u8 list option" where
  "str_bytes [] = None"
| "str_bytes (x # s) = (if x = 0 then Some [] else map_option ((#) x) (str_bytes s))"

definition arg_str :: "u8 list option \<Rightarrow> u8 list option" where
  "arg_str a = (case a of None \<Rightarrow> Some (bytes ''(null)'') | Some s \<Rightarrow> str_bytes s)"

text \<open>
  \<open>printf\<close> of \<open>printf.c\<close>: \<open>st\<close> is its variable \<open>state\<close>, true after a percent sign. The result
  is what is written to the descriptor.
\<close>

fun u_printf :: "bool \<Rightarrow> u8 list \<Rightarrow> fmt_arg list \<Rightarrow> u8 list option" where
  "u_printf st [] ap = None"
| "u_printf st (c # fmt) ap =
     (if c = 0 then Some []
      else if \<not> st then
        (if c = 37 then u_printf True fmt ap
         else map_option ((#) c) (u_printf False fmt ap))
      else if c = 100 then
        (case ap of AInt x # ap \<Rightarrow> map_option ((@) (u_printint x 10 True)) (u_printf False fmt ap)
         | _ \<Rightarrow> None)
      else if c = 120 \<or> c = 112 then
        (case ap of AInt x # ap \<Rightarrow> map_option ((@) (u_printint x 16 False)) (u_printf False fmt ap)
         | _ \<Rightarrow> None)
      else if c = 115 then
        (case ap of AStr s # ap \<Rightarrow>
           (case arg_str s of None \<Rightarrow> None
            | Some bs \<Rightarrow> map_option ((@) bs) (u_printf False fmt ap))
         | _ \<Rightarrow> None)
      else if c = 99 then
        (case ap of AInt x # ap \<Rightarrow> map_option ((#) (ucast x)) (u_printf False fmt ap)
         | _ \<Rightarrow> None)
      else if c = 37 then map_option ((#) c) (u_printf False fmt ap)
      else map_option (\<lambda>out. 37 # c # out) (u_printf False fmt ap))"

section \<open>The digits denote the number\<close>

primrec digits_val :: "nat \<Rightarrow> nat list \<Rightarrow> nat" where
  "digits_val b [] = 0"
| "digits_val b (d # ds) = d + b * digits_val b ds"

function nat_digits :: "nat \<Rightarrow> nat \<Rightarrow> nat list" where
  "nat_digits b n = n mod b # (if n div b \<noteq> 0 \<and> 1 < b then nat_digits b (n div b) else [])"
  by pat_completeness auto
termination
  by (relation "measure snd") (auto simp: div_greater_zero_iff intro!: div_less_dividend)

declare nat_digits.simps [simp del]

lemma nat_digits_val: "1 < b \<Longrightarrow> digits_val b (nat_digits b n) = n"
proof (induction b n rule: nat_digits.induct)
  case (1 b n)
  then show ?case
    by (subst nat_digits.simps) (auto simp: div_eq_0_iff)
qed

lemma nat_digits_less: "1 < b \<Longrightarrow> d \<in> set (nat_digits b n) \<Longrightarrow> d < b"
proof (induction b n rule: nat_digits.induct)
  case (1 b n)
  from "1.prems"(2) show ?case
    by (subst (asm) nat_digits.simps) (use 1 in \<open>auto split: if_splits\<close>)
qed

lemma length_nat_digits: "1 < b \<Longrightarrow> n < b ^ k \<Longrightarrow> 0 < k \<Longrightarrow> length (nat_digits b n) \<le> k"
proof (induction b n arbitrary: k rule: nat_digits.induct)
  case (1 b n)
  show ?case
  proof (cases "n div b \<noteq> 0")
    case True
    then have "b \<le> n" using "1.prems"(1) by (simp add: div_greater_zero_iff)
    with "1.prems" have "k \<noteq> 1" by auto
    with "1.prems"(3) obtain j where k: "k = Suc j" "0 < j" by (cases k) auto
    with "1.prems" have "n div b < b ^ j" by (simp add: less_mult_imp_div_less mult.commute)
    with "1.IH" [of j] True "1.prems"(1) k show ?thesis by (subst nat_digits.simps) simp
  next
    case False
    with "1.prems" show ?thesis by (subst nat_digits.simps) simp
  qed
qed

lemma put_digits_nat:
  "1 < base \<Longrightarrow> put_digits tab base x = map ((!) tab) (nat_digits (unat base) (unat x))"
proof (induction tab base x rule: put_digits.induct)
  case (1 tab base x)
  have b: "1 < unat base" using "1.prems" by (simp add: word_less_nat_alt)
  have "x div base \<noteq> 0 \<longleftrightarrow> unat x div unat base \<noteq> 0"
    by (simp add: word_unat_eq_iff unat_div)
  with 1 b show ?case
    by (subst put_digits.simps, subst nat_digits.simps) (simp add: unat_mod unat_div)
qed

text \<open>No number overflows the sixteen bytes of \<open>buf\<close>.\<close>

lemma length_printint:
  assumes "base = 10 \<or> base = 16"
  shows "length (printint xx base sign) \<le> 11"
proof -
  have ten: "length (nat_digits (unat base) (unat x)) \<le> 10" for x :: u32
  proof (cases "base = 10")
    case True
    then show ?thesis using unat32 [of x] by (intro length_nat_digits) simp_all
  next
    case False
    with assms have "base = 16" by simp
    then show ?thesis using unat32 [of x] by (intro length_nat_digits) simp_all
  qed
  have "1 < base" using assms by auto
  with ten [of xx] ten [of "- xx"] show ?thesis by (simp add: printint_def Let_def put_digits_nat)
qed

text \<open>\<open>atoi\<close> reads back what \<open>printf\<close> wrote.\<close>

lemma digit_byte: "d < 10 \<Longrightarrow> digits_upper ! d = word_of_nat (48 + d)"
  by (auto simp: digits_upper_def bytes_def numeral_eq_Suc less_Suc_eq)

lemma atoi_loop_digit:
  assumes "d < 10"
  shows "atoi_loop (digits_upper ! d # s) n = atoi_loop s (n * 10 + word_of_nat d)"
proof -
  have u: "unat (word_of_nat (48 + d) :: u8) = 48 + d"
    using assms by (simp add: unat_of_nat take_bit_nat_eq_self del: of_nat_add)
  then have "48 \<le> (word_of_nat (48 + d) :: u8)" "(word_of_nat (48 + d) :: u8) \<le> 57"
    using assms by (simp_all add: word_le_nat_alt del: of_nat_add)
  moreover have "(ucast (word_of_nat (48 + d) :: u8) :: u32) = 48 + word_of_nat d"
    using of_nat_unat [of "word_of_nat (48 + d) :: u8", where ?'a = u32]
    unfolding u by simp
  ultimately show ?thesis by (simp only: digit_byte [OF assms] atoi_loop.simps) simp
qed

lemma atoi_loop_digits:
  assumes "\<And>d. d \<in> set ds \<Longrightarrow> d < 10"
  shows "atoi_loop (map ((!) digits_upper) ds @ s) n
       = atoi_loop s (foldl (\<lambda>n d. n * 10 + word_of_nat d) n ds)"
  using assms by (induction ds arbitrary: n) (simp_all add: atoi_loop_digit del: atoi_loop.simps)

lemma foldl_rev_digits:
  "foldl (\<lambda>n d. n * 10 + word_of_nat d) 0 (rev ds) = (word_of_nat (digits_val 10 ds) :: u32)"
  by (induction ds) (simp_all add: mult.commute add.commute)

lemma atoi_digits:
  "atoi (rev (put_digits digits_upper 10 x) @ 0 # r) = Some x"
proof -
  let ?ds = "nat_digits 10 (unat x)"
  have less: "d \<in> set (rev ?ds) \<Longrightarrow> d < 10" for d using nat_digits_less [of 10 d "unat x"] by simp
  have "rev (put_digits digits_upper 10 x) = map ((!) digits_upper) (rev ?ds)"
    by (simp add: put_digits_nat rev_map)
  then show ?thesis
    using atoi_loop_digits [of "rev ?ds" "0 # r" 0, OF less] nat_digits_val [of 10 "unat x"]
    by (simp add: atoi_def foldl_rev_digits)
qed


end
