(* ===== verification/Spinlock.thy ===== *)
theory Spinlock
  imports KState
begin

text \<open>
  Spin locks and interrupt masking (\<open>spinlock.c\<close>) and the lookup of the executing processor
  (\<open>mycpu\<close>, \<open>cpuid\<close>, \<open>myproc\<close> of \<open>proc.c\<close>).

  The invariant \<open>cpu_ok\<close> says that the executing processor is in the table and that a processor
  that masks no interrupts has its saved flag \<open>intena\<close> equal to its interrupt flag. On such a
  state a lock that nobody holds is taken and given back without any other effect, which is what
  the components above rely on (\<open>acquire_ready\<close>, \<open>release_held\<close>).
\<close>

section \<open>The executing processor\<close>

text \<open>The executing processor as the hardware knows it; \<open>cli\<close>, \<open>sti\<close> and \<open>readeflags\<close> act on it.\<close>

definition this_cpu :: "kstate \<Rightarrow> nat option" where
  "this_cpu s = scan (\<lambda>c. apicid c = lapic_id s) (cpus s)"

definition upd_cpu :: "nat \<Rightarrow> (cpu \<Rightarrow> cpu) \<Rightarrow> kstate \<Rightarrow> kstate" where
  "upd_cpu c f s = s\<lparr>cpus := (cpus s)[c := f (cpus s ! c)]\<rparr>"

definition readeflags_IF :: "kstate \<Rightarrow> bool" where
  "readeflags_IF s = (case this_cpu s of None \<Rightarrow> False | Some c \<Rightarrow> iflag (cpus s ! c))"

text \<open>\<open>mycpu\<close>: interrupts must be off; the processor is found by its APIC identity.\<close>

definition mycpu :: "kstate \<Rightarrow> (kstate, nat) res" where
  "mycpu s =
     (if readeflags_IF s then Panic (''mycpu called with interrupts enabled'' @ [CHR 0x0A])
      else case scan (\<lambda>c. apicid c = lapic_id s) (cpus s) of
             Some c \<Rightarrow> Ok c s
           | None \<Rightarrow> Panic (''unknown apicid'' @ [CHR 0x0A]))"

definition cpuid :: "kstate \<Rightarrow> (kstate, nat) res" where
  "cpuid s = mycpu s"

definition cli :: "kstate \<Rightarrow> kstate" where
  "cli s = (case this_cpu s of None \<Rightarrow> s | Some c \<Rightarrow> upd_cpu c (\<lambda>k. k\<lparr>iflag := False\<rparr>) s)"

definition sti :: "kstate \<Rightarrow> kstate" where
  "sti s = (case this_cpu s of None \<Rightarrow> s | Some c \<Rightarrow> upd_cpu c (\<lambda>k. k\<lparr>iflag := True\<rparr>) s)"

section \<open>Nested interrupt masking\<close>

definition pushcli :: "kstate \<Rightarrow> (kstate, unit) res" where
  "pushcli s =
     (let eflags = readeflags_IF s in
      bind (mycpu (cli s)) (\<lambda>c s.
        let s = (if ncli (cpus s ! c) = 0
                 then upd_cpu c (\<lambda>k. k\<lparr>intena := eflags\<rparr>) s else s)
        in Ok () (upd_cpu c (\<lambda>k. k\<lparr>ncli := ncli k + 1\<rparr>) s)))"

definition popcli :: "kstate \<Rightarrow> (kstate, unit) res" where
  "popcli s =
     (if readeflags_IF s then Panic ''popcli - interruptible''
      else bind (mycpu s) (\<lambda>c s.
        let s = upd_cpu c (\<lambda>k. k\<lparr>ncli := ncli k - 1\<rparr>) s in
        if ncli (cpus s ! c) < 0 then Panic ''popcli''
        else if ncli (cpus s ! c) = 0 \<and> intena (cpus s ! c) then Ok () (sti s)
        else Ok () s))"

section \<open>Locks\<close>

definition initlock :: "lockid \<Rightarrow> string \<Rightarrow> kstate \<Rightarrow> kstate" where
  "initlock lk name s =
     s\<lparr>locks := (locks s)(lk := \<lparr>locked = False, lk_name = name, lk_cpu = None\<rparr>)\<rparr>"

definition holding :: "lockid \<Rightarrow> kstate \<Rightarrow> (kstate, bool) res" where
  "holding lk s =
     bind (pushcli s) (\<lambda>_ s.
     bind (mycpu s) (\<lambda>c s.
       let r = locked (locks s lk) \<and> lk_cpu (locks s lk) = Some c in
     bind (popcli s) (\<lambda>_ s. Ok r s)))"

text \<open>
  \<open>xchg(&lk->locked, 1)\<close> returns the old value: the loop ends at once when the lock was free and
  spins while another processor holds it.
\<close>

definition acquire :: "lockid \<Rightarrow> kstate \<Rightarrow> (kstate, unit) res" where
  "acquire lk s =
     bind (pushcli s) (\<lambda>_ s.
     bind (holding lk s) (\<lambda>h s.
       if h then Panic ''acquire''
       else if locked (locks s lk) then Spin
       else
         let s = s\<lparr>locks := (locks s)(lk := (locks s lk)\<lparr>locked := True\<rparr>)\<rparr> in
         bind (mycpu s) (\<lambda>c s.
           Ok () (s\<lparr>locks := (locks s)(lk := (locks s lk)\<lparr>lk_cpu := Some c\<rparr>)\<rparr>))))"

definition release :: "lockid \<Rightarrow> kstate \<Rightarrow> (kstate, unit) res" where
  "release lk s =
     bind (holding lk s) (\<lambda>h s.
       if \<not> h then Panic ''release''
       else
         let s = s\<lparr>locks := (locks s)(lk := (locks s lk)\<lparr>lk_cpu := None, locked := False\<rparr>)\<rparr>
         in popcli s)"

text \<open>\<open>myproc\<close>: the process of the executing processor, read with interrupts off.\<close>

definition myproc :: "kstate \<Rightarrow> (kstate, nat option) res" where
  "myproc s =
     bind (pushcli s) (\<lambda>_ s.
     bind (mycpu s) (\<lambda>c s.
       let p = cpu_proc (cpus s ! c) in
     bind (popcli s) (\<lambda>_ s. Ok p s)))"

section \<open>States in which locks behave\<close>

definition cpu_ok :: "kstate \<Rightarrow> bool" where
  "cpu_ok s \<longleftrightarrow>
     (case this_cpu s of None \<Rightarrow> False
      | Some c \<Rightarrow> 0 \<le> ncli (cpus s ! c)
          \<and> (ncli (cpus s ! c) = 0 \<longrightarrow> intena (cpus s ! c) = iflag (cpus s ! c))
          \<and> (0 < ncli (cpus s ! c) \<longrightarrow> \<not> iflag (cpus s ! c)))"

text \<open>The processor after one more level of masking.\<close>

definition masked :: "kstate \<Rightarrow> kstate" where
  "masked s = (case this_cpu s of None \<Rightarrow> s
     | Some c \<Rightarrow> upd_cpu c (\<lambda>k. k\<lparr>iflag := False, ncli := ncli k + 1\<rparr>) s)"

text \<open>A free lock after the executing processor took it.\<close>

definition taken :: "lockid \<Rightarrow> kstate \<Rightarrow> kstate" where
  "taken lk s =
     (masked s)\<lparr>locks := (locks s)(lk := (locks s lk)\<lparr>locked := True, lk_cpu := this_cpu s\<rparr>)\<rparr>"

definition lock_free :: "lockid \<Rightarrow> kstate \<Rightarrow> bool" where
  "lock_free lk s \<longleftrightarrow> \<not> locked (locks s lk) \<and> lk_cpu (locks s lk) = None"

section \<open>Lemmas on the processor table\<close>

lemma this_cpu_cong: "lapic_id s' = lapic_id s \<Longrightarrow> cpus s' = cpus s \<Longrightarrow> this_cpu s' = this_cpu s"
  by (simp add: this_cpu_def)

lemma this_cpu_locks [simp]: "this_cpu (s\<lparr>locks := l\<rparr>) = this_cpu s"
  by (simp add: this_cpu_def)

lemma this_cpu_less: "this_cpu s = Some c \<Longrightarrow> c < length (cpus s)"
  by (auto simp: this_cpu_def dest: scan_SomeD)

lemma this_cpu_upd_cpu:
  assumes "apicid (f (cpus s ! c)) = apicid (cpus s ! c)"
  shows "this_cpu (upd_cpu c f s) = this_cpu s"
proof -
  have "apicid ((cpus s)[c := f (cpus s ! c)] ! i) = apicid (cpus s ! i)"
    if "i < length (cpus s)" for i
    using assms that by (cases "i = c") auto
  then show ?thesis
    unfolding this_cpu_def upd_cpu_def by (intro scan_cong_idx) auto
qed

lemma upd_cpu_simps [simp]:
  "locks (upd_cpu c f s) = locks s" "procs (upd_cpu c f s) = procs s"
  "lapic_id (upd_cpu c f s) = lapic_id s" "mem (upd_cpu c f s) = mem s"
  "length (cpus (upd_cpu c f s)) = length (cpus s)"
  by (simp_all add: upd_cpu_def)

lemma cpus_upd_cpu: "c < length (cpus s) \<Longrightarrow> cpus (upd_cpu c f s) ! c = f (cpus s ! c)"
  by (simp add: upd_cpu_def)

lemma upd_cpu_upd_cpu:
  "c < length (cpus s) \<Longrightarrow> upd_cpu c f (upd_cpu c g s) = upd_cpu c (\<lambda>k. f (g k)) s"
  by (simp add: upd_cpu_def)

lemma upd_cpu_id: "f (cpus s ! c) = cpus s ! c \<Longrightarrow> upd_cpu c f s = s"
  by (simp add: upd_cpu_def)

lemma cpu_okE:
  assumes "cpu_ok s"
  obtains c where "this_cpu s = Some c" "c < length (cpus s)" "0 \<le> ncli (cpus s ! c)"
    "ncli (cpus s ! c) = 0 \<longrightarrow> intena (cpus s ! c) = iflag (cpus s ! c)"
    "0 < ncli (cpus s ! c) \<longrightarrow> \<not> iflag (cpus s ! c)"
  using assms this_cpu_less by (auto simp: cpu_ok_def split: option.splits)

lemma cpu_ok_cong: "lapic_id s' = lapic_id s \<Longrightarrow> cpus s' = cpus s \<Longrightarrow> cpu_ok s' = cpu_ok s"
  by (simp add: cpu_ok_def this_cpu_cong [of s' s] split: option.splits)

lemma mycpu_eq: "this_cpu s = Some c \<Longrightarrow> \<not> iflag (cpus s ! c) \<Longrightarrow> mycpu s = Ok c s"
  by (simp add: mycpu_def readeflags_IF_def this_cpu_def)

section \<open>Masking and unmasking\<close>

lemma this_cpu_masked [simp]: "this_cpu (masked s) = this_cpu s"
  by (auto simp: masked_def this_cpu_upd_cpu split: option.splits)

lemma masked_simps [simp]:
  "locks (masked s) = locks s" "procs (masked s) = procs s" "lapic_id (masked s) = lapic_id s"
  by (simp_all add: masked_def split: option.splits)

lemma cpus_masked:
  "this_cpu s = Some c \<Longrightarrow>
   cpus (masked s) = (cpus s)[c := (cpus s ! c)\<lparr>iflag := False, ncli := ncli (cpus s ! c) + 1\<rparr>]"
  by (simp add: masked_def upd_cpu_def)

lemma cpu_ok_masked: "cpu_ok s \<Longrightarrow> cpu_ok (masked s)"
  by (erule cpu_okE) (simp add: cpu_ok_def cpus_masked)

lemma pushcli_ok: "cpu_ok s \<Longrightarrow> pushcli s = Ok () (masked s)"
proof (erule cpu_okE)
  fix c
  assume c: "this_cpu s = Some c" "c < length (cpus s)" "0 \<le> ncli (cpus s ! c)"
    "ncli (cpus s ! c) = 0 \<longrightarrow> intena (cpus s ! c) = iflag (cpus s ! c)"
  let ?s = "upd_cpu c (\<lambda>k. k\<lparr>iflag := False\<rparr>) s"
  have cli: "cli s = ?s" using c by (simp add: cli_def)
  have "this_cpu ?s = Some c" using c by (simp add: this_cpu_upd_cpu)
  then have "mycpu (cli s) = Ok c ?s"
    unfolding cli using c by (intro mycpu_eq) (simp_all add: cpus_upd_cpu)
  moreover have "upd_cpu c (\<lambda>k. k\<lparr>intena := readeflags_IF s\<rparr>) ?s = ?s"
    if "ncli (cpus s ! c) = 0"
    using c that by (intro upd_cpu_id) (simp add: cpus_upd_cpu readeflags_IF_def)
  ultimately show ?thesis
    using c by (simp add: pushcli_def Let_def masked_def cpus_upd_cpu upd_cpu_upd_cpu)
qed

lemma popcli_masked:
  assumes ok: "cpu_ok s" and "lapic_id s' = lapic_id s" "cpus s' = cpus (masked s)"
  shows "popcli s' = Ok () (s'\<lparr>cpus := cpus s\<rparr>)"
proof -
  from ok obtain c where c: "this_cpu s = Some c" "c < length (cpus s)" "0 \<le> ncli (cpus s ! c)"
    "ncli (cpus s ! c) = 0 \<longrightarrow> intena (cpus s ! c) = iflag (cpus s ! c)"
    "0 < ncli (cpus s ! c) \<longrightarrow> \<not> iflag (cpus s ! c)" by (rule cpu_okE)
  have t: "this_cpu s' = Some c" using assms c by (simp add: this_cpu_cong [of s' "masked s"])
  have cp: "cpus s' ! c = (cpus s ! c)\<lparr>iflag := False, ncli := ncli (cpus s ! c) + 1\<rparr>"
    using assms c by (simp add: cpus_masked)
  let ?t = "upd_cpu c (\<lambda>k. k\<lparr>ncli := ncli k - 1\<rparr>) s'"
  have m: "mycpu s' = Ok c s'" using t cp by (intro mycpu_eq) simp_all
  have cp2: "cpus ?t ! c = (cpus s ! c)\<lparr>iflag := False\<rparr>"
    using assms c cp by (simp add: cpus_upd_cpu cpus_masked)
  have t2: "this_cpu ?t = Some c" using t by (simp add: this_cpu_upd_cpu)
  have sti: "sti ?t = upd_cpu c (\<lambda>k. k\<lparr>iflag := True\<rparr>) ?t" using t2 by (simp add: sti_def)
  have e: "(cpus s)[c := (cpus s ! c)\<lparr>iflag := iflag (cpus s ! c)\<rparr>] = cpus s"
    by simp
  have e2: "(cpus s)[c := (cpus s ! c)\<lparr>ncli := ncli (cpus s ! c), iflag := iflag (cpus s ! c)\<rparr>] = cpus s"
    by simp
  show ?thesis
  proof (cases "ncli (cpus s ! c) = 0 \<and> intena (cpus s ! c)")
    case True
    then have "sti ?t = s'\<lparr>cpus := cpus s\<rparr>"
      unfolding sti using assms c e2 by (simp add: upd_cpu_def cpus_masked)
    with True m t cp2 show ?thesis
      by (simp add: popcli_def readeflags_IF_def cp Let_def)
  next
    case False
    then have nif: "\<not> iflag (cpus s ! c)" using c by force
    then have "?t = s'\<lparr>cpus := cpus s\<rparr>"
      using assms c e by (simp add: upd_cpu_def cpus_masked)
    with False nif m t cp2 c show ?thesis
      by (auto simp: popcli_def readeflags_IF_def cp Let_def)
  qed
qed

section \<open>Taking and giving back a lock\<close>

lemma taken_simps [simp]:
  "procs (taken lk s) = procs s" "lapic_id (taken lk s) = lapic_id s"
  "cpus (taken lk s) = cpus (masked s)"
  "locks (taken lk s) = (locks s)(lk := (locks s lk)\<lparr>locked := True, lk_cpu := this_cpu s\<rparr>)"
  "this_cpu (taken lk s) = this_cpu s"
  by (simp_all add: taken_def)

lemma cpu_ok_taken: "cpu_ok s \<Longrightarrow> cpu_ok (taken lk s)"
  using cpu_ok_masked [of s] cpu_ok_cong [of "taken lk s" "masked s"] by simp

lemma holding_ok [lock_simps]:
  assumes "cpu_ok s"
  shows "holding lk s = Ok (locked (locks s lk) \<and> lk_cpu (locks s lk) = this_cpu s) s"
proof -
  from assms obtain c where c: "this_cpu s = Some c" "c < length (cpus s)" by (rule cpu_okE)
  have "mycpu (masked s) = Ok c (masked s)"
    using c by (intro mycpu_eq) (simp_all add: cpus_masked)
  moreover have "popcli (masked s) = Ok () ((masked s)\<lparr>cpus := cpus s\<rparr>)"
    using assms by (intro popcli_masked) simp_all
  moreover have "(masked s)\<lparr>cpus := cpus s\<rparr> = s"
    using c by (simp add: masked_def upd_cpu_def)
  ultimately show ?thesis
    using assms c by (simp add: holding_def pushcli_ok)
qed

lemma acquire_ready [lock_simps]:
  assumes "cpu_ok s" "lock_free lk s"
  shows "acquire lk s = Ok () (taken lk s)"
proof -
  from assms(1) obtain c where c: "this_cpu s = Some c" "c < length (cpus s)" by (rule cpu_okE)
  let ?m = "(masked s)\<lparr>locks := (locks s)(lk := (locks s lk)\<lparr>locked := True\<rparr>)\<rparr>"
  have "mycpu ?m = Ok c ?m"
    using c by (intro mycpu_eq) (simp_all add: cpus_masked)
  with assms c show ?thesis
    by (simp add: acquire_def pushcli_ok holding_ok cpu_ok_masked lock_free_def taken_def)
qed

text \<open>A processor that tries to take a lock it already holds panics; it spins on another's lock.\<close>

lemma acquire_self_panics:
  assumes "cpu_ok s" "locked (locks s lk)" "lk_cpu (locks s lk) = this_cpu s"
  shows "acquire lk s = Panic ''acquire''"
  using assms by (simp add: acquire_def pushcli_ok holding_ok cpu_ok_masked)

lemma acquire_other_spins:
  assumes "cpu_ok s" "locked (locks s lk)" "lk_cpu (locks s lk) \<noteq> this_cpu s"
  shows "acquire lk s = Spin"
  using assms by (simp add: acquire_def pushcli_ok holding_ok cpu_ok_masked)

lemma release_not_held_panics:
  assumes "cpu_ok s" "\<not> (locked (locks s lk) \<and> lk_cpu (locks s lk) = this_cpu s)"
  shows "release lk s = Panic ''release''"
  using assms by (auto simp: release_def holding_ok)

text \<open>
  Giving a lock back restores the processor and the lock, whatever else the critical section
  changed: \<open>s\<close> is the state before the lock was taken, \<open>t\<close> the one at the end of the section.
\<close>

lemma release_held [lock_simps]:
  assumes "cpu_ok s" "lock_free lk s"
    and "lapic_id t = lapic_id s" "cpus t = cpus (masked s)"
    and "locks t lk = (locks s lk)\<lparr>locked := True, lk_cpu := this_cpu s\<rparr>"
  shows "release lk t = Ok () (t\<lparr>locks := (locks t)(lk := locks s lk), cpus := cpus s\<rparr>)"
proof -
  have t: "cpu_ok t" "this_cpu t = this_cpu s"
    using assms cpu_ok_masked [of s] cpu_ok_cong [of t "masked s"] this_cpu_cong [of t "masked s"]
    by simp_all
  let ?t = "t\<lparr>locks := (locks t)(lk := (locks t lk)\<lparr>lk_cpu := None, locked := False\<rparr>)\<rparr>"
  have "popcli ?t = Ok () (?t\<lparr>cpus := cpus s\<rparr>)"
    using assms by (intro popcli_masked) simp_all
  moreover have "(locks t lk)\<lparr>lk_cpu := None, locked := False\<rparr> = locks s lk"
    using assms(2,5) by (simp add: lock_free_def)
  ultimately show ?thesis
    using t assms(5) by (simp add: release_def holding_ok)
qed

lemma release_taken_id: "(taken lk s)\<lparr>locks := locks s, cpus := cpus s\<rparr> = s"
  by (simp add: taken_def masked_def upd_cpu_def split: option.splits)

lemma release_taken [lock_simps]:
  assumes "cpu_ok s" "lock_free lk s"
  shows "release lk (taken lk s) = Ok () s"
  using release_held [OF assms, of "taken lk s"] release_taken_id [of s lk] by simp

definition cur_proc :: "kstate \<Rightarrow> nat option" where
  "cur_proc s = (case this_cpu s of None \<Rightarrow> None | Some c \<Rightarrow> cpu_proc (cpus s ! c))"

lemma myproc_ok [lock_simps]:
  assumes "cpu_ok s"
  shows "myproc s = Ok (cur_proc s) s"
proof -
  from assms obtain c where c: "this_cpu s = Some c" "c < length (cpus s)" by (rule cpu_okE)
  have "mycpu (masked s) = Ok c (masked s)"
    using c by (intro mycpu_eq) (simp_all add: cpus_masked)
  moreover have "popcli (masked s) = Ok () ((masked s)\<lparr>cpus := cpus s\<rparr>)"
    using assms by (intro popcli_masked) simp_all
  moreover have "(masked s)\<lparr>cpus := cpus s\<rparr> = s"
    using c by (simp add: masked_def upd_cpu_def)
  ultimately show ?thesis
    using assms c by (simp add: myproc_def pushcli_ok cur_proc_def cpus_masked)
qed

section \<open>Changes that leave locks and processors alone\<close>

text \<open>
  Every variable but the processor table, the locks and the identity of the executing processor
  can be changed inside a critical section just as well as outside: the update moves under
  \<open>taken\<close>, so that \<open>release_taken\<close> ends the section.
\<close>

lemma taken_fields [simp]:
  "kend (taken lk s) = kend s" "kdata (taken lk s) = kdata s"
  "sym_trapret (taken lk s) = sym_trapret s" "sym_forkret (taken lk s) = sym_forkret s"
  "mem (taken lk s) = mem s" "km_freelist (taken lk s) = km_freelist s"
  "km_use_lock (taken lk s) = km_use_lock s" "initproc (taken lk s) = initproc s"
  "nextpid (taken lk s) = nextpid s" "current_scheduler (taken lk s) = current_scheduler s"
  "random_seed (taken lk s) = random_seed s" "ticks (taken lk s) = ticks s"
  "forkret_first (taken lk s) = forkret_first s" "kpgdir (taken lk s) = kpgdir s"
  "disk (taken lk s) = disk s" "disksize (taken lk s) = disksize s"
  "bufs (taken lk s) = bufs s" "b_next (taken lk s) = b_next s"
  "b_prev (taken lk s) = b_prev s" "ksb (taken lk s) = ksb s" "klog (taken lk s) = klog s"
  "inodes (taken lk s) = inodes s" "ftable (taken lk s) = ftable s"
  "pipes (taken lk s) = pipes s" "cons_locking (taken lk s) = cons_locking s"
  "cons_out (taken lk s) = cons_out s" "input (taken lk s) = input s"
  "uart (taken lk s) = uart s" "crt (taken lk s) = crt s" "crt_pos (taken lk s) = crt_pos s"
  "disk_trace (taken lk s) = disk_trace s"
  "idequeue (taken lk s) = idequeue s"
  "b_qnext (taken lk s) = b_qnext s"
  "havedisk1 (taken lk s) = havedisk1 s"
  "port_out (taken lk s) = port_out s"
  "kbd_shift (taken lk s) = kbd_shift s"
  by (simp_all add: taken_def masked_def upd_cpu_def split: option.splits)

lemma this_cpu_updates [simp]:
  "this_cpu (mem_update f0 s) = this_cpu s" "this_cpu (km_freelist_update f1 s) = this_cpu s"
  "this_cpu (km_use_lock_update f2 s) = this_cpu s" "this_cpu (procs_update f3 s) = this_cpu s"
  "this_cpu (initproc_update f4 s) = this_cpu s" "this_cpu (nextpid_update f5 s) = this_cpu s"
  "this_cpu (current_scheduler_update f6 s) = this_cpu s"
  "this_cpu (random_seed_update f7 s) = this_cpu s" "this_cpu (ticks_update f8 s) = this_cpu s"
  "this_cpu (forkret_first_update f9 s) = this_cpu s"
  "this_cpu (kpgdir_update f10 s) = this_cpu s" "this_cpu (disk_update f11 s) = this_cpu s"
  "this_cpu (disksize_update f12 s) = this_cpu s" "this_cpu (bufs_update f13 s) = this_cpu s"
  "this_cpu (b_next_update f14 s) = this_cpu s" "this_cpu (b_prev_update f15 s) = this_cpu s"
  "this_cpu (ksb_update f16 s) = this_cpu s" "this_cpu (klog_update f17 s) = this_cpu s"
  "this_cpu (inodes_update f18 s) = this_cpu s" "this_cpu (ftable_update f19 s) = this_cpu s"
  "this_cpu (pipes_update f20 s) = this_cpu s"
  "this_cpu (cons_locking_update f21 s) = this_cpu s"
  "this_cpu (cons_out_update f22 s) = this_cpu s" "this_cpu (input_update f23 s) = this_cpu s"
  "this_cpu (uart_update f24 s) = this_cpu s" "this_cpu (crt_update f25 s) = this_cpu s"
  "this_cpu (crt_pos_update f26 s) = this_cpu s" "this_cpu (disk_trace_update f27 s) = this_cpu s"
  "this_cpu (idequeue_update f28 s) = this_cpu s"
  "this_cpu (b_qnext_update f29 s) = this_cpu s"
  "this_cpu (havedisk1_update f30 s) = this_cpu s"
  "this_cpu (port_out_update f31 s) = this_cpu s"
  "this_cpu (kbd_shift_update f32 s) = this_cpu s"
  by (simp_all add: this_cpu_def)

lemma taken_updates [simp]:
  "mem_update f0 (taken lk s) = taken lk (mem_update f0 s)"
  "km_freelist_update f1 (taken lk s) = taken lk (km_freelist_update f1 s)"
  "km_use_lock_update f2 (taken lk s) = taken lk (km_use_lock_update f2 s)"
  "procs_update f3 (taken lk s) = taken lk (procs_update f3 s)"
  "initproc_update f4 (taken lk s) = taken lk (initproc_update f4 s)"
  "nextpid_update f5 (taken lk s) = taken lk (nextpid_update f5 s)"
  "current_scheduler_update f6 (taken lk s) = taken lk (current_scheduler_update f6 s)"
  "random_seed_update f7 (taken lk s) = taken lk (random_seed_update f7 s)"
  "ticks_update f8 (taken lk s) = taken lk (ticks_update f8 s)"
  "forkret_first_update f9 (taken lk s) = taken lk (forkret_first_update f9 s)"
  "kpgdir_update f10 (taken lk s) = taken lk (kpgdir_update f10 s)"
  "disk_update f11 (taken lk s) = taken lk (disk_update f11 s)"
  "disksize_update f12 (taken lk s) = taken lk (disksize_update f12 s)"
  "bufs_update f13 (taken lk s) = taken lk (bufs_update f13 s)"
  "b_next_update f14 (taken lk s) = taken lk (b_next_update f14 s)"
  "b_prev_update f15 (taken lk s) = taken lk (b_prev_update f15 s)"
  "ksb_update f16 (taken lk s) = taken lk (ksb_update f16 s)"
  "klog_update f17 (taken lk s) = taken lk (klog_update f17 s)"
  "inodes_update f18 (taken lk s) = taken lk (inodes_update f18 s)"
  "ftable_update f19 (taken lk s) = taken lk (ftable_update f19 s)"
  "pipes_update f20 (taken lk s) = taken lk (pipes_update f20 s)"
  "cons_locking_update f21 (taken lk s) = taken lk (cons_locking_update f21 s)"
  "cons_out_update f22 (taken lk s) = taken lk (cons_out_update f22 s)"
  "input_update f23 (taken lk s) = taken lk (input_update f23 s)"
  "uart_update f24 (taken lk s) = taken lk (uart_update f24 s)"
  "crt_update f25 (taken lk s) = taken lk (crt_update f25 s)"
  "crt_pos_update f26 (taken lk s) = taken lk (crt_pos_update f26 s)"
  "disk_trace_update f27 (taken lk s) = taken lk (disk_trace_update f27 s)"
  "idequeue_update f28 (taken lk s) = taken lk (idequeue_update f28 s)"
  "b_qnext_update f29 (taken lk s) = taken lk (b_qnext_update f29 s)"
  "havedisk1_update f30 (taken lk s) = taken lk (havedisk1_update f30 s)"
  "port_out_update f31 (taken lk s) = taken lk (port_out_update f31 s)"
  "kbd_shift_update f32 (taken lk s) = taken lk (kbd_shift_update f32 s)"
  by (cases "this_cpu s"; simp add: taken_def masked_def upd_cpu_def)+

lemma cpu_ok_updates [simp]:
  "cpu_ok (mem_update f0 s) = cpu_ok s" "cpu_ok (km_freelist_update f1 s) = cpu_ok s"
  "cpu_ok (km_use_lock_update f2 s) = cpu_ok s" "cpu_ok (procs_update f3 s) = cpu_ok s"
  "cpu_ok (initproc_update f4 s) = cpu_ok s" "cpu_ok (nextpid_update f5 s) = cpu_ok s"
  "cpu_ok (current_scheduler_update f6 s) = cpu_ok s"
  "cpu_ok (random_seed_update f7 s) = cpu_ok s" "cpu_ok (ticks_update f8 s) = cpu_ok s"
  "cpu_ok (forkret_first_update f9 s) = cpu_ok s" "cpu_ok (kpgdir_update f10 s) = cpu_ok s"
  "cpu_ok (disk_update f11 s) = cpu_ok s" "cpu_ok (disksize_update f12 s) = cpu_ok s"
  "cpu_ok (bufs_update f13 s) = cpu_ok s" "cpu_ok (b_next_update f14 s) = cpu_ok s"
  "cpu_ok (b_prev_update f15 s) = cpu_ok s" "cpu_ok (ksb_update f16 s) = cpu_ok s"
  "cpu_ok (klog_update f17 s) = cpu_ok s" "cpu_ok (inodes_update f18 s) = cpu_ok s"
  "cpu_ok (ftable_update f19 s) = cpu_ok s" "cpu_ok (pipes_update f20 s) = cpu_ok s"
  "cpu_ok (cons_locking_update f21 s) = cpu_ok s" "cpu_ok (cons_out_update f22 s) = cpu_ok s"
  "cpu_ok (input_update f23 s) = cpu_ok s" "cpu_ok (uart_update f24 s) = cpu_ok s"
  "cpu_ok (crt_update f25 s) = cpu_ok s" "cpu_ok (crt_pos_update f26 s) = cpu_ok s"
  "cpu_ok (disk_trace_update f27 s) = cpu_ok s"
  "cpu_ok (idequeue_update f28 s) = cpu_ok s"
  "cpu_ok (b_qnext_update f29 s) = cpu_ok s"
  "cpu_ok (havedisk1_update f30 s) = cpu_ok s"
  "cpu_ok (port_out_update f31 s) = cpu_ok s"
  "cpu_ok (kbd_shift_update f32 s) = cpu_ok s"
  by (cases "this_cpu s"; simp add: cpu_ok_def)+

lemma lock_free_updates [simp]:
  "lock_free lk (mem_update f0 s) = lock_free lk s"
  "lock_free lk (km_freelist_update f1 s) = lock_free lk s"
  "lock_free lk (km_use_lock_update f2 s) = lock_free lk s"
  "lock_free lk (procs_update f3 s) = lock_free lk s"
  "lock_free lk (initproc_update f4 s) = lock_free lk s"
  "lock_free lk (nextpid_update f5 s) = lock_free lk s"
  "lock_free lk (current_scheduler_update f6 s) = lock_free lk s"
  "lock_free lk (random_seed_update f7 s) = lock_free lk s"
  "lock_free lk (ticks_update f8 s) = lock_free lk s"
  "lock_free lk (forkret_first_update f9 s) = lock_free lk s"
  "lock_free lk (kpgdir_update f10 s) = lock_free lk s"
  "lock_free lk (disk_update f11 s) = lock_free lk s"
  "lock_free lk (disksize_update f12 s) = lock_free lk s"
  "lock_free lk (bufs_update f13 s) = lock_free lk s"
  "lock_free lk (b_next_update f14 s) = lock_free lk s"
  "lock_free lk (b_prev_update f15 s) = lock_free lk s"
  "lock_free lk (ksb_update f16 s) = lock_free lk s"
  "lock_free lk (klog_update f17 s) = lock_free lk s"
  "lock_free lk (inodes_update f18 s) = lock_free lk s"
  "lock_free lk (ftable_update f19 s) = lock_free lk s"
  "lock_free lk (pipes_update f20 s) = lock_free lk s"
  "lock_free lk (cons_locking_update f21 s) = lock_free lk s"
  "lock_free lk (cons_out_update f22 s) = lock_free lk s"
  "lock_free lk (input_update f23 s) = lock_free lk s"
  "lock_free lk (uart_update f24 s) = lock_free lk s"
  "lock_free lk (crt_update f25 s) = lock_free lk s"
  "lock_free lk (crt_pos_update f26 s) = lock_free lk s"
  "lock_free lk (disk_trace_update f27 s) = lock_free lk s"
  "lock_free lk (idequeue_update f28 s) = lock_free lk s"
  "lock_free lk (b_qnext_update f29 s) = lock_free lk s"
  "lock_free lk (havedisk1_update f30 s) = lock_free lk s"
  "lock_free lk (port_out_update f31 s) = lock_free lk s"
  "lock_free lk (kbd_shift_update f32 s) = lock_free lk s"
  by (simp_all add: lock_free_def)

lemma cur_proc_updates [simp]:
  "cur_proc (mem_update f0 s) = cur_proc s" "cur_proc (km_freelist_update f1 s) = cur_proc s"
  "cur_proc (km_use_lock_update f2 s) = cur_proc s" "cur_proc (procs_update f3 s) = cur_proc s"
  "cur_proc (initproc_update f4 s) = cur_proc s" "cur_proc (nextpid_update f5 s) = cur_proc s"
  "cur_proc (current_scheduler_update f6 s) = cur_proc s"
  "cur_proc (random_seed_update f7 s) = cur_proc s" "cur_proc (ticks_update f8 s) = cur_proc s"
  "cur_proc (forkret_first_update f9 s) = cur_proc s"
  "cur_proc (kpgdir_update f10 s) = cur_proc s" "cur_proc (disk_update f11 s) = cur_proc s"
  "cur_proc (disksize_update f12 s) = cur_proc s" "cur_proc (bufs_update f13 s) = cur_proc s"
  "cur_proc (b_next_update f14 s) = cur_proc s" "cur_proc (b_prev_update f15 s) = cur_proc s"
  "cur_proc (ksb_update f16 s) = cur_proc s" "cur_proc (klog_update f17 s) = cur_proc s"
  "cur_proc (inodes_update f18 s) = cur_proc s" "cur_proc (ftable_update f19 s) = cur_proc s"
  "cur_proc (pipes_update f20 s) = cur_proc s"
  "cur_proc (cons_locking_update f21 s) = cur_proc s"
  "cur_proc (cons_out_update f22 s) = cur_proc s" "cur_proc (input_update f23 s) = cur_proc s"
  "cur_proc (uart_update f24 s) = cur_proc s" "cur_proc (crt_update f25 s) = cur_proc s"
  "cur_proc (crt_pos_update f26 s) = cur_proc s"
  "cur_proc (disk_trace_update f27 s) = cur_proc s"
  "cur_proc (idequeue_update f28 s) = cur_proc s"
  "cur_proc (b_qnext_update f29 s) = cur_proc s"
  "cur_proc (havedisk1_update f30 s) = cur_proc s"
  "cur_proc (port_out_update f31 s) = cur_proc s"
  "cur_proc (kbd_shift_update f32 s) = cur_proc s"
  by (cases "this_cpu s"; simp add: cur_proc_def)+

lemma cpu_ok_taken_iff [simp]: "cpu_ok s \<Longrightarrow> cpu_ok (taken lk s)"
  by (rule cpu_ok_taken)

lemma lock_free_taken [simp]: "lock_free l (taken lk s) \<longleftrightarrow> l \<noteq> lk \<and> lock_free l s"
  by (auto simp: lock_free_def)

lemma cur_proc_taken [simp]: "cur_proc (taken lk s) = cur_proc s"
  by (auto simp: cur_proc_def cpus_masked nth_list_update split: option.splits dest: this_cpu_less)

text \<open>The executing processor holds no lock and every lock is free.\<close>

definition quiet :: "kstate \<Rightarrow> bool" where
  "quiet s \<longleftrightarrow> cpu_ok s \<and> (\<forall>lk. lock_free lk s)"

lemma quietD [simp, intro]: "quiet s \<Longrightarrow> cpu_ok s" "quiet s \<Longrightarrow> lock_free lk s"
  by (simp_all add: quiet_def)

lemma quiet_updates [simp]:
  "quiet (mem_update f0 s) = quiet s" "quiet (km_freelist_update f1 s) = quiet s"
  "quiet (km_use_lock_update f2 s) = quiet s" "quiet (procs_update f3 s) = quiet s"
  "quiet (initproc_update f4 s) = quiet s" "quiet (nextpid_update f5 s) = quiet s"
  "quiet (current_scheduler_update f6 s) = quiet s" "quiet (random_seed_update f7 s) = quiet s"
  "quiet (ticks_update f8 s) = quiet s" "quiet (forkret_first_update f9 s) = quiet s"
  "quiet (kpgdir_update f10 s) = quiet s" "quiet (disk_update f11 s) = quiet s"
  "quiet (disksize_update f12 s) = quiet s" "quiet (bufs_update f13 s) = quiet s"
  "quiet (b_next_update f14 s) = quiet s" "quiet (b_prev_update f15 s) = quiet s"
  "quiet (ksb_update f16 s) = quiet s" "quiet (klog_update f17 s) = quiet s"
  "quiet (inodes_update f18 s) = quiet s" "quiet (ftable_update f19 s) = quiet s"
  "quiet (pipes_update f20 s) = quiet s" "quiet (cons_locking_update f21 s) = quiet s"
  "quiet (cons_out_update f22 s) = quiet s" "quiet (input_update f23 s) = quiet s"
  "quiet (uart_update f24 s) = quiet s" "quiet (crt_update f25 s) = quiet s"
  "quiet (crt_pos_update f26 s) = quiet s" "quiet (disk_trace_update f27 s) = quiet s"
  "quiet (idequeue_update f28 s) = quiet s"
  "quiet (b_qnext_update f29 s) = quiet s"
  "quiet (havedisk1_update f30 s) = quiet s"
  "quiet (port_out_update f31 s) = quiet s"
  "quiet (kbd_shift_update f32 s) = quiet s"
  unfolding quiet_def by simp_all

section \<open>Mutual exclusion between processors\<close>

text \<open>
  Processors take and give back locks in any order. \<open>on_cpu c s\<close> is the machine with processor
  \<open>c\<close> executing. The second component of the state records which processor is between an
  \<open>acquire\<close> and the matching \<open>release\<close> of which lock.
\<close>

definition on_cpu :: "nat \<Rightarrow> kstate \<Rightarrow> kstate" where
  "on_cpu c s = s\<lparr>lapic_id := apicid (cpus s ! c)\<rparr>"

type_synonym sections = "(nat \<times> lockid) set"

inductive lock_step :: "kstate \<times> sections \<Rightarrow> kstate \<times> sections \<Rightarrow> bool" where
  enter: "c < length (cpus s) \<Longrightarrow> acquire lk (on_cpu c s) = Ok () t \<Longrightarrow>
     lock_step (s, I) (t, insert (c, lk) I)"
| leave: "c < length (cpus s) \<Longrightarrow> release lk (on_cpu c s) = Ok () t \<Longrightarrow>
     lock_step (s, I) (t, I - {(c, lk)})"

text \<open>Boot: every lock free, no interrupts masked, every processor with an identity of its own.\<close>

definition lock_init :: "kstate \<Rightarrow> bool" where
  "lock_init s \<longleftrightarrow> distinct (map apicid (cpus s)) \<and> (\<forall>lk. lock_free lk s)
     \<and> (\<forall>k \<in> set (cpus s). ncli k = 0 \<and> intena k = iflag k)"

inductive lock_reach :: "kstate \<times> sections \<Rightarrow> bool" where
  boot: "lock_init s \<Longrightarrow> lock_reach (s, {})"
| step: "lock_reach x \<Longrightarrow> lock_step x y \<Longrightarrow> lock_reach y"

definition cpu_depth_ok :: "cpu \<Rightarrow> lockid set \<Rightarrow> bool" where
  "cpu_depth_ok k H \<longleftrightarrow> finite H \<and> ncli k = int (card H)
     \<and> (H = {} \<longrightarrow> intena k = iflag k) \<and> (H \<noteq> {} \<longrightarrow> \<not> iflag k)"

definition lock_inv :: "kstate \<times> sections \<Rightarrow> bool" where
  "lock_inv x \<longleftrightarrow> (case x of (s, I) \<Rightarrow>
     distinct (map apicid (cpus s))
     \<and> (\<forall>lk. locked (locks s lk) \<longleftrightarrow> lk_cpu (locks s lk) \<noteq> None)
     \<and> (\<forall>c lk. (c, lk) \<in> I \<longleftrightarrow> lk_cpu (locks s lk) = Some c)
     \<and> (\<forall>c lk. (c, lk) \<in> I \<longrightarrow> c < length (cpus s))
     \<and> (\<forall>c < length (cpus s). cpu_depth_ok (cpus s ! c) {lk. (c, lk) \<in> I}))"

lemma lock_invD:
  assumes "lock_inv (s, I)"
  shows "distinct (map apicid (cpus s))"
    and "locked (locks s lk) \<longleftrightarrow> lk_cpu (locks s lk) \<noteq> None"
    and "(c, lk) \<in> I \<longleftrightarrow> lk_cpu (locks s lk) = Some c"
    and "(c, lk) \<in> I \<Longrightarrow> c < length (cpus s)"
    and "c < length (cpus s) \<Longrightarrow> cpu_depth_ok (cpus s ! c) {lk. (c, lk) \<in> I}"
  using assms unfolding lock_inv_def prod.case by blast+

lemma lock_invI:
  assumes "distinct (map apicid (cpus s))"
    and "\<And>lk. locked (locks s lk) \<longleftrightarrow> lk_cpu (locks s lk) \<noteq> None"
    and "\<And>c lk. (c, lk) \<in> I \<longleftrightarrow> lk_cpu (locks s lk) = Some c"
    and "\<And>c lk. (c, lk) \<in> I \<Longrightarrow> c < length (cpus s)"
    and "\<And>c. c < length (cpus s) \<Longrightarrow> cpu_depth_ok (cpus s ! c) {lk. (c, lk) \<in> I}"
  shows "lock_inv (s, I)"
  using assms unfolding lock_inv_def prod.case by blast

lemma this_cpu_on_cpu:
  assumes "distinct (map apicid (cpus s))" "c < length (cpus s)"
  shows "this_cpu (on_cpu c s) = Some c"
  unfolding this_cpu_def on_cpu_def
  using assms by (auto simp: distinct_conv_nth intro!: scan_SomeI)

lemma cpu_ok_on_cpu:
  assumes "lock_inv (s, I)" "c < length (cpus s)"
  shows "cpu_ok (on_cpu c s)" "this_cpu (on_cpu c s) = Some c"
proof -
  show t: "this_cpu (on_cpu c s) = Some c"
    using assms by (intro this_cpu_on_cpu) (auto simp: lock_inv_def)
  have "cpu_depth_ok (cpus s ! c) {lk. (c, lk) \<in> I}"
    using assms by (auto simp: lock_inv_def)
  moreover have "cpus (on_cpu c s) = cpus s" by (simp add: on_cpu_def)
  ultimately show "cpu_ok (on_cpu c s)"
    by (auto simp: cpu_ok_def t cpu_depth_ok_def)
qed

lemma enter_eq:
  assumes inv: "lock_inv (s, I)" and c: "c < length (cpus s)"
    and acq: "acquire lk (on_cpu c s) = Ok () t"
  shows "lk_cpu (locks s lk) = None" "t = taken lk (on_cpu c s)"
proof -
  let ?s = "on_cpu c s"
  note ok = cpu_ok_on_cpu [OF inv c]
  have l: "locks ?s = locks s" by (simp add: on_cpu_def)
  have "\<not> locked (locks s lk)"
    using acq acquire_self_panics [OF ok(1), of lk] acquire_other_spins [OF ok(1), of lk] l
    by (cases "lk_cpu (locks s lk) = Some c") (auto simp: ok)
  then show n: "lk_cpu (locks s lk) = None" using inv by (auto simp: lock_inv_def)
  then have "lock_free lk ?s" using l inv by (auto simp: lock_free_def lock_inv_def)
  with acq show "t = taken lk ?s" using acquire_ready [OF ok(1)] by simp
qed

lemma popcli_deep:
  assumes "this_cpu s = Some c" "0 < ncli (cpus s ! c)" "\<not> iflag (cpus s ! c)"
  shows "popcli s = Ok () (upd_cpu c (\<lambda>k. k\<lparr>ncli := ncli k - 1,
           iflag := (ncli k = 1 \<and> intena k)\<rparr>) s)"
proof -
  have c: "c < length (cpus s)" using assms this_cpu_less by blast
  let ?t = "upd_cpu c (\<lambda>k. k\<lparr>ncli := ncli k - 1\<rparr>) s"
  have t: "this_cpu ?t = Some c" using assms by (simp add: this_cpu_upd_cpu)
  have cp: "cpus ?t ! c = (cpus s ! c)\<lparr>ncli := ncli (cpus s ! c) - 1\<rparr>"
    using c by (simp add: cpus_upd_cpu)
  have "sti ?t = upd_cpu c (\<lambda>k. k\<lparr>ncli := ncli k - 1, iflag := True\<rparr>) s"
    using t c by (simp add: sti_def upd_cpu_upd_cpu)
  moreover have nf: "(cpus s ! c)\<lparr>ncli := n, iflag := False\<rparr> = (cpus s ! c)\<lparr>ncli := n\<rparr>" for n
    using assms by (intro cpu.equality) simp_all
  ultimately show ?thesis
    using assms c mycpu_eq [of s c] cp
    by (auto simp: popcli_def readeflags_IF_def Let_def upd_cpu_def nf)
qed

lemma leave_eq:
  assumes inv: "lock_inv (s, I)" and c: "c < length (cpus s)"
    and rel: "release lk (on_cpu c s) = Ok () t"
  shows "lk_cpu (locks s lk) = Some c" "(c, lk) \<in> I"
    "t = (upd_cpu c (\<lambda>k. k\<lparr>ncli := ncli k - 1, iflag := (ncli k = 1 \<and> intena k)\<rparr>) (on_cpu c s))
       \<lparr>locks := (locks s)(lk := (locks s lk)\<lparr>lk_cpu := None, locked := False\<rparr>)\<rparr>"
proof -
  let ?s = "on_cpu c s"
  note ok = cpu_ok_on_cpu [OF inv c]
  have l: "locks ?s = locks s" "cpus ?s = cpus s" by (simp_all add: on_cpu_def)
  show h: "lk_cpu (locks s lk) = Some c"
    using rel release_not_held_panics [OF ok(1), of lk] l by (auto simp: ok)
  then show i: "(c, lk) \<in> I" using inv by (auto simp: lock_inv_def)
  have d: "cpu_depth_ok (cpus s ! c) {lk. (c, lk) \<in> I}" "locked (locks s lk)"
    using inv c h by (auto simp: lock_inv_def)
  let ?t = "?s\<lparr>locks := (locks s)(lk := (locks s lk)\<lparr>lk_cpu := None, locked := False\<rparr>)\<rparr>"
  have "0 < ncli (cpus s ! c)" "\<not> iflag (cpus s ! c)"
    using d i by (auto simp: cpu_depth_ok_def card_gt_0_iff)
  then have "popcli ?t = Ok () (upd_cpu c (\<lambda>k. k\<lparr>ncli := ncli k - 1,
       iflag := (ncli k = 1 \<and> intena k)\<rparr>) ?t)"
    using ok l by (intro popcli_deep) simp_all
  moreover have "release lk ?s = popcli ?t"
    using h d ok l by (simp add: release_def holding_ok)
  ultimately have "t = upd_cpu c (\<lambda>k. k\<lparr>ncli := ncli k - 1,
       iflag := (ncli k = 1 \<and> intena k)\<rparr>) ?t"
    using rel by simp
  then show "t = (upd_cpu c (\<lambda>k. k\<lparr>ncli := ncli k - 1, iflag := (ncli k = 1 \<and> intena k)\<rparr>)
       (on_cpu c s))\<lparr>locks := (locks s)(lk := (locks s lk)\<lparr>lk_cpu := None, locked := False\<rparr>)\<rparr>"
    by (simp add: upd_cpu_def)
qed

lemma lock_inv_boot: "lock_init s \<Longrightarrow> lock_inv (s, {})"
  by (simp add: lock_init_def lock_inv_def lock_free_def cpu_depth_ok_def)

lemma lock_inv_enter:
  assumes inv: "lock_inv (s, I)" and c: "c < length (cpus s)"
    and acq: "acquire lk (on_cpu c s) = Ok () t"
  shows "lock_inv (t, insert (c, lk) I)"
proof -
  note e = enter_eq [OF assms] and ok = cpu_ok_on_cpu [OF inv c]
  have l: "locks (on_cpu c s) = locks s" "cpus (on_cpu c s) = cpus s" by (simp_all add: on_cpu_def)
  have cp: "cpus t = (cpus s)[c := (cpus s ! c)\<lparr>iflag := False, ncli := ncli (cpus s ! c) + 1\<rparr>]"
    using e(2) ok l by (simp add: cpus_masked)
  have lt: "locks t = (locks s)(lk := (locks s lk)\<lparr>locked := True, lk_cpu := Some c\<rparr>)"
    using e(2) ok l by simp
  have new: "(d, lk) \<notin> I" for d using e(1) inv by (auto simp: lock_inv_def)
  have I: "(d, m) \<in> I \<longleftrightarrow> lk_cpu (locks s m) = Some d" for d m
    using inv by (auto simp: lock_inv_def)
  have dep: "cpu_depth_ok (cpus s ! d) {m. (d, m) \<in> I}" if "d < length (cpus s)" for d
    using inv that by (auto simp: lock_inv_def)
  have "cpu_depth_ok (cpus t ! d) {m. (d, m) \<in> insert (c, lk) I}" if "d < length (cpus s)" for d
  proof (cases "d = c")
    case True
    have "{m. (c, m) \<in> insert (c, lk) I} = insert lk {m. (c, m) \<in> I}" by auto
    with True that dep [OF that] new cp show ?thesis by (auto simp: cpu_depth_ok_def)
  next
    case False
    with that dep [OF that] cp show ?thesis by simp
  qed
  moreover have "map apicid (cpus t) = map apicid (cpus s)"
    using c cp by (intro nth_equalityI) (auto simp: nth_list_update)
  moreover have "locked (locks t m) \<longleftrightarrow> lk_cpu (locks t m) \<noteq> None" for m
    using inv lt by (simp add: lock_inv_def)
  moreover have "(d, m) \<in> insert (c, lk) I \<longleftrightarrow> lk_cpu (locks t m) = Some d" for d m
    using lt new I by (cases "m = lk") auto
  moreover have "d < length (cpus t)" if "(d, m) \<in> insert (c, lk) I" for d m
    using that c cp lock_invD(4) [OF inv] by auto
  moreover have "distinct (map apicid (cpus s))" using lock_invD(1) [OF inv] .
  moreover have "length (cpus t) = length (cpus s)" using cp by simp
  ultimately show ?thesis
    by (intro lock_invI) (simp, simp, blast, blast, simp)
qed

lemma lock_inv_leave:
  assumes inv: "lock_inv (s, I)" and c: "c < length (cpus s)"
    and rel: "release lk (on_cpu c s) = Ok () t"
  shows "lock_inv (t, I - {(c, lk)})"
proof -
  note e = leave_eq [OF assms]
  have cp: "cpus t = (cpus s)[c := (cpus s ! c)\<lparr>ncli := ncli (cpus s ! c) - 1,
       iflag := (ncli (cpus s ! c) = 1 \<and> intena (cpus s ! c))\<rparr>]"
    and lt: "locks t = (locks s)(lk := (locks s lk)\<lparr>lk_cpu := None, locked := False\<rparr>)"
    using e(3) by (simp_all add: upd_cpu_def on_cpu_def)
  have I: "(d, m) \<in> I \<longleftrightarrow> lk_cpu (locks s m) = Some d" for d m
    using inv by (auto simp: lock_inv_def)
  have dep: "cpu_depth_ok (cpus s ! d) {m. (d, m) \<in> I}" if "d < length (cpus s)" for d
    using inv that by (auto simp: lock_inv_def)
  have "cpu_depth_ok (cpus t ! d) {m. (d, m) \<in> I - {(c, lk)}}" if "d < length (cpus s)" for d
  proof (cases "d = c")
    case True
    let ?H = "{m. (c, m) \<in> I}"
    have H: "{m. (c, m) \<in> I - {(c, lk)}} = ?H - {lk}" by auto
    have lk: "lk \<in> ?H" "finite ?H" "ncli (cpus s ! c) = int (card ?H)"
      using e(2) dep [OF c] by (auto simp: cpu_depth_ok_def)
    have n: "ncli (cpus s ! c) = 1 + int (card (?H - {lk}))"
      using lk(3) by (simp only: card.remove [OF lk(2,1)] of_nat_Suc)
    have "?H - {lk} = {} \<longleftrightarrow> card (?H - {lk}) = 0" using lk(2) by simp
    with n lk(2) c have "cpu_depth_ok (cpus t ! c) (?H - {lk})"
      unfolding cp cpu_depth_ok_def by (simp del: card_Diff_insert card_Diff_singleton Diff_eq_empty_iff)
    with True H show ?thesis by simp
  next
    case False
    with that dep [OF that] cp show ?thesis by simp
  qed
  moreover have "map apicid (cpus t) = map apicid (cpus s)"
    using c cp by (intro nth_equalityI) (auto simp: nth_list_update)
  moreover have "locked (locks t m) \<longleftrightarrow> lk_cpu (locks t m) \<noteq> None" for m
    using inv lt by (simp add: lock_inv_def)
  moreover have "(d, m) \<in> I - {(c, lk)} \<longleftrightarrow> lk_cpu (locks t m) = Some d" for d m
    using lt I e(1) by (cases "m = lk") auto
  moreover have "d < length (cpus t)" if "(d, m) \<in> I - {(c, lk)}" for d m
    using that cp lock_invD(4) [OF inv] by auto
  moreover have "distinct (map apicid (cpus s))" using lock_invD(1) [OF inv] .
  moreover have "length (cpus t) = length (cpus s)" using cp by simp
  ultimately show ?thesis
    by (intro lock_invI) (simp, simp, blast, blast, simp)
qed

lemma lock_inv_step: "lock_step x y \<Longrightarrow> lock_inv x \<Longrightarrow> lock_inv y"
  by (induction rule: lock_step.induct) (auto intro: lock_inv_enter lock_inv_leave)

lemma lock_reach_inv: "lock_reach x \<Longrightarrow> lock_inv x"
  by (induction rule: lock_reach.induct) (auto intro: lock_inv_boot lock_inv_step)

lemma lock_reach_depth:
  assumes "lock_reach (s, I)" "(c, lk) \<in> I"
  shows "c < length (cpus s)" "\<not> iflag (cpus s ! c)" "ncli (cpus s ! c) = int (card {m. (c, m) \<in> I})"
proof -
  have inv: "lock_inv (s, I)" using assms by (intro lock_reach_inv)
  then show c: "c < length (cpus s)" using assms lock_invD(4) by blast
  have "cpu_depth_ok (cpus s ! c) {m. (c, m) \<in> I}" using lock_invD(5) [OF inv c] .
  with assms show "\<not> iflag (cpus s ! c)" "ncli (cpus s ! c) = int (card {m. (c, m) \<in> I})"
    by (auto simp: cpu_depth_ok_def)
qed

text \<open>
  C1. Spin locks exclude: in every state the processors can reach by taking and giving back locks,
  at most one processor is inside the critical section of a lock; that processor runs with
  interrupts off and has masked them once per lock it holds.
\<close>

theorem spin_mutual_exclusion:
  assumes "lock_reach (s, I)" and "(c, lk) \<in> I" and "(d, lk) \<in> I"
  shows "c = d \<and> lk_cpu (locks s lk) = Some c \<and> \<not> iflag (cpus s ! c)
     \<and> ncli (cpus s ! c) = int (card {m. (c, m) \<in> I})"
proof -
  have "lock_inv (s, I)" using assms by (intro lock_reach_inv)
  then have "lk_cpu (locks s lk) = Some c" "lk_cpu (locks s lk) = Some d"
    using assms by (auto simp: lock_inv_def)
  with lock_reach_depth [OF assms(1,2)] show ?thesis by simp
qed

definition two_cpus :: kstate where
  "two_cpus = kstate0 [0, 1] (\<lambda>_. [])"

lemma two_cpus_enter: "lock_step (two_cpus, {}) (taken PtableLock (on_cpu 1 two_cpus), {(1, PtableLock)})"
proof (rule lock_step.enter)
  show "1 < length (cpus two_cpus)" by (simp add: two_cpus_def kstate0_def)
  show "acquire PtableLock (on_cpu 1 two_cpus) = Ok () (taken PtableLock (on_cpu 1 two_cpus))"
    by (rule acquire_ready)
      (simp_all add: two_cpus_def kstate0_def cpu_ok_def on_cpu_def this_cpu_def cpu0_def
        lock_free_def spinlock0_def)
qed

theorem spin_mutual_exclusion_witness:
  "lk_cpu (locks (taken PtableLock (on_cpu 1 two_cpus)) PtableLock) = Some 1"
proof -
  have "lock_init two_cpus"
    by (simp add: lock_init_def two_cpus_def kstate0_def cpu0_def lock_free_def spinlock0_def)
  then have "lock_reach (taken PtableLock (on_cpu 1 two_cpus), {(1, PtableLock)})"
    using two_cpus_enter lock_reach.intros by blast
  from spin_mutual_exclusion [OF this, of 1 PtableLock 1] show ?thesis by simp
qed

end
