(* ===== verification/Kalloc.thy ===== *)
theory Kalloc
  imports CString Spinlock
begin

text \<open>
  The physical page allocator (\<open>kalloc.c\<close>). The free list is kept as the code keeps it: a free
  page's first four bytes hold the address of the next free page. \<open>chain\<close> reads that list off
  memory, \<open>km_inv\<close> says that the list holds distinct pages of the allocatable range, and the
  locale \<open>page_allocator\<close> states what the rest of the kernel relies on: pages that are in use are
  never handed out again, and none is lost.
\<close>

section \<open>The allocator\<close>

definition V2P :: "u32 \<Rightarrow> u32" where
  "V2P a = a - KERNBASE"

definition P2V :: "u32 \<Rightarrow> u32" where
  "P2V a = a + KERNBASE"

definition PGROUNDUP :: "u32 \<Rightarrow> u32" where
  "PGROUNDUP sz = (sz + PGSIZE - 1) AND NOT (PGSIZE - 1)"

definition PGROUNDDOWN :: "u32 \<Rightarrow> u32" where
  "PGROUNDDOWN a = a AND NOT (PGSIZE - 1)"

definition kfree :: "u32 \<Rightarrow> kstate \<Rightarrow> (kstate, unit) res" where
  "kfree v s =
     (if v mod PGSIZE \<noteq> 0 \<or> v < kend s \<or> V2P v \<ge> PHYSTOP then Panic ''kfree''
      else
        let s = s\<lparr>mem := memset (mem s) v 1 PGSIZE\<rparr> in
        bind (if km_use_lock s then acquire KmemLock s else Ok () s) (\<lambda>_ s.
          let s = s\<lparr>mem := write32 (mem s) v (km_freelist s)\<rparr>;
              s = s\<lparr>km_freelist := v\<rparr>
          in if km_use_lock s then release KmemLock s else Ok () s))"

definition kalloc :: "kstate \<Rightarrow> (kstate, u32) res" where
  "kalloc s =
     bind (if km_use_lock s then acquire KmemLock s else Ok () s) (\<lambda>_ s.
       let r = km_freelist s;
           s = (if r \<noteq> 0 then s\<lparr>km_freelist := read32 (mem s) r\<rparr> else s)
       in bind (if km_use_lock s then release KmemLock s else Ok () s) (\<lambda>_ s. Ok r s))"

lemma kfree_OkD:
  assumes "kfree v s = Ok x t"
  shows "v mod PGSIZE = 0" "kend s \<le> v" "V2P v < PHYSTOP"
  using assms by (auto simp: kfree_def not_less split: if_splits)

text \<open>An address whose physical address is below \<open>PHYSTOP\<close> is a page away from the top.\<close>

lemma V2P_bound: "V2P v < PHYSTOP \<Longrightarrow> unat v < 0x8E000000"
proof -
  assume "V2P v < PHYSTOP"
  then have "unat (v - KERNBASE) < 0xE000000" by (simp add: V2P_def word_less_nat_alt)
  then show ?thesis by (simp add: unat_sub_if' split: if_splits)
qed

function freerange_loop :: "u32 \<Rightarrow> u32 \<Rightarrow> kstate \<Rightarrow> (kstate, unit) res" where
  "freerange_loop p vend s =
     (if p + PGSIZE \<le> vend
      then bind (kfree p s) (\<lambda>_ s. freerange_loop (p + PGSIZE) vend s)
      else Ok () s)"
  by pat_completeness auto
termination
proof (relation "measure (\<lambda>(p, vend, s). 2 ^ 32 - unat p)")
  fix p vend :: u32 and s x t
  assume "kfree p s = Ok x t"
  then have "unat p < 0x8E000000" by (intro V2P_bound kfree_OkD)
  then show "((p + PGSIZE, vend, t), (p, vend, s)) \<in> measure (\<lambda>(p, vend, s). 2 ^ 32 - unat p)"
    by (simp add: unat_word_ariths)
qed simp

declare freerange_loop.simps [simp del]

definition freerange :: "u32 \<Rightarrow> u32 \<Rightarrow> kstate \<Rightarrow> (kstate, unit) res" where
  "freerange vstart vend s = freerange_loop (PGROUNDUP vstart) vend s"

definition kinit1 :: "u32 \<Rightarrow> u32 \<Rightarrow> kstate \<Rightarrow> (kstate, unit) res" where
  "kinit1 vstart vend s =
     (let s = initlock KmemLock ''kmem'' s; s = s\<lparr>km_use_lock := False\<rparr>
      in freerange vstart vend s)"

definition kinit2 :: "u32 \<Rightarrow> u32 \<Rightarrow> kstate \<Rightarrow> (kstate, unit) res" where
  "kinit2 vstart vend s =
     bind (freerange vstart vend s) (\<lambda>_ s. Ok () (s\<lparr>km_use_lock := True\<rparr>))"

section \<open>The free list in memory\<close>

definition pg_aligned :: "u32 \<Rightarrow> bool" where
  "pg_aligned p \<longleftrightarrow> p mod PGSIZE = 0"

lemma pg_aligned_iff: "pg_aligned p \<longleftrightarrow> unat p mod 4096 = 0"
  by (simp add: pg_aligned_def word_unat_eq_iff unat_mod)

primrec chain :: "(u32 \<Rightarrow> u8) \<Rightarrow> u32 \<Rightarrow> u32 list \<Rightarrow> bool" where
  "chain m r [] \<longleftrightarrow> r = 0"
| "chain m r (x # xs) \<longleftrightarrow> r = x \<and> x \<noteq> 0 \<and> chain m (read32 m x) xs"

definition page_ok :: "kstate \<Rightarrow> u32 \<Rightarrow> bool" where
  "page_ok s v \<longleftrightarrow> pg_aligned v \<and> kend s \<le> v \<and> V2P v < PHYSTOP"

definition km_ready :: "kstate \<Rightarrow> bool" where
  "km_ready s \<longleftrightarrow> 0 < kend s \<and> (km_use_lock s \<longrightarrow> cpu_ok s \<and> lock_free KmemLock s)"

definition km_inv :: "kstate \<Rightarrow> u32 list \<Rightarrow> bool" where
  "km_inv s xs \<longleftrightarrow> km_ready s \<and> chain (mem s) (km_freelist s) xs \<and> distinct xs
     \<and> (\<forall>p \<in> set xs. page_ok s p)"

abbreviation in_page :: "u32 \<Rightarrow> u32 \<Rightarrow> bool" where
  "in_page p a \<equiv> in_block p 4096 a"

lemma read32_write32 [simp]: "read32 (write32 m a w) a = w"
proof -
  have "[write32 m a w a, write32 m a w (a + 1), write32 m a w (a + 2), write32 m a w (a + 3)]
      = put32 w"
    by (simp add: write32_def put32_def)
  then show ?thesis by (simp add: read32_def)
qed

lemma read32_cong:
  assumes "m a = m' a" "m (a + 1) = m' (a + 1)" "m (a + 2) = m' (a + 2)" "m (a + 3) = m' (a + 3)"
  shows "read32 m a = read32 m' a"
  using assms by (simp add: read32_def)

text \<open>An aligned page holds the addresses that share its page number.\<close>

lemma in_page_iff:
  assumes "pg_aligned p"
  shows "in_page p a \<longleftrightarrow> unat a div 4096 = unat p div 4096"
proof -
  have p: "unat p = unat p div 4096 * 4096"
    using assms by (simp add: pg_aligned_iff mod_0_imp_dvd)
  have "unat p div 4096 < 2 ^ 20" using unat32 [of p] by (simp add: less_mult_imp_div_less)
  with p have top: "unat p + 4096 \<le> 2 ^ 32" by simp
  show ?thesis
  proof (cases "unat p \<le> unat a")
    case True
    then have "unat (a - p) = unat a - unat p" by (simp add: unat_sub_if')
    with True p show ?thesis by (auto simp: in_block_def div_nat_eqI)
  next
    case False
    then have "unat (a - p) = 2 ^ 32 + unat a - unat p" by (simp add: unat_sub_if')
    with False top p have "\<not> in_page p a" by (simp add: in_block_def)
    moreover from False p have "unat a div 4096 \<noteq> unat p div 4096"
      using less_mult_imp_div_less [of "unat a" "unat p div 4096" 4096] by simp
    ultimately show ?thesis by simp
  qed
qed

lemma in_page_self [simp]: "in_page p p"
  by (simp add: in_block_def)

lemma in_page_offset: "n < 4096 \<Longrightarrow> in_page p (p + of_nat n)"
  by (simp add: in_block_def unat_of_nat take_bit_nat_eq_self)

lemma pages_disjoint:
  assumes "pg_aligned p" "pg_aligned q" "in_page p a" "in_page q a"
  shows "p = q"
proof -
  have "unat p div 4096 = unat q div 4096"
    using assms in_page_iff by simp
  then have "unat p = unat q"
    using assms(1,2) div_mult_mod_eq [of "unat p" 4096]
      div_mult_mod_eq [of "unat q" 4096]
    by (simp add: pg_aligned_iff del: div_mult_mod_eq)
  then show ?thesis by (simp add: word_unat_eq_iff)
qed

text \<open>The link of a free page survives every write that stays outside the page.\<close>

lemma read32_outside:
  assumes "\<And>a. in_page p a \<Longrightarrow> m' a = m a"
  shows "read32 m' p = read32 m p"
  using assms [of p] assms [OF in_page_offset [of 1]] assms [OF in_page_offset [of 2]]
    assms [OF in_page_offset [of 3]]
  by (intro read32_cong) simp_all

lemma chain_outside:
  assumes "\<And>p a. p \<in> set xs \<Longrightarrow> in_page p a \<Longrightarrow> m' a = m a"
  shows "chain m' r xs = chain m r xs"
  using assms
proof (induction xs arbitrary: r)
  case (Cons x xs)
  have "read32 m' x = read32 m x" by (rule read32_outside) (use Cons.prems in force)
  moreover have "chain m' r xs = chain m r xs" for r
    by (rule Cons.IH) (use Cons.prems in force)
  ultimately show ?case by simp
qed simp

section \<open>What \<open>kfree\<close> and \<open>kalloc\<close> do\<close>

lemma kfree_eq:
  assumes "km_ready s" "page_ok s v"
  shows "kfree v s = Ok () (s\<lparr>mem := write32 (memset (mem s) v 1 PGSIZE) v (km_freelist s),
                            km_freelist := v\<rparr>)"
  using assms by (auto simp: kfree_def page_ok_def pg_aligned_def km_ready_def Let_def lock_simps)

lemma kalloc_eq:
  assumes "km_ready s"
  shows "kalloc s = Ok (km_freelist s)
     (if km_freelist s \<noteq> 0 then s\<lparr>km_freelist := read32 (mem s) (km_freelist s)\<rparr> else s)"
  using assms by (auto simp: kalloc_def km_ready_def Let_def lock_simps)

lemma write32_outside: "\<not> in_page a x \<Longrightarrow> write32 m a w x = m x"
  using in_page_self [of a] in_page_offset [of 1 a] in_page_offset [of 2 a] in_page_offset [of 3 a]
  by (auto simp: write32_def)

lemma kfree_mem_outside:
  "\<not> in_page v a \<Longrightarrow> write32 (memset m v 1 PGSIZE) v r a = m a"
  by (simp add: write32_outside memset_eq)

lemma km_ready_updates [simp]:
  "km_ready (mem_update f s) = km_ready s" "km_ready (km_freelist_update g s) = km_ready s"
  by (simp_all add: km_ready_def)

lemma page_ok_updates [simp]:
  "page_ok (mem_update f s) = page_ok s" "page_ok (km_freelist_update g s) = page_ok s"
  by (simp_all add: page_ok_def fun_eq_iff)

lemma page_ok_nonzero: "km_ready s \<Longrightarrow> page_ok s p \<Longrightarrow> p \<noteq> 0"
  by (auto simp: page_ok_def km_ready_def)

lemma km_inv_outside:
  assumes "km_inv s xs" "\<And>p a. p \<in> set xs \<Longrightarrow> in_page p a \<Longrightarrow> m a = mem s a"
  shows "km_inv (s\<lparr>mem := m\<rparr>) xs"
  using assms chain_outside [of xs m "mem s"] by (simp add: km_inv_def)

lemma kfree_inv:
  assumes "km_inv s xs" "page_ok s p" "p \<notin> set xs"
  shows "\<exists>m. kfree p s = Ok () (s\<lparr>mem := m, km_freelist := p\<rparr>)
     \<and> km_inv (s\<lparr>mem := m, km_freelist := p\<rparr>) (p # xs) \<and> (\<forall>a. \<not> in_page p a \<longrightarrow> m a = mem s a)"
proof -
  let ?m = "write32 (memset (mem s) p 1 PGSIZE) p (km_freelist s)"
  have "chain ?m (km_freelist s) xs = chain (mem s) (km_freelist s) xs"
  proof (rule chain_outside)
    fix q a
    assume q: "q \<in> set xs" "in_page q a"
    with assms have "\<not> in_page p a"
      using pages_disjoint [of p q a] by (auto simp: km_inv_def page_ok_def)
    then show "?m a = mem s a" by (rule kfree_mem_outside)
  qed
  with assms page_ok_nonzero [of s p] show ?thesis
    by (intro exI [of _ ?m]) (simp add: kfree_eq km_inv_def kfree_mem_outside)
qed

lemma kalloc_inv_Nil: "km_inv s [] \<Longrightarrow> kalloc s = Ok 0 s"
  by (simp add: km_inv_def kalloc_eq)

lemma kalloc_inv_Cons:
  assumes "km_inv s (p # xs)"
  shows "\<exists>f. kalloc s = Ok p (s\<lparr>km_freelist := f\<rparr>) \<and> km_inv (s\<lparr>km_freelist := f\<rparr>) xs"
  using assms by (auto simp: km_inv_def kalloc_eq)

lemma kfree_panics:
  "\<not> page_ok s v \<Longrightarrow> kfree v s = Panic ''kfree''"
  by (auto simp: kfree_def page_ok_def pg_aligned_def not_le not_less)

section \<open>The range given to the allocator at boot\<close>

text \<open>The \<open>n\<close> pages from \<open>p\<close> on, the last one first: the order of the free list.\<close>

primrec page_run :: "u32 \<Rightarrow> nat \<Rightarrow> u32 list" where
  "page_run p 0 = []"
| "page_run p (Suc n) = page_run (p + PGSIZE) n @ [p]"

lemma set_page_run: "q \<in> set (page_run p n) \<longleftrightarrow> (\<exists>i < n. q = p + of_nat i * PGSIZE)"
proof (induction n arbitrary: p)
  case (Suc n)
  have "(\<exists>i < Suc n. q = p + of_nat i * PGSIZE) \<longleftrightarrow>
        q = p \<or> (\<exists>i < n. q = p + PGSIZE + of_nat i * PGSIZE)"
    unfolding Ex_less_Suc2 by (simp add: algebra_simps)
  with Suc.IH [of "p + PGSIZE"] show ?case by auto
qed simp

lemma page_run_step:
  assumes "unat p + Suc n * 4096 \<le> unat (hi :: u32)"
  shows "p + PGSIZE \<le> hi" "unat (p + PGSIZE) + n * 4096 \<le> unat hi" "unat (p + PGSIZE) = unat p + 4096"
proof -
  have "unat (p + PGSIZE) = unat p + 4096"
    using assms unat32 [of hi] by (subst unat_add_lem [THEN iffD1]) auto
  then show "unat (p + PGSIZE) = unat p + 4096" "p + PGSIZE \<le> hi"
    "unat (p + PGSIZE) + n * 4096 \<le> unat hi"
    using assms by (simp_all add: word_le_nat_alt)
qed

lemma page_ok_range:
  assumes "pg_aligned p" "kend s \<le> p" "KERNBASE \<le> p" "unat p < 0x8E000000"
  shows "page_ok s p"
proof -
  have "unat (p - KERNBASE) = unat p - 0x80000000"
    using assms(3) by (simp add: unat_sub word_le_nat_alt)
  with assms show ?thesis by (simp add: page_ok_def V2P_def word_less_nat_alt)
qed

lemma freerange_loop_spec:
  assumes "km_inv s xs" "pg_aligned p" "kend s \<le> p" "KERNBASE \<le> p"
    and "unat p + n * 4096 \<le> unat hi" "unat hi < unat p + Suc n * 4096" "unat hi \<le> 0x8E000000"
    and "\<And>q. q \<in> set xs \<Longrightarrow> q < p"
  shows "\<exists>m f. freerange_loop p hi s = Ok () (s\<lparr>mem := m, km_freelist := f\<rparr>)
     \<and> km_inv (s\<lparr>mem := m, km_freelist := f\<rparr>) (page_run p n @ xs)"
  using assms
proof (induction n arbitrary: p xs s)
  case 0
  have "\<not> p + PGSIZE \<le> hi"
  proof
    assume "p + PGSIZE \<le> hi"
    moreover have "unat (p + PGSIZE) = unat p + 4096"
      using "0.prems"(5,7) by (subst unat_add_lem [THEN iffD1]) auto
    ultimately show False using "0.prems"(6) by (simp add: word_le_nat_alt)
  qed
  then have "freerange_loop p hi s = Ok () (s\<lparr>mem := mem s, km_freelist := km_freelist s\<rparr>)"
    by (simp add: freerange_loop.simps)
  with "0.prems"(1) show ?case by (intro exI [of _ "mem s"] exI [of _ "km_freelist s"]) simp
next
  case (Suc n)
  note st = page_run_step [OF Suc.prems(5)]
  have ok: "page_ok s p" using Suc.prems by (intro page_ok_range) auto
  have "p \<notin> set xs" using Suc.prems(8) by auto
  with kfree_inv [OF Suc.prems(1) ok] obtain m where
    t: "kfree p s = Ok () (s\<lparr>mem := m, km_freelist := p\<rparr>)"
       "km_inv (s\<lparr>mem := m, km_freelist := p\<rparr>) (p # xs)" by blast
  have lt: "p < p + PGSIZE" using st(3) by (simp add: word_less_nat_alt)
  have al: "pg_aligned (p + PGSIZE)"
    using Suc.prems(2) st(3) by (simp add: pg_aligned_iff)
  let ?t = "s\<lparr>mem := m, km_freelist := p\<rparr>"
  have "\<exists>m f. freerange_loop (p + PGSIZE) hi ?t = Ok () (?t\<lparr>mem := m, km_freelist := f\<rparr>)
     \<and> km_inv (?t\<lparr>mem := m, km_freelist := f\<rparr>) (page_run (p + PGSIZE) n @ p # xs)"
    using Suc.prems(3,4,6,7,8) st lt al t(2)
    by (intro Suc.IH) (auto intro: order_trans less_imp_le less_trans)
  with t(1) st(1) show ?case by (simp add: freerange_loop.simps)
qed

lemma and_not_mask_word: "a AND NOT (mask n) = push_bit n (drop_bit n a)" for a :: u32
  by (intro bit_word_eqI) (auto simp: bit_simps)

lemma unat_PGROUNDDOWN: "unat (PGROUNDDOWN a) = unat a div 4096 * 4096"
proof -
  have "unat a div 4096 * 4096 < 2 ^ 32" using unat32 [of a] by simp
  then have "unat (a div 4096 * 4096) = unat a div 4096 * 4096"
    by (subst unat_mult_lem [THEN iffD1]) (simp_all add: unat_div)
  moreover have "PGROUNDDOWN a = a div 4096 * 4096"
    using and_not_mask_word [of a 12]
    by (simp add: PGROUNDDOWN_def mask_eq_exp_minus_1 push_bit_eq_mult drop_bit_eq_div)
  ultimately show ?thesis by simp
qed

lemma PGROUNDUP_eq: "PGROUNDUP a = PGROUNDDOWN (a + 4095)"
  by (simp add: PGROUNDUP_def PGROUNDDOWN_def add.commute)

lemma unat_PGROUNDUP:
  "unat a + 4095 < 2 ^ 32 \<Longrightarrow> unat (PGROUNDUP a) = (unat a + 4095) div 4096 * 4096"
  using unat_add_lem [of a "4095"] by (simp add: PGROUNDUP_eq unat_PGROUNDDOWN)

lemma PGROUNDUP_aligned: "pg_aligned (PGROUNDUP a)"
  by (simp add: PGROUNDUP_eq pg_aligned_iff unat_PGROUNDDOWN)

lemma PGROUNDUP_ge: "unat a + 4095 < 2 ^ 32 \<Longrightarrow> a \<le> PGROUNDUP a"
  using div_mult_mod_eq [of "unat a + 4095" 4096] mod_less_divisor [of 4096 "unat a + 4095"]
  by (simp add: word_le_nat_alt unat_PGROUNDUP del: div_mult_mod_eq mod_less_divisor)

definition page_count :: "u32 \<Rightarrow> u32 \<Rightarrow> nat" where
  "page_count lo hi = (unat hi - unat (PGROUNDUP lo)) div 4096"

lemma freerange_spec:
  assumes "km_inv s xs" "kend s \<le> lo" "KERNBASE \<le> lo" "PGROUNDUP lo \<le> hi" "unat hi \<le> 0x8E000000"
    and "lo \<le> hi" "\<And>q. q \<in> set xs \<Longrightarrow> q < PGROUNDUP lo"
  shows "\<exists>m f. freerange lo hi s = Ok () (s\<lparr>mem := m, km_freelist := f\<rparr>)
     \<and> km_inv (s\<lparr>mem := m, km_freelist := f\<rparr>) (page_run (PGROUNDUP lo) (page_count lo hi) @ xs)"
proof -
  have ge: "lo \<le> PGROUNDUP lo"
    using assms(5,6) by (intro PGROUNDUP_ge) (simp add: word_le_nat_alt)
  let ?d = "unat hi - unat (PGROUNDUP lo)"
  have le: "unat (PGROUNDUP lo) \<le> unat hi" using assms(4) by (simp add: word_le_nat_alt)
  have d: "?d div 4096 * 4096 \<le> ?d" "?d < Suc (?d div 4096) * 4096"
    using div_mult_mod_eq [of ?d 4096] mod_less_divisor [of 4096 ?d] by (linarith, simp)
  show ?thesis
    unfolding freerange_def page_count_def
  proof (rule freerange_loop_spec)
    show "kend s \<le> PGROUNDUP lo" "KERNBASE \<le> PGROUNDUP lo"
      using assms(2,3) ge by (auto intro: order_trans)
    show "unat (PGROUNDUP lo) + ?d div 4096 * 4096 \<le> unat hi" using d(1) le by linarith
    show "unat hi < unat (PGROUNDUP lo) + Suc (?d div 4096) * 4096" using d(2) le by linarith
  qed (use assms in \<open>auto simp: PGROUNDUP_aligned\<close>)
qed

section \<open>The contract of the allocator\<close>

text \<open>
  What the rest of the kernel relies on. \<open>inv s ps\<close> says that the free pages of state \<open>s\<close> are
  \<open>ps\<close>; \<open>ok\<close> are the pages that may be given back; \<open>null\<close> is the answer when no page is left.
\<close>

locale page_allocator =
  fixes alloc :: "'s \<Rightarrow> ('s, 'p) res"
    and free :: "'p \<Rightarrow> 's \<Rightarrow> ('s, unit) res"
    and inv :: "'s \<Rightarrow> 'p list \<Rightarrow> bool"
    and ok :: "'s \<Rightarrow> 'p \<Rightarrow> bool"
    and null :: 'p
  assumes inv_distinct: "inv s ps \<Longrightarrow> distinct ps"
    and inv_ok: "inv s ps \<Longrightarrow> p \<in> set ps \<Longrightarrow> ok s p \<and> p \<noteq> null"
    and alloc_none: "inv s [] \<Longrightarrow> alloc s = Ok null s"
    and alloc_some: "inv s (p # ps) \<Longrightarrow> \<exists>t. alloc s = Ok p t \<and> inv t ps \<and> ok t = ok s"
    and free_ok: "inv s ps \<Longrightarrow> ok s p \<Longrightarrow> p \<notin> set ps \<Longrightarrow>
      \<exists>t. free p s = Ok () t \<and> inv t (p # ps) \<and> ok t = ok s"
begin

text \<open>The free pages and the pages in use split the pages of the machine.\<close>

definition split_inv :: "'p set \<Rightarrow> 's \<Rightarrow> 'p set \<Rightarrow> bool" where
  "split_inv P s L \<longleftrightarrow>
     (\<exists>ps. inv s ps \<and> set ps \<inter> L = {} \<and> set ps \<union> L = P) \<and> (\<forall>p \<in> P. ok s p \<and> p \<noteq> null)"

lemma split_alloc:
  assumes "split_inv P s L" "alloc s = Ok p t"
  shows "if L = P then p = null \<and> t = s else p \<in> P \<and> p \<notin> L \<and> split_inv P t (insert p L)"
proof -
  from assms(1) obtain ps where ps: "inv s ps" "set ps \<inter> L = {}" "set ps \<union> L = P"
    and P: "\<forall>p \<in> P. ok s p \<and> p \<noteq> null" by (auto simp: split_inv_def)
  show ?thesis
  proof (cases ps)
    case Nil
    with ps assms(2) alloc_none show ?thesis by auto
  next
    case (Cons q qs)
    with alloc_some ps(1) assms(2) have q: "p = q" "inv t qs" "ok t = ok s" by fastforce+
    with ps Cons inv_distinct [OF ps(1)] have "set qs \<inter> insert p L = {}" "set qs \<union> insert p L = P"
      by auto
    with q P ps Cons show ?thesis by (auto simp: split_inv_def)
  qed
qed

lemma split_free:
  assumes "split_inv P s L" "p \<in> L"
  shows "\<exists>t. free p s = Ok () t \<and> split_inv P t (L - {p})"
proof -
  from assms(1) obtain ps where ps: "inv s ps" "set ps \<inter> L = {}" "set ps \<union> L = P"
    and P: "\<forall>p \<in> P. ok s p \<and> p \<noteq> null" by (auto simp: split_inv_def)
  with assms(2) free_ok [OF ps(1), of p] obtain t where
    t: "free p s = Ok () t" "inv t (p # ps)" "ok t = ok s" by blast
  with ps assms(2) have "set (p # ps) \<inter> (L - {p}) = {}" "set (p # ps) \<union> (L - {p}) = P" by auto
  with t(2) have "\<exists>ps. inv t ps \<and> set ps \<inter> (L - {p}) = {} \<and> set ps \<union> (L - {p}) = P" by blast
  with t P show ?thesis by (simp add: split_inv_def)
qed

end

interpretation kmem: page_allocator kalloc kfree km_inv page_ok 0
proof unfold_locales
  fix s p ps
  show "km_inv s ps \<Longrightarrow> distinct ps" by (simp add: km_inv_def)
  show "km_inv s ps \<Longrightarrow> p \<in> set ps \<Longrightarrow> page_ok s p \<and> p \<noteq> 0"
    by (auto simp: km_inv_def dest: page_ok_nonzero)
  show "km_inv s [] \<Longrightarrow> kalloc s = Ok 0 s" by (rule kalloc_inv_Nil)
  show "km_inv s (p # ps) \<Longrightarrow> \<exists>t. kalloc s = Ok p t \<and> km_inv t ps \<and> page_ok t = page_ok s"
    using kalloc_inv_Cons by fastforce
  show "km_inv s ps \<Longrightarrow> page_ok s p \<Longrightarrow> p \<notin> set ps \<Longrightarrow>
      \<exists>t. kfree p s = Ok () t \<and> km_inv t (p # ps) \<and> page_ok t = page_ok s"
    using kfree_inv by fastforce
qed

section \<open>Every page is free or in use, never both\<close>

lemma set_page_run_range:
  assumes "pg_aligned p" "unat p + n * 4096 < 2 ^ 32"
  shows "q \<in> set (page_run p n) \<longleftrightarrow> pg_aligned q \<and> p \<le> q \<and> unat q < unat p + n * 4096"
  using assms
proof (induction n arbitrary: p)
  case (Suc n)
  have u: "unat (p + PGSIZE) = unat p + 4096"
    using Suc.prems(2) by (subst unat_add_lem [THEN iffD1]) auto
  then have al: "pg_aligned (p + PGSIZE)" using Suc.prems(1) by (simp add: pg_aligned_iff)
  have "q = p \<or> p + PGSIZE \<le> q" if "pg_aligned q" "p \<le> q"
  proof -
    from that Suc.prems(1) obtain i j where "unat p = 4096 * i" "unat q = 4096 * j"
      by (auto simp: pg_aligned_iff elim!: dvdE)
    with that(2) u show ?thesis by (auto simp: word_le_nat_alt word_unat_eq_iff)
  qed
  with Suc.IH [OF al] Suc.prems u show ?case by (auto simp: word_le_nat_alt)
qed (auto simp: word_le_nat_alt)

lemma PGROUNDUP_le_iff:
  assumes "unat a + 4095 < 2 ^ 32" "pg_aligned q"
  shows "PGROUNDUP a \<le> q \<longleftrightarrow> a \<le> q"
proof -
  from assms(2) obtain j where j: "unat q = 4096 * j" by (auto simp: pg_aligned_iff elim!: dvdE)
  have "(unat a + 4095) div 4096 * 4096 \<le> 4096 * j \<longleftrightarrow> unat a \<le> 4096 * j"
    by (auto simp: less_eq_div_iff_mult_less_eq)
  with j assms(1) show ?thesis by (simp add: word_le_nat_alt unat_PGROUNDUP)
qed

lemma page_run_between:
  assumes "unat hi \<le> 0x8E000000" "pg_aligned hi" "lo \<le> hi"
  shows "q \<in> set (page_run (PGROUNDUP lo) (page_count lo hi)) \<longleftrightarrow>
     pg_aligned q \<and> lo \<le> q \<and> q < hi"
proof -
  have lo: "unat lo + 4095 < 2 ^ 32" using assms by (simp add: word_le_nat_alt)
  have le: "PGROUNDUP lo \<le> hi" using PGROUNDUP_le_iff [OF lo assms(2)] assms(3) by simp
  have "(unat hi - unat (PGROUNDUP lo)) mod 4096 = 0"
    using assms(2) PGROUNDUP_aligned [of lo] by (simp add: pg_aligned_iff mod_0_imp_dvd)
  then have "unat (PGROUNDUP lo) + page_count lo hi * 4096 = unat hi"
    using le by (simp add: page_count_def word_le_nat_alt mod_0_imp_dvd)
  with set_page_run_range [OF PGROUNDUP_aligned, of lo "page_count lo hi" q] assms(1)
    PGROUNDUP_le_iff [OF lo, of q]
  show ?thesis by (auto simp: word_less_nat_alt)
qed

text \<open>
  The kernel uses the allocator in two phases, as \<open>main\<close> starts it: after \<open>kinit1\<close> only the pages
  below 4 megabytes are there and no lock is used, \<open>kinit2\<close> adds the rest. \<open>L\<close> is the set of pages
  handed out and not yet given back; their owners write to them as they like.
\<close>

definition boot_image :: "kstate \<Rightarrow> bool" where
  "boot_image s \<longleftrightarrow> KERNBASE \<le> kend s \<and> kend s \<le> P2V 0x400000 \<and> km_freelist s = 0 \<and> cpu_ok s"

inductive km_reach :: "kstate \<Rightarrow> kstate \<Rightarrow> u32 set \<Rightarrow> bool" for s0 where
  init1: "kinit1 (kend s0) (P2V 0x400000) s0 = Ok () s \<Longrightarrow> km_reach s0 s {}"
| init2: "km_reach s0 s L \<Longrightarrow> \<not> km_use_lock s \<Longrightarrow>
    kinit2 (P2V 0x400000) (P2V PHYSTOP) s = Ok () t \<Longrightarrow> km_reach s0 t L"
| alloc: "km_reach s0 s L \<Longrightarrow> kalloc s = Ok p t \<Longrightarrow>
    km_reach s0 t (if p = 0 then L else insert p L)"
| free: "km_reach s0 s L \<Longrightarrow> p \<in> L \<Longrightarrow> kfree p s = Ok () t \<Longrightarrow> km_reach s0 t (L - {p})"
| use: "km_reach s0 s L \<Longrightarrow> (\<And>a. m a \<noteq> mem s a \<Longrightarrow> \<exists>p \<in> L. in_page p a) \<Longrightarrow>
    km_reach s0 (s\<lparr>mem := m\<rparr>) L"

text \<open>The pages the allocator owns in a state.\<close>

definition km_pages :: "kstate \<Rightarrow> u32 set" where
  "km_pages s = {p. page_ok s p \<and> (km_use_lock s \<or> p < P2V 0x400000)}"

definition km_split :: "kstate \<Rightarrow> kstate \<Rightarrow> u32 set \<Rightarrow> bool" where
  "km_split s0 s L \<longleftrightarrow> kmem.split_inv (km_pages s) s L \<and> kend s = kend s0
     \<and> cpu_ok s \<and> lock_free KmemLock s"

lemma km_pages_updates [simp]:
  "km_pages (mem_update f s) = km_pages s" "km_pages (km_freelist_update g s) = km_pages s"
  by (simp_all add: km_pages_def)

lemma kalloc_frame: "km_ready s \<Longrightarrow> kalloc s = Ok p t \<Longrightarrow> \<exists>f. t = s\<lparr>km_freelist := f\<rparr>"
  by (cases "km_freelist s = 0") (auto simp: kalloc_eq intro: exI [of _ "km_freelist s"])

lemma kfree_frame:
  "km_ready s \<Longrightarrow> kfree p s = Ok () t \<Longrightarrow> \<exists>m f. t = s\<lparr>mem := m, km_freelist := f\<rparr>"
  using kfree_panics [of s p] by (cases "page_ok s p") (auto simp: kfree_eq)

lemma page_ok_KERNBASE: "KERNBASE \<le> kend s \<Longrightarrow> page_ok s p \<longleftrightarrow> pg_aligned p \<and> kend s \<le> p \<and> unat p < 0x8E000000"
  using page_ok_range [of p s] V2P_bound [of p] by (auto simp: page_ok_def)

lemma km_split_init1:
  assumes "boot_image s0"
  shows "\<exists>s. kinit1 (kend s0) (P2V 0x400000) s0 = Ok () s \<and> km_split s0 s {} \<and> \<not> km_use_lock s"
proof -
  let ?s = "(initlock KmemLock ''kmem'' s0)\<lparr>km_use_lock := False\<rparr>"
  have b: "KERNBASE \<le> kend s0" "kend s0 \<le> 0x80400000" "km_freelist s0 = 0" "cpu_ok s0"
    using assms by (simp_all add: boot_image_def P2V_def)
  have inv: "km_inv ?s []" using b
    by (auto simp: km_inv_def km_ready_def initlock_def word_less_nat_alt word_le_nat_alt)
  have up: "PGROUNDUP (kend s0) \<le> 0x80400000"
    using b(2) PGROUNDUP_le_iff [of "kend s0" "0x80400000"]
    by (simp add: word_le_nat_alt pg_aligned_iff)
  obtain m f where r: "freerange (kend s0) 0x80400000 ?s = Ok () (?s\<lparr>mem := m, km_freelist := f\<rparr>)"
    "km_inv (?s\<lparr>mem := m, km_freelist := f\<rparr>) (page_run (PGROUNDUP (kend s0)) (page_count (kend s0) 0x80400000) @ [])"
    using freerange_spec [OF inv, of "kend s0" "0x80400000"] b up
    by (auto simp: initlock_def)
  let ?t = "?s\<lparr>mem := m, km_freelist := f\<rparr>"
  have "set (page_run (PGROUNDUP (kend s0)) (page_count (kend s0) 0x80400000)) = km_pages ?t"
    using b page_run_between [of "0x80400000" "kend s0"] page_ok_KERNBASE [of s0]
    by (auto simp: km_pages_def page_ok_def P2V_def pg_aligned_iff initlock_def word_less_nat_alt word_le_nat_alt)
  with r b have "kmem.split_inv (km_pages ?t) ?t {}"
    using kmem.inv_ok [OF r(2)] by (auto simp: kmem.split_inv_def)
  moreover have "cpu_ok ?t" "lock_free KmemLock ?t" "kend ?t = kend s0"
    using b cpu_ok_cong [of "initlock KmemLock ''kmem'' s0" s0]
    by (simp_all add: initlock_def lock_free_def)
  ultimately show ?thesis using r(1) by (auto simp: km_split_def kinit1_def P2V_def Let_def)
qed

lemma km_split_init2:
  assumes "boot_image s0" "km_split s0 s L" "\<not> km_use_lock s"
  shows "\<exists>t. kinit2 (P2V 0x400000) (P2V PHYSTOP) s = Ok () t \<and> km_split s0 t L"
proof -
  from assms(2) obtain ps where ps: "km_inv s ps" "set ps \<inter> L = {}" "set ps \<union> L = km_pages s"
    and e: "kend s = kend s0" "cpu_ok s" "lock_free KmemLock s"
    by (auto simp: km_split_def kmem.split_inv_def)
  have b: "KERNBASE \<le> kend s" "kend s \<le> 0x80400000"
    using assms(1) e by (simp_all add: boot_image_def P2V_def)
  have up: "PGROUNDUP 0x80400000 = 0x80400000" "page_count 0x80400000 0x8E000000 = 56320"
    by (simp_all add: word_unat_eq_iff unat_PGROUNDUP page_count_def)
  have small: "q < 0x80400000" if "q \<in> km_pages s" for q
    using that assms(3) by (simp add: km_pages_def P2V_def)
  have "\<exists>m f. freerange 0x80400000 0x8E000000 s = Ok () (s\<lparr>mem := m, km_freelist := f\<rparr>) \<and>
     km_inv (s\<lparr>mem := m, km_freelist := f\<rparr>)
       (page_run (PGROUNDUP 0x80400000) (page_count 0x80400000 0x8E000000) @ ps)"
    by (rule freerange_spec) (use ps(1) b up(1) small ps(3) in auto)
  then obtain m f where r: "freerange 0x80400000 0x8E000000 s = Ok () (s\<lparr>mem := m, km_freelist := f\<rparr>)"
    "km_inv (s\<lparr>mem := m, km_freelist := f\<rparr>)
       (page_run (PGROUNDUP 0x80400000) (page_count 0x80400000 0x8E000000) @ ps)" by blast
  let ?t = "s\<lparr>mem := m, km_freelist := f, km_use_lock := True\<rparr>"
  let ?new = "page_run (PGROUNDUP 0x80400000) (page_count 0x80400000 0x8E000000)"
  have new: "q \<in> set ?new \<longleftrightarrow> pg_aligned q \<and> 0x80400000 \<le> q \<and> q < 0x8E000000" for q
    by (rule page_run_between) (simp_all add: pg_aligned_iff)
  have ok: "page_ok ?t q \<longleftrightarrow> pg_aligned q \<and> kend s \<le> q \<and> q < 0x8E000000" for q
    using page_ok_KERNBASE [of ?t q] b by (simp add: word_less_nat_alt)
  have inv: "km_inv ?t (?new @ ps)" using r(2) e by (simp add: km_inv_def km_ready_def page_ok_def)
  have old: "q \<in> km_pages s \<longleftrightarrow> pg_aligned q \<and> kend s \<le> q \<and> q < 0x80400000" for q
    using page_ok_KERNBASE [of s q] b assms(3)
    by (auto simp: km_pages_def P2V_def word_less_nat_alt)
  have pages: "km_pages ?t = set ?new \<union> km_pages s"
    using new ok old b by (auto simp: km_pages_def word_less_nat_alt word_le_nat_alt)
  have "set ?new \<inter> km_pages s = {}" using new old by auto
  with ps have "set (?new @ ps) \<inter> L = {}" "set (?new @ ps) \<union> L = km_pages ?t"
    unfolding pages by auto
  moreover have "\<forall>p \<in> km_pages ?t. page_ok ?t p \<and> p \<noteq> 0"
    using page_ok_nonzero [of ?t] inv by (auto simp: km_pages_def km_inv_def)
  ultimately have "kmem.split_inv (km_pages ?t) ?t L"
    using inv unfolding kmem.split_inv_def by blast
  with r(1) e show ?thesis by (simp add: kinit2_def P2V_def km_split_def)
qed

lemma km_split_ready: "km_split s0 s L \<Longrightarrow> km_ready s"
  by (auto simp: km_split_def kmem.split_inv_def km_inv_def)

lemma km_split_alloc:
  assumes "km_split s0 s L" "kalloc s = Ok p t"
  shows "km_split s0 t (if p = 0 then L else insert p L)"
    and "if L = km_pages s then p = 0 else p \<in> km_pages s - L"
proof -
  from assms kalloc_frame km_split_ready obtain f where t: "t = s\<lparr>km_freelist := f\<rparr>" by blast
  have sp: "kmem.split_inv (km_pages s) s L" using assms(1) by (simp add: km_split_def)
  note c = kmem.split_alloc [OF sp assms(2)]
  moreover have "0 \<notin> km_pages s" using sp by (auto simp: kmem.split_inv_def)
  ultimately show "km_split s0 t (if p = 0 then L else insert p L)"
    "if L = km_pages s then p = 0 else p \<in> km_pages s - L"
    using assms(1) t by (auto simp: km_split_def split: if_splits)
qed

lemma km_split_free:
  assumes "km_split s0 s L" "p \<in> L"
  shows "\<exists>t. kfree p s = Ok () t \<and> km_split s0 t (L - {p})"
proof -
  have "kmem.split_inv (km_pages s) s L" using assms(1) by (simp add: km_split_def)
  from kmem.split_free [OF this assms(2)] obtain t where
    t: "kfree p s = Ok () t" "kmem.split_inv (km_pages s) t (L - {p})" by blast
  moreover from kfree_frame [OF km_split_ready [OF assms(1)] t(1)] obtain m f where
    "t = s\<lparr>mem := m, km_freelist := f\<rparr>" by blast
  ultimately show ?thesis using assms(1) by (auto simp: km_split_def)
qed

lemma km_split_use:
  assumes "km_split s0 s L" "\<And>a. m a \<noteq> mem s a \<Longrightarrow> \<exists>p \<in> L. in_page p a"
  shows "km_split s0 (s\<lparr>mem := m\<rparr>) L"
proof -
  from assms(1) obtain ps where ps: "km_inv s ps" "set ps \<inter> L = {}" "set ps \<union> L = km_pages s"
    and P: "\<forall>p \<in> km_pages s. page_ok s p \<and> p \<noteq> 0"
    by (auto simp: km_split_def kmem.split_inv_def)
  have "m a = mem s a" if "q \<in> set ps" "in_page q a" for q a
  proof (rule ccontr)
    assume "m a \<noteq> mem s a"
    then obtain p where p: "p \<in> L" "in_page p a" using assms(2) by blast
    moreover have "pg_aligned p" "pg_aligned q" using that(1) p(1) ps(3) P by (auto simp: page_ok_def)
    ultimately have "p = q" using that(2) pages_disjoint by blast
    with that(1) p(1) ps(2) show False by blast
  qed
  then have "km_inv (s\<lparr>mem := m\<rparr>) ps" using ps(1) by (intro km_inv_outside)
  with ps P assms(1) show ?thesis by (auto simp: km_split_def kmem.split_inv_def)
qed

lemma km_reach_split:
  assumes "boot_image s0" "km_reach s0 s L"
  shows "km_split s0 s L"
  using assms(2)
proof induction
  case (init1 s)
  with km_split_init1 [OF assms(1)] show ?case by auto
next
  case (init2 s L t)
  with km_split_init2 [OF assms(1)] show ?case by fastforce
next
  case (alloc s L p t)
  then show ?case using km_split_alloc(1) by blast
next
  case (free s L p t)
  with km_split_free show ?case by fastforce
next
  case (use s L m)
  then show ?case by (intro km_split_use)
qed

text \<open>
  C2. In every state the kernel can reach, the pages in use lie in the allocator's range and do
  not overlap; \<open>kalloc\<close> returns, and gives a page that is not in use as long as there is one and
  null only when all are in use; every page in use can be given back without a panic.
\<close>

theorem kalloc_exclusive:
  assumes "boot_image s0" and "km_reach s0 s L"
  shows "L \<subseteq> km_pages s
     \<and> (\<forall>p \<in> L. \<forall>q \<in> L. \<forall>a. in_page p a \<and> in_page q a \<longrightarrow> p = q)
     \<and> (\<exists>p t. kalloc s = Ok p t \<and> (if L = km_pages s then p = 0 else p \<in> km_pages s - L))
     \<and> (\<forall>p \<in> L. \<exists>t. kfree p s = Ok () t)"
proof -
  have sp: "km_split s0 s L" using assms by (rule km_reach_split)
  then have L: "L \<subseteq> km_pages s" by (auto simp: km_split_def kmem.split_inv_def)
  then have "\<forall>p \<in> L. pg_aligned p" by (auto simp: km_pages_def page_ok_def)
  then have "\<forall>p \<in> L. \<forall>q \<in> L. \<forall>a. in_page p a \<and> in_page q a \<longrightarrow> p = q"
    using pages_disjoint by blast
  moreover obtain p t where "kalloc s = Ok p t" using kalloc_eq [OF km_split_ready [OF sp]] by blast
  ultimately show ?thesis using L km_split_alloc(2) [OF sp] km_split_free [OF sp] by blast
qed

definition one_cpu :: kstate where
  "one_cpu = kstate0 [0] (\<lambda>_. [])"

lemma one_cpu_simps [simp]:
  "kend one_cpu = 0x80200000" "lapic_id one_cpu = 0" "cpus one_cpu = [cpu0 0]"
  "locks one_cpu lk = spinlock0" "km_freelist one_cpu = 0" "procs one_cpu = replicate NPROC proc0"
  by (simp_all add: one_cpu_def kstate0_def)

lemma quiet_one_cpu [simp]: "quiet one_cpu"
  by (simp add: quiet_def cpu_ok_def this_cpu_def cpu0_def lock_free_def spinlock0_def)

theorem kalloc_exclusive_witness:
  "\<exists>s p t. kinit1 0x80200000 0x80400000 one_cpu = Ok () s \<and> kalloc s = Ok p t \<and> p \<noteq> 0"
proof -
  have b: "boot_image one_cpu" by (simp add: boot_image_def P2V_def)
  from km_split_init1 [OF b] obtain s where s: "kinit1 0x80200000 0x80400000 one_cpu = Ok () s"
    "kend s = 0x80200000" by (auto simp: P2V_def km_split_def)
  have "page_ok s 0x80200000"
    using s(2) page_ok_KERNBASE [of s "0x80200000"] by (simp add: pg_aligned_iff)
  then have "0x80200000 \<in> km_pages s" by (simp add: km_pages_def P2V_def)
  moreover have "km_reach one_cpu s {}" using s(1) by (intro km_reach.init1) (simp add: P2V_def)
  ultimately obtain p t where p: "kalloc s = Ok p t" "p \<in> km_pages s"
    using kalloc_exclusive [OF b, of s "{}"] by (auto split: if_splits)
  moreover have "p \<noteq> 0" using p(2) s(2) by (auto simp: km_pages_def page_ok_def)
  ultimately show ?thesis using s(1) by blast
qed

end
