(* ===== verification/ConsOut.thy ===== *)
theory ConsOut
  imports Fmt Kalloc
begin

text \<open>
  Console output (\<open>console.c\<close>: \<open>cgaputc\<close>, \<open>consputc\<close>, \<open>cprintf\<close>; \<open>uart.c\<close>: \<open>uartputc\<close>). The
  serial line is the list \<open>cons_out\<close> of the bytes sent, the display the cells \<open>crt\<close> with the
  cursor \<open>crt_pos\<close>. The wait for the serial port to be ready has no effect on the kernel's state
  and is left out, and so is \<open>panicked\<close>: a panic ends the run.
\<close>

section \<open>Characters\<close>

definition uartputc :: "u8 \<Rightarrow> kstate \<Rightarrow> kstate" where
  "uartputc c s = (if uart s then s\<lparr>cons_out := cons_out s @ [c]\<rparr> else s)"

abbreviation (input) BACKSPACE :: u32 where "BACKSPACE \<equiv> 0x100"

text \<open>\<open>memmove(crt, crt+80, 2*23*80)\<close> and \<open>memset(crt+pos, 0, 2*(24*80 - pos))\<close>.\<close>

definition crt_scroll :: "(nat \<Rightarrow> u16) \<Rightarrow> (nat \<Rightarrow> u16)" where
  "crt_scroll m = (\<lambda>i. if i < 23 * 80 then m (i + 80) else m i)"

definition crt_clear :: "(nat \<Rightarrow> u16) \<Rightarrow> nat \<Rightarrow> (nat \<Rightarrow> u16)" where
  "crt_clear m pos = (\<lambda>i. if pos \<le> i \<and> i < 24 * 80 then 0 else m i)"

definition cgaputc :: "u32 \<Rightarrow> kstate \<Rightarrow> (kstate, unit) res" where
  "cgaputc c s =
     (let pos = crt_pos s;
          m = crt s;
          m' = (if c \<noteq> 10 \<and> c \<noteq> BACKSPACE
                then m(nat pos := (ucast c AND 0xFF) OR 0x700) else m);
          pos = (if c = 10 then pos + (80 - pos mod 80)
                 else if c = BACKSPACE then (if pos > 0 then pos - 1 else pos)
                 else pos + 1)
      in if pos < 0 \<or> pos > 25 * 80 then Panic ''pos under/overflow''
         else
           let scroll = pos div 80 \<ge> 24;
               m = (if scroll then crt_scroll m' else m');
               pos = (if scroll then pos - 80 else pos);
               m = (if scroll then crt_clear m (nat pos) else m)
           in Ok () (s\<lparr>crt_pos := pos, crt := m(nat pos := 0x720)\<rparr>))"

definition consputc :: "u32 \<Rightarrow> kstate \<Rightarrow> (kstate, unit) res" where
  "consputc c s =
     (let s = (if c = BACKSPACE then uartputc 8 (uartputc 32 (uartputc 8 s))
               else uartputc (ucast c) s)
      in cgaputc c s)"

text \<open>The loops that print a buffer or a string byte by byte.\<close>

primrec consputs :: "u8 list \<Rightarrow> kstate \<Rightarrow> (kstate, unit) res" where
  "consputs [] s = Ok () s"
| "consputs (c # cs) s = bind (consputc (ucast c) s) (\<lambda>_ s. consputs cs s)"

section \<open>\<open>cprintf\<close>\<close>

fun cprintf_loop :: "u8 list \<Rightarrow> fmt_arg list \<Rightarrow> kstate \<Rightarrow> (kstate, unit) res" where
  "cprintf_loop [] argp s = Undef"
| "cprintf_loop (c # fmt) argp s =
     (if c = 0 then Ok () s
      else if c \<noteq> 37 then bind (consputc (ucast c) s) (\<lambda>_ s. cprintf_loop fmt argp s)
      else case fmt of [] \<Rightarrow> Undef
           | d # fmt \<Rightarrow>
               if d = 0 then Ok () s
               else if d = 100 then
                 (case argp of AInt x # argp \<Rightarrow>
                    bind (consputs (printint x 10 True) s) (\<lambda>_ s. cprintf_loop fmt argp s)
                  | _ \<Rightarrow> Undef)
               else if d = 120 \<or> d = 112 then
                 (case argp of AInt x # argp \<Rightarrow>
                    bind (consputs (printint x 16 False) s) (\<lambda>_ s. cprintf_loop fmt argp s)
                  | _ \<Rightarrow> Undef)
               else if d = 115 then
                 (case argp of AStr a # argp \<Rightarrow>
                    (case arg_str a of None \<Rightarrow> Undef
                     | Some bs \<Rightarrow> bind (consputs bs s) (\<lambda>_ s. cprintf_loop fmt argp s))
                  | _ \<Rightarrow> Undef)
               else if d = 37 then bind (consputc 37 s) (\<lambda>_ s. cprintf_loop fmt argp s)
               else bind (consputc 37 s) (\<lambda>_ s.
                    bind (consputc (ucast d) s) (\<lambda>_ s. cprintf_loop fmt argp s)))"

definition cprintf :: "u8 list option \<Rightarrow> fmt_arg list \<Rightarrow> kstate \<Rightarrow> (kstate, unit) res" where
  "cprintf fmt argp s =
     (let locking = cons_locking s in
      bind (if locking then acquire ConsLock s else Ok () s) (\<lambda>_ s.
        case fmt of None \<Rightarrow> Panic ''null fmt''
        | Some fmt \<Rightarrow>
            bind (cprintf_loop fmt argp s) (\<lambda>_ s.
              if locking then release ConsLock s else Ok () s)))"

section \<open>The display stays in bounds\<close>

definition crt_ok :: "kstate \<Rightarrow> bool" where
  "crt_ok s \<longleftrightarrow> 0 \<le> crt_pos s \<and> crt_pos s < 24 * 80"

text \<open>The state after some output: only the line, the cells and the cursor differ.\<close>

definition printed :: "u8 list \<Rightarrow> kstate \<Rightarrow> kstate \<Rightarrow> bool" where
  "printed bs s t \<longleftrightarrow> (\<exists>m pos. t = s\<lparr>cons_out := cons_out s @ (if uart s then bs else []),
       crt_pos := pos, crt := m\<rparr> \<and> 0 \<le> pos \<and> pos < 24 * 80
       \<and> (\<forall>i. 24 * 80 \<le> i \<longrightarrow> m i = crt s i))"

lemma cga_scroll_ok:
  assumes "0 \<le> p" "p \<le> 24 * 80" "\<And>i. 24 * 80 \<le> i \<Longrightarrow> m i = m0 i"
  shows "\<exists>m' q. (if p < 0 \<or> p > 25 * 80 then Panic ''pos under/overflow''
      else
        let scroll = p div 80 \<ge> 24;
            m = (if scroll then crt_scroll m else m);
            pos = (if scroll then p - 80 else p);
            m = (if scroll then crt_clear m (nat pos) else m)
        in Ok () (s\<lparr>crt_pos := pos, crt := m(nat pos := 0x720)\<rparr>))
    = Ok () (s\<lparr>crt_pos := q, crt := m'\<rparr>) \<and> 0 \<le> q \<and> q < 24 * 80
    \<and> (\<forall>i. 24 * 80 \<le> i \<longrightarrow> m' i = m0 i)"
proof (cases "p = 24 * 80")
  case True
  then show ?thesis
    using assms by (intro exI [of _ "(crt_clear (crt_scroll m) 1840)(1840 := 0x720)"] exI [of _ 1840])
      (auto simp: crt_clear_def crt_scroll_def)
next
  case False
  with assms have "\<not> p div 80 \<ge> 24" "p < 24 * 80" by presburger+
  then show ?thesis
    using assms by (intro exI [of _ "m(nat p := 0x720)"] exI [of _ p]) auto
qed

lemma cgaputc_ok:
  assumes "crt_ok s"
  shows "\<exists>m pos. cgaputc c s = Ok () (s\<lparr>crt_pos := pos, crt := m\<rparr>) \<and> 0 \<le> pos \<and> pos < 24 * 80
     \<and> (\<forall>i. 24 * 80 \<le> i \<longrightarrow> m i = crt s i)"
proof -
  have "crt_pos s + (80 - crt_pos s mod 80) \<le> 24 * 80"
    using assms by (simp add: crt_ok_def) presburger
  with assms show ?thesis
    unfolding cgaputc_def Let_def
    by (intro cga_scroll_ok [unfolded Let_def]) (auto simp: crt_ok_def)
qed

lemma consputc_printed:
  assumes "crt_ok s" "c \<noteq> BACKSPACE"
  shows "\<exists>t. consputc c s = Ok () t \<and> printed [ucast c] s t"
proof -
  let ?s = "uartputc (ucast c) s"
  have "crt_ok ?s" using assms(1) by (simp add: crt_ok_def uartputc_def)
  from cgaputc_ok [OF this, of c] obtain m pos where
    r: "cgaputc c ?s = Ok () (?s\<lparr>crt_pos := pos, crt := m\<rparr>)" "0 \<le> pos" "pos < 24 * 80"
       "\<forall>i. 24 * 80 \<le> i \<longrightarrow> m i = crt ?s i" by blast
  then have "printed [ucast c] s (?s\<lparr>crt_pos := pos, crt := m\<rparr>)"
    unfolding printed_def uartputc_def by (intro exI [of _ m] exI [of _ pos]) simp
  with r(1) assms(2) show ?thesis by (simp add: consputc_def)
qed

lemma printed_crt_ok: "printed bs s t \<Longrightarrow> crt_ok t"
  by (auto simp: printed_def crt_ok_def)

lemma printed_refl: "crt_ok s \<Longrightarrow> printed [] s s"
  unfolding printed_def crt_ok_def by (intro exI [of _ "crt s"] exI [of _ "crt_pos s"]) simp

lemma printed_trans: "printed as s t \<Longrightarrow> printed bs t u \<Longrightarrow> printed (as @ bs) s u"
  unfolding printed_def by (elim exE conjE) (auto intro!: exI)

lemma byte_not_backspace [simp]: "(ucast (c :: u8) :: u32) \<noteq> 256"
proof
  assume "(ucast c :: u32) = 256"
  then have "unat (ucast c :: u32) = 256" by simp
  moreover have "unat c < 256" using unsigned_less [of c] by simp
  ultimately show False by (simp add: unsigned_ucast_eq take_bit_nat_eq_self)
qed

lemma ucast_byte_u32 [simp]: "(ucast (ucast (c :: u8) :: u32) :: u8) = c"
  by (intro bit_word_eqI) (simp add: bit_ucast_iff)

lemma consputc_byte: "crt_ok s \<Longrightarrow> \<exists>t. consputc (ucast (c :: u8)) s = Ok () t \<and> printed [c] s t"
  using consputc_printed [of s "ucast c"] by simp

lemma consputs_printed: "crt_ok s \<Longrightarrow> \<exists>t. consputs bs s = Ok () t \<and> printed bs s t"
proof (induction bs arbitrary: s)
  case Nil
  then show ?case by (simp add: printed_refl)
next
  case (Cons b bs)
  from consputc_byte [OF Cons.prems] obtain t where t: "consputc (ucast b) s = Ok () t"
    "printed [b] s t" by blast
  from Cons.IH [OF printed_crt_ok [OF t(2)]] obtain u where
    u: "consputs bs t = Ok () u" "printed bs t u" by blast
  from printed_trans [OF t(2) u(2)] t(1) u(1) show ?case by simp
qed

text \<open>Printing some bytes and then the rest.\<close>

lemma consputs_then:
  assumes "crt_ok s" "\<And>t. crt_ok t \<Longrightarrow> \<exists>u. f t = Ok () u \<and> printed out t u"
  shows "\<exists>u. bind (consputs bs s) (\<lambda>_ t. f t) = Ok () u \<and> printed (bs @ out) s u"
proof -
  from consputs_printed [OF assms(1)] obtain t where t: "consputs bs s = Ok () t" "printed bs s t"
    by blast
  from assms(2) [OF printed_crt_ok [OF t(2)]] obtain u where u: "f t = Ok () u" "printed out t u"
    by blast
  from printed_trans [OF t(2) u(2)] t(1) u(1) show ?thesis by simp
qed

lemma consputc_then:
  assumes "crt_ok s" "\<And>t. crt_ok t \<Longrightarrow> \<exists>u. f t = Ok () u \<and> printed out t u"
  shows "\<exists>u. bind (consputc (ucast b) s) (\<lambda>_ t. f t) = Ok () u \<and> printed (b # out) s u"
  using consputs_then [OF assms, of "[b]"] by simp

section \<open>\<open>cprintf\<close> and \<open>printf\<close> agree\<close>

text \<open>Formats without the directives on which the two differ: \<open>%c\<close>, \<open>%x\<close> and \<open>%p\<close>.\<close>

fun plain_fmt :: "u8 list \<Rightarrow> bool" where
  "plain_fmt (c # d # fmt) \<longleftrightarrow>
     (if c = 37 then d \<notin> {99, 120, 112} \<and> plain_fmt fmt else plain_fmt (d # fmt))"
| "plain_fmt fmt \<longleftrightarrow> True"

lemma printint_decimal: "printint x 10 sg = u_printint x 10 sg"
proof -
  have "put_digits digits_lower 10 y = put_digits digits_upper 10 y" for y
  proof -
    have "digits_lower ! d = digits_upper ! d" if "d < 10" for d
      using that by (auto simp: digits_lower_def digits_upper_def bytes_def numeral_eq_Suc less_Suc_eq)
    then show ?thesis using nat_digits_less [of 10 _ "unat y"] by (simp add: put_digits_nat)
  qed
  then show ?thesis by (simp add: printint_def u_printint_def)
qed

lemma cprintf_loop_printed:
  assumes "u_printf False fmt ap = Some out" "plain_fmt fmt" "crt_ok s"
  shows "\<exists>t. cprintf_loop fmt ap s = Ok () t \<and> printed out s t"
  using assms
proof (induction fmt arbitrary: ap out s rule: plain_fmt.induct)
  case (1 c d fmt)
  show ?case
  proof (cases "c = 37")
    case False
    show ?thesis
    proof (cases "c = 0")
      case False
      with \<open>c \<noteq> 37\<close> "1.prems" obtain out' where
        o: "u_printf False (d # fmt) ap = Some out'" "out = c # out'" by (auto simp del: u_printf.simps(2) simp: u_printf.simps(2) [of _ c])
      have "\<exists>u. bind (consputc (ucast c) s) (\<lambda>_ t. cprintf_loop (d # fmt) ap t) = Ok () u
          \<and> printed (c # out') s u"
        using "1.IH"(2) \<open>c \<noteq> 37\<close> o(1) "1.prems" by (intro consputc_then) auto
      with \<open>c \<noteq> 37\<close> False o(2) show ?thesis
        by (simp only: cprintf_loop.simps(2) [of c] simp_thms if_True if_False)
    qed (use "1.prems" in \<open>simp add: printed_refl\<close>)
  next
    case pct: True
    have IH: "\<exists>u. cprintf_loop fmt ap t = Ok () u \<and> printed out' t u"
      if "u_printf False fmt ap = Some out'" "crt_ok t" for ap out' t
      using "1.IH"(1) pct "1.prems"(2) that by simp
    have o: "u_printf True (d # fmt) ap = Some out" using "1.prems"(1) pct by simp
    have nd: "d \<noteq> 99" "d \<noteq> 120" "d \<noteq> 112" using "1.prems"(2) pct by auto
    consider "d = 0" | "d = 100" | "d = 115" | "d = 37" | "d \<notin> {0, 100, 115, 37}" by blast
    then show ?thesis
    proof cases
      case 1
      with o pct "1.prems"(3) show ?thesis by (auto simp: printed_refl)
    next
      case 2
      with o obtain x ap' out' where ap: "ap = AInt x # ap'" "u_printf False fmt ap' = Some out'"
        "out = printint x 10 True @ out'"
        by (auto simp: printint_decimal split: list.splits fmt_arg.splits)
      from consputs_then [OF "1.prems"(3) IH [OF ap(2)]] 2 pct ap(1,3) show ?thesis by simp
    next
      case 3
      with o obtain a ap' bs out' where ap: "ap = AStr a # ap'" "arg_str a = Some bs"
        "u_printf False fmt ap' = Some out'" "out = bs @ out'"
        by (auto split: list.splits fmt_arg.splits option.splits)
      from consputs_then [OF "1.prems"(3) IH [OF ap(3)]] 3 pct ap(1,2,4) show ?thesis by simp
    next
      case 4
      with o obtain out' where "u_printf False fmt ap = Some out'" "out = 37 # out'" by auto
      with consputc_then [OF "1.prems"(3), of "\<lambda>t. cprintf_loop fmt ap t" out' 37] IH 4 pct show ?thesis by simp
    next
      case 5
      with o nd obtain out' where o': "u_printf False fmt ap = Some out'" "out = 37 # d # out'"
        by auto
      have "\<exists>u. bind (consputc (ucast (37 :: u8)) s) (\<lambda>_ t. bind (consputc (ucast d) t)
          (\<lambda>_ t. cprintf_loop fmt ap t)) = Ok () u \<and> printed (37 # d # out') s u"
        using "1.prems"(3) IH [OF o'(1)] by (intro consputc_then)
      with 5 nd pct o'(2) show ?thesis by simp
    qed
  qed
qed (auto simp: printed_refl split: if_splits)

lemma cprintf_ok:
  assumes "u_printf False fmt ap = Some out" and "plain_fmt fmt"
    and "crt_ok s" and "cpu_ok s" and "lock_free ConsLock s"
  shows "\<exists>t. cprintf (Some fmt) ap s = Ok () t \<and> printed out s t"
proof (cases "cons_locking s")
  case True
  let ?s = "taken ConsLock s"
  have "crt_ok ?s" using assms(3) by (simp add: crt_ok_def)
  from cprintf_loop_printed [OF assms(1,2) this] obtain m pos where
    m: "cprintf_loop fmt ap ?s = Ok () (?s\<lparr>cons_out := cons_out s @ (if uart s then out else []),
       crt_pos := pos, crt := m\<rparr>)" "0 \<le> pos" "pos < 24 * 80" "\<forall>i. 24 * 80 \<le> i \<longrightarrow> m i = crt s i"
    by (auto simp: printed_def)
  then show ?thesis
    using True assms(4,5) by (auto simp: cprintf_def acquire_ready release_taken printed_def)
next
  case False
  with cprintf_loop_printed [OF assms(1-3)] show ?thesis by (auto simp: cprintf_def)
qed

text \<open>
  C5. For every format without \<open>%c\<close>, \<open>%x\<close> and \<open>%p\<close> and with the arguments it asks for, the kernel's
  \<open>cprintf\<close> sends to the serial line exactly the bytes the user library's \<open>printf\<close> writes, keeps
  the cursor on the display and gives its lock back.
\<close>

theorem cprintf_prints:
  assumes "u_printf False fmt ap = Some out" and "plain_fmt fmt"
    and "crt_ok s" and "cpu_ok s" and "lock_free ConsLock s"
  shows "\<exists>t. cprintf (Some fmt) ap s = Ok () t \<and> printed out s t"
  using assms by (rule cprintf_ok)

theorem cprintf_prints_witness:
  "\<exists>t. cprintf (Some (lit ''cpu%d: %s'')) [AInt 7, AStr (Some (lit ''ok''))] one_cpu = Ok () t
     \<and> printed (bytes ''cpu7: ok'') one_cpu t"
proof (rule cprintf_prints)
  show "u_printf False (lit ''cpu%d: %s'') [AInt 7, AStr (Some (lit ''ok''))] = Some (bytes ''cpu7: ok'')"
    by (simp add: lit_def bytes_def u_printint_def put_digits.simps digits_upper_def arg_str_def)
  show "plain_fmt (lit ''cpu%d: %s'')" by (simp add: lit_def bytes_def)
  show "crt_ok one_cpu" by (simp add: crt_ok_def one_cpu_def kstate0_def)
qed (use quiet_one_cpu in blast)+

end
