(* ===== verification/Vm.thy ===== *)
theory Vm
  imports ConsOut
begin

text \<open>
  Page tables (\<open>vm.c\<close>, with the address macros of \<open>mmu.h\<close>). Page directories and page tables are
  pages of \<open>mem\<close> and their entries are read and written there, as the code does. \<open>loaduvm\<close> reads
  a file and is with the program loader; \<open>seginit\<close> only loads a constant segment table.

  A loop over the pages of the address space gets \<open>PAGES\<close> rounds, one more than there are pages;
  a loop that is still running after that many rounds never ends and is \<open>Spin\<close>.
\<close>

section \<open>Addresses and entries\<close>

definition PDX :: "u32 \<Rightarrow> u32" where
  "PDX va = drop_bit 22 va AND 0x3FF"

definition PTX :: "u32 \<Rightarrow> u32" where
  "PTX va = drop_bit 12 va AND 0x3FF"

definition PGADDR :: "u32 \<Rightarrow> u32 \<Rightarrow> u32 \<Rightarrow> u32" where
  "PGADDR d t off = push_bit 22 d OR push_bit 12 t OR off"

definition PTE_ADDR :: "u32 \<Rightarrow> u32" where
  "PTE_ADDR pte = pte AND NOT 0xFFF"

definition PTE_FLAGS :: "u32 \<Rightarrow> u32" where
  "PTE_FLAGS pte = pte AND 0xFFF"

abbreviation (input) PTE_P :: u32 where "PTE_P \<equiv> 1"
abbreviation (input) PTE_W :: u32 where "PTE_W \<equiv> 2"
abbreviation (input) PTE_U :: u32 where "PTE_U \<equiv> 4"
abbreviation (input) PAGES :: nat where "PAGES \<equiv> 1048577"
abbreviation (input) KERNLINK :: u32 where "KERNLINK \<equiv> 0x80100000"

text \<open>Bytes copied to memory from a buffer elsewhere.\<close>

primrec write_bytes :: "(u32 \<Rightarrow> u8) \<Rightarrow> u32 \<Rightarrow> u8 list \<Rightarrow> (u32 \<Rightarrow> u8)" where
  "write_bytes m a [] = m"
| "write_bytes m a (b # bs) = write_bytes (m(a := b)) (a + 1) bs"

section \<open>Walking and mapping\<close>

definition walkpgdir :: "u32 \<Rightarrow> u32 \<Rightarrow> bool \<Rightarrow> kstate \<Rightarrow> (kstate, u32) res" where
  "walkpgdir pgdir va alloc s =
     (let pde = pgdir + 4 * PDX va in
      if read32 (mem s) pde AND PTE_P \<noteq> 0
      then Ok (P2V (PTE_ADDR (read32 (mem s) pde)) + 4 * PTX va) s
      else if \<not> alloc then Ok 0 s
      else bind (kalloc s) (\<lambda>pgtab s.
        if pgtab = 0 then Ok 0 s
        else
          let s = s\<lparr>mem := memset (mem s) pgtab 0 PGSIZE\<rparr>;
              s = s\<lparr>mem := write32 (mem s) pde (V2P pgtab OR PTE_P OR PTE_W OR PTE_U)\<rparr>
          in Ok (pgtab + 4 * PTX va) s))"

fun mappages_loop :: "nat \<Rightarrow> u32 \<Rightarrow> u32 \<Rightarrow> u32 \<Rightarrow> u32 \<Rightarrow> u32 \<Rightarrow> kstate \<Rightarrow> (kstate, int) res" where
  "mappages_loop 0 pgdir a lst pa perm s = Spin"
| "mappages_loop (Suc n) pgdir a lst pa perm s =
     bind (walkpgdir pgdir a True s) (\<lambda>pte s.
       if pte = 0 then Ok (-1) s
       else if read32 (mem s) pte AND PTE_P \<noteq> 0 then Panic ''remap''
       else
         let s = s\<lparr>mem := write32 (mem s) pte (pa OR perm OR PTE_P)\<rparr> in
         if a = lst then Ok 0 s
         else mappages_loop n pgdir (a + PGSIZE) lst (pa + PGSIZE) perm s)"

definition mappages :: "u32 \<Rightarrow> u32 \<Rightarrow> u32 \<Rightarrow> u32 \<Rightarrow> u32 \<Rightarrow> kstate \<Rightarrow> (kstate, int) res" where
  "mappages pgdir va sz pa perm s =
     (let a = PGROUNDDOWN va; lst = PGROUNDDOWN (va + sz - 1)
      in mappages_loop PAGES pgdir a lst pa perm s)"

section \<open>Giving pages back\<close>

fun deallocuvm_loop :: "nat \<Rightarrow> u32 \<Rightarrow> u32 \<Rightarrow> u32 \<Rightarrow> kstate \<Rightarrow> (kstate, unit) res" where
  "deallocuvm_loop 0 pgdir a oldsz s = Spin"
| "deallocuvm_loop (Suc n) pgdir a oldsz s =
     (if a < oldsz then
        bind (walkpgdir pgdir a False s) (\<lambda>pte s.
          if pte = 0 then
            let a = PGADDR (PDX a + 1) 0 0 - PGSIZE
            in deallocuvm_loop n pgdir (a + PGSIZE) oldsz s
          else if read32 (mem s) pte AND PTE_P \<noteq> 0 then
            let pa = PTE_ADDR (read32 (mem s) pte) in
            if pa = 0 then Panic ''kfree''
            else
              bind (kfree (P2V pa) s) (\<lambda>_ s.
                let s = s\<lparr>mem := write32 (mem s) pte 0\<rparr>
                in deallocuvm_loop n pgdir (a + PGSIZE) oldsz s)
          else deallocuvm_loop n pgdir (a + PGSIZE) oldsz s)
      else Ok () s)"

definition deallocuvm :: "u32 \<Rightarrow> u32 \<Rightarrow> u32 \<Rightarrow> kstate \<Rightarrow> (kstate, u32) res" where
  "deallocuvm pgdir oldsz newsz s =
     (if newsz \<ge> oldsz then Ok oldsz s
      else bind (deallocuvm_loop PAGES pgdir (PGROUNDUP newsz) oldsz s) (\<lambda>_ s. Ok newsz s))"

primrec freevm_loop :: "nat list \<Rightarrow> u32 \<Rightarrow> kstate \<Rightarrow> (kstate, unit) res" where
  "freevm_loop [] pgdir s = Ok () s"
| "freevm_loop (i # is) pgdir s =
     (let pde = read32 (mem s) (pgdir + 4 * of_nat i) in
      bind (if pde AND PTE_P \<noteq> 0 then kfree (P2V (PTE_ADDR pde)) s else Ok () s)
        (\<lambda>_ s. freevm_loop is pgdir s))"

definition freevm :: "u32 \<Rightarrow> kstate \<Rightarrow> (kstate, unit) res" where
  "freevm pgdir s =
     (if pgdir = 0 then Panic ''freevm: no pgdir''
      else bind (deallocuvm pgdir KERNBASE 0 s) (\<lambda>_ s.
           bind (freevm_loop [0..<1024] pgdir s) (\<lambda>_ s.
             kfree pgdir s)))"

section \<open>Kernel part of an address space\<close>

text \<open>The table \<open>kmap\<close>: virtual start, physical start and end, permissions.\<close>

definition kmap :: "kstate \<Rightarrow> (u32 \<times> u32 \<times> u32 \<times> u32) list" where
  "kmap s = [(KERNBASE, 0, EXTMEM, PTE_W),
             (KERNLINK, V2P KERNLINK, V2P (kdata s), 0),
             (kdata s, V2P (kdata s), PHYSTOP, PTE_W),
             (DEVSPACE, DEVSPACE, 0, PTE_W)]"

primrec setupkvm_loop :: "(u32 \<times> u32 \<times> u32 \<times> u32) list \<Rightarrow> u32 \<Rightarrow> kstate \<Rightarrow> (kstate, u32) res" where
  "setupkvm_loop [] pgdir s = Ok pgdir s"
| "setupkvm_loop (k # ks) pgdir s =
     (case k of (virt, phys_start, phys_end, perm) \<Rightarrow>
        bind (mappages pgdir virt (phys_end - phys_start) phys_start perm s) (\<lambda>r s.
          if r < 0 then bind (freevm pgdir s) (\<lambda>_ s. Ok 0 s)
          else setupkvm_loop ks pgdir s))"

definition setupkvm :: "kstate \<Rightarrow> (kstate, u32) res" where
  "setupkvm s =
     bind (kalloc s) (\<lambda>pgdir s.
       if pgdir = 0 then Ok 0 s
       else
         let s = s\<lparr>mem := memset (mem s) pgdir 0 PGSIZE\<rparr> in
         if P2V PHYSTOP > DEVSPACE then Panic ''PHYSTOP too high''
         else setupkvm_loop (kmap s) pgdir s)"

definition lcr3 :: "u32 \<Rightarrow> kstate \<Rightarrow> kstate" where
  "lcr3 v s = (case this_cpu s of None \<Rightarrow> s | Some c \<Rightarrow> upd_cpu c (\<lambda>k. k\<lparr>cr3 := v\<rparr>) s)"

definition switchkvm :: "kstate \<Rightarrow> kstate" where
  "switchkvm s = lcr3 (V2P (kpgdir s)) s"

definition kvmalloc :: "kstate \<Rightarrow> (kstate, unit) res" where
  "kvmalloc s = bind (setupkvm s) (\<lambda>d s. Ok () (switchkvm (s\<lparr>kpgdir := d\<rparr>)))"

text \<open>\<open>switchuvm\<close>; the segment descriptor of the task state is constant and not in the model.\<close>

definition switchuvm :: "nat option \<Rightarrow> kstate \<Rightarrow> (kstate, unit) res" where
  "switchuvm p s =
     (case p of None \<Rightarrow> Panic ''switchuvm: no process''
      | Some p \<Rightarrow>
          let q = procs s ! p in
          if p_kstack q = 0 then Panic ''switchuvm: no kstack''
          else if p_pgdir q = 0 then Panic ''switchuvm: no pgdir''
          else
            bind (pushcli s) (\<lambda>_ s.
            bind (mycpu s) (\<lambda>c s.
              let s = upd_cpu c (\<lambda>k. k\<lparr>ts_ss0 := push_bit 3 2, ts_esp0 := p_kstack q + KSTACKSIZE,
                        ts_iomb := 0xFFFF\<rparr>) s;
                  s = lcr3 (V2P (p_pgdir q)) s
              in popcli s)))"

section \<open>User part of an address space\<close>

definition inituvm :: "u32 \<Rightarrow> u32 \<Rightarrow> u32 \<Rightarrow> kstate \<Rightarrow> (kstate, unit) res" where
  "inituvm pgdir init sz s =
     (if sz \<ge> PGSIZE then Panic ''inituvm: more than a page''
      else bind (kalloc s) (\<lambda>pg s.
        if pg = 0 then Undef
        else
          let s = s\<lparr>mem := memset (mem s) pg 0 PGSIZE\<rparr> in
          bind (mappages pgdir 0 PGSIZE (V2P pg) (PTE_W OR PTE_U) s) (\<lambda>_ s.
            Ok () (s\<lparr>mem := memmove (mem s) pg init sz\<rparr>))))"

fun allocuvm_loop :: "nat \<Rightarrow> u32 \<Rightarrow> u32 \<Rightarrow> u32 \<Rightarrow> u32 \<Rightarrow> kstate \<Rightarrow> (kstate, u32) res" where
  "allocuvm_loop 0 pgdir a oldsz newsz s = Spin"
| "allocuvm_loop (Suc n) pgdir a oldsz newsz s =
     (if a < newsz then
        bind (kalloc s) (\<lambda>pg s.
          if pg = 0 then
            bind (cprintf (Some (lit (''allocuvm out of memory'' @ [CHR 0x0A]))) [] s) (\<lambda>_ s.
            bind (deallocuvm pgdir newsz oldsz s) (\<lambda>_ s. Ok 0 s))
          else
            let s = s\<lparr>mem := memset (mem s) pg 0 PGSIZE\<rparr> in
            bind (mappages pgdir a PGSIZE (V2P pg) (PTE_W OR PTE_U) s) (\<lambda>r s.
              if r < 0 then
                bind (cprintf (Some (lit (''allocuvm out of memory (2)'' @ [CHR 0x0A]))) [] s) (\<lambda>_ s.
                bind (deallocuvm pgdir newsz oldsz s) (\<lambda>_ s.
                bind (kfree pg s) (\<lambda>_ s. Ok 0 s)))
              else allocuvm_loop n pgdir (a + PGSIZE) oldsz newsz s))
      else Ok newsz s)"

definition allocuvm :: "u32 \<Rightarrow> u32 \<Rightarrow> u32 \<Rightarrow> kstate \<Rightarrow> (kstate, u32) res" where
  "allocuvm pgdir oldsz newsz s =
     (if newsz \<ge> KERNBASE then Ok 0 s
      else if newsz < oldsz then Ok oldsz s
      else allocuvm_loop PAGES pgdir (PGROUNDUP oldsz) oldsz newsz s)"

definition clearpteu :: "u32 \<Rightarrow> u32 \<Rightarrow> kstate \<Rightarrow> (kstate, unit) res" where
  "clearpteu pgdir uva s =
     bind (walkpgdir pgdir uva False s) (\<lambda>pte s.
       if pte = 0 then Panic ''clearpteu''
       else Ok () (s\<lparr>mem := write32 (mem s) pte (read32 (mem s) pte AND NOT PTE_U)\<rparr>))"

fun copyuvm_loop :: "nat \<Rightarrow> u32 \<Rightarrow> u32 \<Rightarrow> u32 \<Rightarrow> u32 \<Rightarrow> kstate \<Rightarrow> (kstate, u32) res" where
  "copyuvm_loop 0 pgdir d i sz s = Spin"
| "copyuvm_loop (Suc n) pgdir d i sz s =
     (if i < sz then
        bind (walkpgdir pgdir i False s) (\<lambda>pte s.
          if pte = 0 then Panic ''copyuvm: pte should exist''
          else
            let e = read32 (mem s) pte in
            if e AND PTE_P = 0 then Panic ''copyuvm: page not present''
            else
              let pa = PTE_ADDR e; flags = PTE_FLAGS e in
              bind (kalloc s) (\<lambda>pg s.
                if pg = 0 then bind (freevm d s) (\<lambda>_ s. Ok 0 s)
                else
                  let s = s\<lparr>mem := memmove (mem s) pg (P2V pa) PGSIZE\<rparr> in
                  bind (mappages d i PGSIZE (V2P pg) flags s) (\<lambda>r s.
                    if r < 0 then
                      bind (kfree pg s) (\<lambda>_ s. bind (freevm d s) (\<lambda>_ s. Ok 0 s))
                    else copyuvm_loop n pgdir d (i + PGSIZE) sz s)))
      else Ok d s)"

definition copyuvm :: "u32 \<Rightarrow> u32 \<Rightarrow> kstate \<Rightarrow> (kstate, u32) res" where
  "copyuvm pgdir sz s =
     bind (setupkvm s) (\<lambda>d s.
       if d = 0 then Ok 0 s else copyuvm_loop PAGES pgdir d 0 sz s)"

text \<open>\<open>uva2ka\<close> reads through the entry's address without testing it for null.\<close>

definition uva2ka :: "u32 \<Rightarrow> u32 \<Rightarrow> kstate \<Rightarrow> (kstate, u32) res" where
  "uva2ka pgdir uva s =
     bind (walkpgdir pgdir uva False s) (\<lambda>pte s.
       if pte = 0 then Undef
       else
         let e = read32 (mem s) pte in
         if e AND PTE_P = 0 then Ok 0 s
         else if e AND PTE_U = 0 then Ok 0 s
         else Ok (P2V (PTE_ADDR e)) s)"

text \<open>\<open>copyout\<close>; \<open>buf\<close> is the \<open>len\<close> bytes still to be copied.\<close>

function copyout :: "u32 \<Rightarrow> u32 \<Rightarrow> u8 list \<Rightarrow> kstate \<Rightarrow> (kstate, int) res" where
  "copyout pgdir va buf s =
     (if buf = [] then Ok 0 s
      else
        let va0 = PGROUNDDOWN va in
        bind (uva2ka pgdir va0 s) (\<lambda>pa0 s.
          if pa0 = 0 then Ok (-1) s
          else
            let n = min (unat (PGSIZE - (va - va0))) (length buf);
                s = s\<lparr>mem := write_bytes (mem s) (pa0 + (va - va0)) (take n buf)\<rparr>
            in copyout pgdir (va0 + PGSIZE) (drop n buf) s))"
  by pat_completeness auto

lemma unat_page_offset: "unat (va - PGROUNDDOWN va) = unat va mod 4096"
proof -
  have "PGROUNDDOWN va \<le> va" by (simp add: word_le_nat_alt unat_PGROUNDDOWN)
  then show ?thesis by (simp add: unat_sub unat_PGROUNDDOWN minus_div_mult_eq_mod)
qed

lemma unat_page_rest: "unat (PGSIZE - (va - PGROUNDDOWN va)) = 4096 - unat va mod 4096"
proof -
  have "va - PGROUNDDOWN va \<le> PGSIZE"
    using mod_less_divisor [of 4096 "unat va"] by (simp add: word_le_nat_alt unat_page_offset)
  then show ?thesis by (simp add: unat_sub unat_page_offset)
qed

termination copyout
proof (relation "measure (\<lambda>(pgdir, va, buf, s). length buf)")
  fix va :: u32 and buf :: "u8 list"
  assume "buf \<noteq> []"
  moreover have "0 < unat (PGSIZE - (va - PGROUNDDOWN va))"
    using mod_less_divisor [of 4096 "unat va"] by (simp add: unat_page_rest)
  ultimately have "length (drop (min (unat (PGSIZE - (va - PGROUNDDOWN va))) (length buf)) buf) < length buf"
    by (cases buf) auto
  then show "\<And>pgdir s pa0 t va0 n s'. va0 = PGROUNDDOWN va \<Longrightarrow>
       n = min (unat (PGSIZE - (va - va0))) (length buf) \<Longrightarrow>
       ((pgdir, va0 + PGSIZE, drop n buf, s'), pgdir, va, buf, s)
         \<in> measure (\<lambda>(pgdir, va, buf, s). length buf)"
    by simp
qed simp

declare copyout.simps [simp del]

section \<open>Entries of page tables\<close>

definition word_aligned :: "u32 \<Rightarrow> bool" where
  "word_aligned a \<longleftrightarrow> unat a mod 4 = 0"

lemma unat_word_byte:
  assumes "word_aligned a" "k < 4"
  shows "unat (a + of_nat k) = unat a + k"
proof -
  have "unat a + k < 2 ^ 32"
    using assms unat32 [of a] by (auto simp: word_aligned_def elim!: dvdE)
  then show ?thesis
    using assms(2) by (subst unat_add_lem [THEN iffD1]) (simp_all add: unat_of_nat take_bit_nat_eq_self)
qed

lemma word_bytes_differ:
  assumes "word_aligned a" "word_aligned b" "a \<noteq> b" "k < 4" "l < 4"
  shows "a + of_nat k \<noteq> b + of_nat l"
proof
  assume "a + of_nat k = b + of_nat l"
  then have e: "unat a + k = unat b + l"
    using unat_word_byte [OF assms(1,4)] unat_word_byte [OF assms(2,5)] by simp
  moreover from assms(1,2) obtain i j where "unat a = 4 * i" "unat b = 4 * j"
    by (auto simp: word_aligned_def elim!: dvdE)
  ultimately have "k = l" using assms(4,5) by presburger
  with e assms(3) show False by (simp add: word_unat_eq_iff)
qed

lemma read32_write32_other:
  assumes "word_aligned a" "word_aligned b" "a \<noteq> b"
  shows "read32 (write32 m a w) b = read32 m b"
proof -
  have d: "b + of_nat l \<noteq> a + of_nat k" if "k < 4" "l < 4" for k l
    using word_bytes_differ [OF assms that] by simp
  have "write32 m a w (b + of_nat l) = m (b + of_nat l)" if "l < 4" for l
    using d [OF _ that, of 0] d [OF _ that, of 1] d [OF _ that, of 2] d [OF _ that, of 3]
    by (simp add: write32_def)
  from this [of 0] this [of 1] this [of 2] this [of 3] show ?thesis
    by (intro read32_cong) simp_all
qed

lemma unat_ent:
  assumes "pg_aligned p" "unat i < 1024"
  shows "unat (p + 4 * i) = unat p + 4 * unat i"
proof -
  have i: "unat (4 * i) = 4 * unat i"
    using assms(2) by (subst unat_mult_lem [THEN iffD1]) simp_all
  have "unat p + 4096 \<le> 2 ^ 32"
    using assms(1) unat32 [of p] by (auto simp: pg_aligned_iff elim!: dvdE)
  with assms(2) i show ?thesis by (subst unat_add_lem [THEN iffD1]) simp_all
qed

lemma word_aligned_ent: "pg_aligned p \<Longrightarrow> unat i < 1024 \<Longrightarrow> word_aligned (p + 4 * i)"
  by (auto simp: word_aligned_def unat_ent pg_aligned_iff elim!: dvdE)

lemma in_page_ent: "pg_aligned p \<Longrightarrow> unat i < 1024 \<Longrightarrow> in_page p (p + 4 * i)"
  by (simp add: in_block_def unat_mult_lem [THEN iffD1])

lemma in_page_word:
  assumes "pg_aligned p" "in_page p a" "word_aligned a" "k < 4"
  shows "in_page p (a + of_nat k)"
proof -
  have "unat a div 4096 = (unat a + k) div 4096"
    using assms(3,4) by (auto simp: word_aligned_def elim!: dvdE)
  with assms show ?thesis by (simp add: in_page_iff unat_word_byte)
qed

lemma ent_inject:
  assumes "pg_aligned p" "pg_aligned q" "unat i < 1024" "unat j < 1024" "p + 4 * i = q + 4 * j"
  shows "p = q \<and> i = j"
proof -
  have "p = q" using in_page_ent [of p i] in_page_ent [of q j] assms pages_disjoint by metis
  moreover from this assms unat_ent [of p i] unat_ent [of q j] have "unat i = unat j" by simp
  ultimately show ?thesis by (simp add: word_unat_eq_iff)
qed

lemma unat_PDX: "unat (PDX va) = unat va div 2 ^ 22"
proof -
  have m: "(0x3FF :: u32) = mask 10" by (simp add: mask_eq_exp_minus_1)
  have "unat va div 2 ^ 22 < 2 ^ 10" using unat32 [of va] by (simp add: less_mult_imp_div_less)
  then show ?thesis
    unfolding PDX_def m take_bit_eq_mask [symmetric]
    by (simp add: unsigned_take_bit_eq unsigned_drop_bit_eq drop_bit_eq_div take_bit_eq_mod
        unat_mod unat_div)
qed

lemma unat_PTX: "unat (PTX va) = unat va div 4096 mod 1024"
proof -
  have m: "(0x3FF :: u32) = mask 10" by (simp add: mask_eq_exp_minus_1)
  show ?thesis
    unfolding PTX_def m take_bit_eq_mask [symmetric]
    by (simp add: unsigned_take_bit_eq unsigned_drop_bit_eq drop_bit_eq_div take_bit_eq_mod
        unat_mod unat_div)
qed

lemma PDX_less [simp]: "unat (PDX va) < 1024"
  using unat32 [of va] by (simp add: unat_PDX less_mult_imp_div_less)

lemma PTX_less [simp]: "unat (PTX va) < 1024"
  by (simp add: unat_PTX)

definition same_page :: "u32 \<Rightarrow> u32 \<Rightarrow> bool" where
  "same_page a b \<longleftrightarrow> unat a div 4096 = unat b div 4096"

lemma same_page_iff: "same_page a b \<longleftrightarrow> PDX a = PDX b \<and> PTX a = PTX b"
proof -
  have d: "unat x div 4194304 = unat x div 4096 div 1024" for x :: u32
    using div_mult2_eq [of "unat x" 4096 1024] by simp
  have "unat a div 4096 = unat b div 4096 \<longleftrightarrow>
    unat a div 4096 div 1024 = unat b div 4096 div 1024 \<and> unat a div 4096 mod 1024 = unat b div 4096 mod 1024"
    by (metis div_mult_mod_eq)
  then show ?thesis by (simp add: same_page_def word_unat_eq_iff unat_PDX unat_PTX d)
qed

section \<open>What a page table means\<close>

definition pde_at :: "(u32 \<Rightarrow> u8) \<Rightarrow> u32 \<Rightarrow> u32 \<Rightarrow> u32" where
  "pde_at m d i = read32 m (d + 4 * i)"

definition present :: "(u32 \<Rightarrow> u8) \<Rightarrow> u32 \<Rightarrow> u32 \<Rightarrow> bool" where
  "present m d i \<longleftrightarrow> unat i < 1024 \<and> pde_at m d i AND PTE_P \<noteq> 0"

definition ptab :: "(u32 \<Rightarrow> u8) \<Rightarrow> u32 \<Rightarrow> u32 \<Rightarrow> u32" where
  "ptab m d i = P2V (PTE_ADDR (pde_at m d i))"

text \<open>The hardware's walk: the present entry for an address, if there is one.\<close>

definition translate :: "(u32 \<Rightarrow> u8) \<Rightarrow> u32 \<Rightarrow> u32 \<Rightarrow> u32 option" where
  "translate m d va =
     (if present m d (PDX va) then
        let e = read32 m (ptab m d (PDX va) + 4 * PTX va)
        in if e AND PTE_P \<noteq> 0 then Some e else None
      else None)"

text \<open>The pages an address space keeps its tables in.\<close>

definition pt_pages :: "(u32 \<Rightarrow> u8) \<Rightarrow> u32 \<Rightarrow> u32 set" where
  "pt_pages m d = insert d (ptab m d ` {i. present m d i})"

definition pt_wf :: "(u32 \<Rightarrow> u8) \<Rightarrow> u32 \<Rightarrow> bool" where
  "pt_wf m d \<longleftrightarrow> pg_aligned d \<and> inj_on (ptab m d) {i. present m d i}
     \<and> (\<forall>i. present m d i \<longrightarrow> ptab m d i \<noteq> d \<and> ptab m d i \<noteq> 0)"

definition vm_ok :: "kstate \<Rightarrow> u32 list \<Rightarrow> u32 \<Rightarrow> bool" where
  "vm_ok s xs d \<longleftrightarrow> km_inv s xs \<and> pt_wf (mem s) d \<and> pt_pages (mem s) d \<inter> set xs = {}"

lemma present_PDX [simp]: "present m d (PDX va) \<longleftrightarrow> pde_at m d (PDX va) AND PTE_P \<noteq> 0"
  by (simp add: present_def)

lemma pg_aligned_bits: "pg_aligned p \<longleftrightarrow> (\<forall>k < 12. \<not> bit p k)"
proof -
  have "pg_aligned p \<longleftrightarrow> take_bit 12 p = 0"
    by (simp add: pg_aligned_def take_bit_eq_mod)
  also have "\<dots> \<longleftrightarrow> (\<forall>k < 12. \<not> bit p k)"
    by (auto simp: bit_eq_iff bit_take_bit_iff dest: bit_imp_le_length)
  finally show ?thesis .
qed

lemma NOT_0xFFF: "NOT 0xFFF = NOT (mask 12 :: u32)"
  by (simp add: mask_eq_exp_minus_1)

lemma bit_PTE_ADDR: "bit (PTE_ADDR e) k \<longleftrightarrow> 12 \<le> k \<and> bit e k"
  unfolding PTE_ADDR_def NOT_0xFFF by (auto simp: bit_simps dest: bit_imp_le_length)

lemma pg_aligned_P2V: "pg_aligned a \<Longrightarrow> pg_aligned (P2V a)"
proof -
  assume "pg_aligned a"
  then have "unat a mod 4096 = 0" by (simp add: pg_aligned_iff)
  then have "4096 dvd unat a + 0x80000000" by (intro dvd_add) (simp_all add: mod_0_imp_dvd)
  then have "(unat a + 0x80000000) mod 2 ^ 32 mod 4096 = 0"
    by (subst mod_mod_cancel) simp_all
  then show ?thesis by (simp add: pg_aligned_iff P2V_def unat_word_ariths)
qed

lemma pg_aligned_ptab [simp]: "pg_aligned (ptab m d i)"
  unfolding ptab_def by (intro pg_aligned_P2V) (simp add: pg_aligned_bits bit_PTE_ADDR)

text \<open>An entry made of a page's address and flags gives the address back.\<close>

lemma PTE_ADDR_OR:
  assumes "pg_aligned pa" "PTE_ADDR fl = 0"
  shows "PTE_ADDR (pa OR fl) = pa"
proof (rule bit_word_eqI)
  fix k
  have "\<not> bit fl k" if "12 \<le> k" using assms(2) that bit_PTE_ADDR [of fl k] by simp
  with assms(1) show "bit (PTE_ADDR (pa OR fl)) k = bit pa k"
    by (cases "12 \<le> k") (auto simp: bit_PTE_ADDR bit_or_iff pg_aligned_bits)
qed

lemma P2V_V2P [simp]: "P2V (V2P a) = a"
  by (simp add: P2V_def V2P_def)

lemma pg_aligned_V2P: "pg_aligned a \<Longrightarrow> pg_aligned (V2P a)"
proof -
  assume "pg_aligned a"
  moreover have "V2P a = P2V a" by (simp add: V2P_def P2V_def)
  ultimately show ?thesis by (simp add: pg_aligned_P2V)
qed

lemma pt_pages_simps:
  "d \<in> pt_pages m d" "present m d i \<Longrightarrow> ptab m d i \<in> pt_pages m d"
  by (auto simp: pt_pages_def)

lemma pt_pages_aligned: "pt_wf m d \<Longrightarrow> p \<in> pt_pages m d \<Longrightarrow> pg_aligned p"
  by (auto simp: pt_pages_def pt_wf_def)

text \<open>Everything a page table says is read from its own pages.\<close>

lemma read32_ent_cong:
  assumes "pg_aligned p" "unat i < 1024" "\<And>a. in_page p a \<Longrightarrow> m' a = m a"
  shows "read32 m' (p + 4 * i) = read32 m (p + 4 * i)"
proof -
  have "m' (p + 4 * i + of_nat k) = m (p + 4 * i + of_nat k)" if "k < 4" for k
    using assms that by (intro assms(3) in_page_word in_page_ent word_aligned_ent)
  from this [of 0] this [of 1] this [of 2] this [of 3] show ?thesis
    by (intro read32_cong) simp_all
qed

lemma pt_cong:
  assumes "pt_wf m d" "\<And>p a. p \<in> pt_pages m d \<Longrightarrow> in_page p a \<Longrightarrow> m' a = m a"
  shows "pt_wf m' d" "pt_pages m' d = pt_pages m d" "translate m' d va = translate m d va"
proof -
  have pde: "pde_at m' d i = pde_at m d i" if "unat i < 1024" for i
    unfolding pde_at_def using assms that
    by (intro read32_ent_cong) (auto simp: pt_wf_def pt_pages_def)
  then have pr: "present m' d i = present m d i" for i by (auto simp: present_def)
  have tb: "ptab m' d i = ptab m d i" if "present m d i" for i
    using pde that by (simp add: ptab_def present_def)
  show "pt_wf m' d" using assms(1) pr tb by (auto simp: pt_wf_def inj_on_def)
  show "pt_pages m' d = pt_pages m d" using pr tb by (auto simp: pt_pages_def)
  have "read32 m' (ptab m d (PDX va) + 4 * PTX va) = read32 m (ptab m d (PDX va) + 4 * PTX va)"
    if "present m d (PDX va)"
    using that pt_pages_simps(2) [OF that] assms(2) by (intro read32_ent_cong) auto
  then show "translate m' d va = translate m d va"
    using pr [of "PDX va"] tb [of "PDX va"] by (simp add: translate_def del: present_PDX)
qed

section \<open>Writing an entry and adding a table\<close>

definition pte_addr :: "(u32 \<Rightarrow> u8) \<Rightarrow> u32 \<Rightarrow> u32 \<Rightarrow> u32" where
  "pte_addr m d va = ptab m d (PDX va) + 4 * PTX va"

lemma write_pte:
  fixes e :: u32
  assumes "pt_wf m d" "present m d (PDX a)"
  defines "m' \<equiv> write32 m (pte_addr m d a) e"
  shows "pt_wf m' d" "pt_pages m' d = pt_pages m d"
    and "translate m' d va = (if same_page va a then (if e AND PTE_P \<noteq> 0 then Some e else None)
                              else translate m d va)"
    and "\<And>x. \<not> in_page (ptab m d (PDX a)) x \<Longrightarrow> m' x = m x"
proof -
  have al: "word_aligned (pte_addr m d a)" by (simp add: pte_addr_def word_aligned_ent)
  have dp: "pg_aligned d" "ptab m d (PDX a) \<noteq> d" using assms by (auto simp: pt_wf_def)
  have other: "read32 m' (q + 4 * i) = read32 m (q + 4 * i)"
    if "pg_aligned q" "unat i < 1024" "q \<noteq> ptab m d (PDX a) \<or> i \<noteq> PTX a" for q i
    unfolding m'_def using that al ent_inject [of "ptab m d (PDX a)" q "PTX a" i]
    by (intro read32_write32_other) (auto simp: pte_addr_def word_aligned_ent)
  have pde: "pde_at m' d i = pde_at m d i" if "unat i < 1024" for i
    unfolding pde_at_def using dp that by (intro other) auto
  then have pr: "present m' d i = present m d i" for i by (auto simp: present_def)
  have tb: "ptab m' d i = ptab m d i" if "present m d i" for i
    using pde that by (simp add: ptab_def present_def)
  show "pt_wf m' d" using assms(1) pr tb by (auto simp: pt_wf_def inj_on_def)
  show "pt_pages m' d = pt_pages m d" using pr tb by (auto simp: pt_pages_def)
  show "m' x = m x" if "\<not> in_page (ptab m d (PDX a)) x" for x
  proof -
    have "x \<noteq> pte_addr m d a + of_nat k" if "k < 4" for k
      using in_page_word [of "ptab m d (PDX a)" "pte_addr m d a" k] in_page_ent [of "ptab m d (PDX a)" "PTX a"]
        al that \<open>\<not> in_page (ptab m d (PDX a)) x\<close> by (auto simp: pte_addr_def)
    from this [of 0] this [of 1] this [of 2] this [of 3] show ?thesis
      by (simp add: m'_def write32_def)
  qed
  show "translate m' d va = (if same_page va a then (if e AND PTE_P \<noteq> 0 then Some e else None)
                              else translate m d va)"
  proof (cases "same_page va a")
    case True
    then have "PDX va = PDX a" "PTX va = PTX a" by (simp_all add: same_page_iff)
    moreover have "read32 m' (pte_addr m d a) = e" by (simp add: m'_def)
    ultimately show ?thesis
      using True assms(2) pr tb by (simp add: translate_def pte_addr_def del: present_PDX)
  next
    case False
    have "ptab m d (PDX va) \<noteq> ptab m d (PDX a) \<or> PTX va \<noteq> PTX a" if "present m d (PDX va)"
      using False that assms(1,2) by (auto simp: same_page_iff pt_wf_def dest!: inj_onD simp del: present_PDX)
    then show ?thesis
      using False pr tb other [of "ptab m d (PDX va)" "PTX va"]
      by (auto simp: translate_def simp del: present_PDX)
  qed
qed

lemma memset_zero_ent:
  assumes "pg_aligned p" "unat i < 1024"
  shows "read32 (memset m p 0 PGSIZE) (p + 4 * i) = 0"
proof -
  have "memset m p 0 PGSIZE (p + 4 * i + of_nat k) = 0" if "k < 4" for k
    using in_page_word [OF assms(1) in_page_ent [OF assms] word_aligned_ent [OF assms] that]
    by (simp add: memset_eq)
  from this [of 0] this [of 1] this [of 2] this [of 3] show ?thesis
    by (simp add: read32_def get32_def)
qed

lemma add_table:
  assumes "pt_wf m d" "\<not> present m d (PDX a)" "pg_aligned p" "p \<notin> pt_pages m d" "p \<noteq> 0"
  defines "m' \<equiv> write32 (memset m p 0 PGSIZE) (d + 4 * PDX a) (V2P p OR 7)"
  shows "pt_wf m' d" "pt_pages m' d = insert p (pt_pages m d)" "translate m' d va = translate m d va"
    and "present m' d (PDX a)" "ptab m' d (PDX a) = p"
    and "\<And>x. \<not> in_page p x \<Longrightarrow> \<not> in_page d x \<Longrightarrow> m' x = m x"
proof -
  let ?m = "memset m p 0 PGSIZE"
  have d: "pg_aligned d" "p \<noteq> d" using assms by (auto simp: pt_wf_def pt_pages_def)
  have wa: "word_aligned (d + 4 * PDX a)" using d by (simp add: word_aligned_ent)
  have out: "?m x = m x" if "in_page q x" "pg_aligned q" "q \<noteq> p" for q x
    using that assms(3) pages_disjoint [of p q x] by (auto simp: memset_eq)
  have pde_other: "pde_at m' d i = pde_at m d i" if "unat i < 1024" "i \<noteq> PDX a" for i
  proof -
    have "read32 m' (d + 4 * i) = read32 ?m (d + 4 * i)"
      unfolding m'_def using that d wa ent_inject [of d d "PDX a" i]
      by (intro read32_write32_other) (auto simp: word_aligned_ent)
    also have "\<dots> = read32 m (d + 4 * i)" using that d out by (intro read32_ent_cong) auto
    finally show ?thesis by (simp add: pde_at_def)
  qed
  have pde_new: "pde_at m' d (PDX a) = V2P p OR 7" by (simp add: pde_at_def m'_def)
  have al: "pg_aligned (V2P p)" using assms(3) by (rule pg_aligned_V2P)
  have seven: "PTE_ADDR 7 = 0" by (simp add: PTE_ADDR_def)
  show new: "ptab m' d (PDX a) = p"
    using PTE_ADDR_OR [OF al seven] by (simp add: ptab_def pde_new)
  have "bit (V2P p OR 7) 0" by (simp add: bit_or_iff)
  then have "(V2P p OR 7) AND PTE_P \<noteq> 0" by (simp add: and_one_eq bit_0 odd_iff_mod_2_eq_one)
  then show pnew: "present m' d (PDX a)" by (simp add: pde_new)
  have pr: "present m' d i \<longleftrightarrow> present m d i \<or> i = PDX a" for i
    using pde_other [of i] pnew by (cases "i = PDX a") (auto simp: present_def)
  have tb: "ptab m' d i = ptab m d i" if "present m d i" for i
    using pde_other [of i] that assms(2) by (cases "i = PDX a") (auto simp: ptab_def present_def)
  have np: "ptab m d i \<noteq> p" if "present m d i" for i using assms(4) that by (auto simp: pt_pages_def)
  have S: "{i. present m' d i} = insert (PDX a) {i. present m d i}" using pr by auto
  have "inj_on (ptab m' d) {i. present m d i}"
    using assms(1) tb inj_on_cong [of "{i. present m d i}" "ptab m' d" "ptab m d"]
    by (simp add: pt_wf_def)
  moreover have "p \<notin> ptab m' d ` {i. present m d i}" using np tb by force
  ultimately have "inj_on (ptab m' d) {i. present m' d i}" unfolding S using new by auto
  then show "pt_wf m' d"
    using assms(1,5) pr tb new d unfolding pt_wf_def by fastforce
  show "pt_pages m' d = insert p (pt_pages m d)"
    unfolding pt_pages_def S using tb new by auto
  show outside: "m' x = m x" if "\<not> in_page p x" "\<not> in_page d x" for x
  proof -
    have "x \<noteq> d + 4 * PDX a + of_nat k" if "k < 4" for k
      using in_page_word [OF d(1) in_page_ent [OF d(1)] wa that] \<open>\<not> in_page d x\<close> by auto
    from this [of 0] this [of 1] this [of 2] this [of 3] \<open>\<not> in_page p x\<close> show ?thesis
      by (simp add: m'_def write32_def memset_eq)
  qed
  have dd: "\<not> in_page d x" if "in_page q x" "pg_aligned q" "q \<noteq> d" for q x
    using that d(1) pages_disjoint [of d q x] by auto
  show "translate m' d va = translate m d va"
  proof (cases "PDX va = PDX a")
    case True
    have "read32 m' (p + 4 * PTX va) = read32 ?m (p + 4 * PTX va)"
      unfolding m'_def using d wa assms(3) ent_inject [of d p "PDX a" "PTX va"]
      by (intro read32_write32_other) (auto simp: word_aligned_ent)
    then have "read32 m' (p + 4 * PTX va) = 0" using memset_zero_ent [OF assms(3)] by simp
    with True new assms(2) show ?thesis by (simp add: translate_def del: present_PDX)
  next
    case False
    have "read32 m' (ptab m d (PDX va) + 4 * PTX va) = read32 m (ptab m d (PDX va) + 4 * PTX va)"
      if pv: "present m d (PDX va)"
    proof (rule read32_ent_cong)
      fix x assume x: "in_page (ptab m d (PDX va)) x"
      have "ptab m d (PDX va) \<noteq> d" using assms(1) pv by (simp add: pt_wf_def del: present_PDX)
      with x np [OF pv] assms(3) show "m' x = m x"
        using pages_disjoint [of p "ptab m d (PDX va)" x] dd [of "ptab m d (PDX va)" x] outside by auto
    qed simp_all
    with False pr [of "PDX va"] tb [of "PDX va"] show ?thesis
      by (simp add: translate_def del: present_PDX)
  qed
qed

section \<open>Mapping pages\<close>

text \<open>
  \<open>vm_ext s xs d t ys\<close>: from state \<open>s\<close> with free pages \<open>xs\<close> to state \<open>t\<close> with free pages \<open>ys\<close> only
  the tables of \<open>d\<close> and the free list changed, and no page got lost.
\<close>

definition vm_ext :: "kstate \<Rightarrow> u32 list \<Rightarrow> u32 \<Rightarrow> kstate \<Rightarrow> u32 list \<Rightarrow> bool" where
  "vm_ext s xs d t ys \<longleftrightarrow> (\<exists>m f. t = s\<lparr>mem := m, km_freelist := f\<rparr>)
     \<and> pt_pages (mem t) d \<union> set ys = pt_pages (mem s) d \<union> set xs
     \<and> (\<forall>q x. pg_aligned q \<longrightarrow> q \<notin> pt_pages (mem s) d \<union> set xs \<longrightarrow> in_page q x \<longrightarrow> mem t x = mem s x)"

lemma vm_ext_refl [simp]: "vm_ext s xs d s xs"
  unfolding vm_ext_def by (auto intro!: exI [of _ "mem s"] exI [of _ "km_freelist s"])

lemma vm_ext_trans: "vm_ext s xs d t ys \<Longrightarrow> vm_ext t ys d u zs \<Longrightarrow> vm_ext s xs d u zs"
  unfolding vm_ext_def by (elim conjE, intro conjI) (force, simp, metis)

lemma freelist_mem_swap: "s\<lparr>km_freelist := f, mem := m\<rparr> = s\<lparr>mem := m, km_freelist := f\<rparr>"
  by (rule kstate.equality) simp_all

lemma vm_extI:
  assumes "pt_pages m d \<union> set ys = pt_pages (mem s) d \<union> set xs"
    and "\<And>q x. pg_aligned q \<Longrightarrow> q \<notin> pt_pages (mem s) d \<union> set xs \<Longrightarrow> in_page q x \<Longrightarrow> m x = mem s x"
  shows "vm_ext s xs d (s\<lparr>mem := m, km_freelist := f\<rparr>) ys" "vm_ext s xs d (s\<lparr>mem := m\<rparr>) ys"
proof -
  show "vm_ext s xs d (s\<lparr>mem := m, km_freelist := f\<rparr>) ys" for f
    unfolding vm_ext_def by (intro conjI exI) (use assms in auto)
  from this [of "km_freelist s"] show "vm_ext s xs d (s\<lparr>mem := m\<rparr>) ys" by simp
qed

lemma pte_addr_nonzero:
  assumes "pt_wf m d" "present m d (PDX a)"
  shows "pte_addr m d a \<noteq> 0"
proof
  assume "pte_addr m d a = 0"
  then have "unat (ptab m d (PDX a)) + 4 * unat (PTX a) = 0"
    using unat_ent [of "ptab m d (PDX a)" "PTX a"] by (simp add: pte_addr_def)
  with assms show False by (auto simp: pt_wf_def unat_eq_0 simp del: present_PDX)
qed

lemma walk_present:
  "present (mem s) d (PDX a) \<Longrightarrow> walkpgdir d a al s = Ok (pte_addr (mem s) d a) s"
  by (simp add: walkpgdir_def pte_addr_def ptab_def pde_at_def)

lemma walk_absent: "\<not> present (mem s) d (PDX a) \<Longrightarrow> walkpgdir d a False s = Ok 0 s"
  by (simp add: walkpgdir_def pde_at_def)

lemma vm_ok_write:
  assumes "vm_ok s xs d" "present (mem s) d (PDX a)"
  shows "vm_ok (s\<lparr>mem := write32 (mem s) (pte_addr (mem s) d a) e\<rparr>) xs d"
    and "vm_ext s xs d (s\<lparr>mem := write32 (mem s) (pte_addr (mem s) d a) e\<rparr>) xs"
proof -
  let ?t = "ptab (mem s) d (PDX a)" and ?m = "write32 (mem s) (pte_addr (mem s) d a) e"
  have wf: "pt_wf (mem s) d" "?t \<in> pt_pages (mem s) d" "?t \<notin> set xs"
    using assms pt_pages_simps(2) [OF assms(2)] by (auto simp: vm_ok_def)
  note w = write_pte [OF wf(1) assms(2), where e = e]
  have out: "?m x = mem s x" if "in_page q x" "pg_aligned q" "q \<noteq> ?t" for q x
    using w(4) that pages_disjoint [of ?t q x] by auto
  have "km_inv (s\<lparr>mem := ?m\<rparr>) xs"
    using assms(1) wf(3) out by (intro km_inv_outside) (auto simp: vm_ok_def km_inv_def page_ok_def)
  then show "vm_ok (s\<lparr>mem := ?m\<rparr>) xs d" using assms(1) w(1,2) by (simp add: vm_ok_def)
  show "vm_ext s xs d (s\<lparr>mem := ?m\<rparr>) xs"
    using w(2) out wf(2) by (intro vm_extI) auto
qed

lemma walk_alloc:
  assumes "vm_ok s xs d"
  shows "(walkpgdir d a True s = Ok 0 s \<and> xs = []) \<or>
    (\<exists>t ys. walkpgdir d a True s = Ok (pte_addr (mem t) d a) t \<and> present (mem t) d (PDX a)
       \<and> vm_ok t ys d \<and> vm_ext s xs d t ys \<and> length xs \<le> Suc (length ys)
       \<and> (\<forall>va. translate (mem t) d va = translate (mem s) d va))"
proof (cases "present (mem s) d (PDX a)")
  case True
  with walk_present [OF True] assms show ?thesis
    by (intro disjI2 exI [of _ s] exI [of _ xs]) simp
next
  case absent: False
  have inv: "km_inv s xs" "pt_wf (mem s) d" "pt_pages (mem s) d \<inter> set xs = {}"
    using assms by (simp_all add: vm_ok_def)
  show ?thesis
  proof (cases xs)
    case Nil
    with inv(1) kalloc_inv_Nil absent show ?thesis by (simp add: walkpgdir_def pde_at_def)
  next
    case (Cons p ps)
    from kalloc_inv_Cons [of s p ps] inv(1) Cons obtain f where
      f: "kalloc s = Ok p (s\<lparr>km_freelist := f\<rparr>)" "km_inv (s\<lparr>km_freelist := f\<rparr>) ps" by blast
    have p: "pg_aligned p" "p \<noteq> 0" "p \<notin> pt_pages (mem s) d" "p \<notin> set ps"
      using inv Cons kmem.inv_ok [OF inv(1), of p] by (auto simp: page_ok_def km_inv_def)
    note w = add_table [OF inv(2) absent p(1,3,2)]
    let ?m = "write32 (memset (mem s) p 0 PGSIZE) (d + 4 * PDX a) (V2P p OR 7)"
    let ?t = "s\<lparr>km_freelist := f, mem := ?m\<rparr>"
    have d: "d \<notin> set xs" "pg_aligned d" using inv pt_pages_simps(1) by (auto simp: pt_wf_def)
    have out: "?m x = mem s x" if "in_page q x" "pg_aligned q" "q \<noteq> p" "q \<noteq> d" for q x
      using w(6) that pages_disjoint [of p q x] pages_disjoint [of d q x] p(1) d(2) by auto
    have "km_inv ?t ps"
      using f(2) d(1) Cons p out by (intro km_inv_outside [OF f(2)]) (auto simp: km_inv_def page_ok_def)
    then have "vm_ok ?t ps d" using w(1,2) p(4) inv(3) Cons by (auto simp: vm_ok_def)
    moreover have "vm_ext s xs d (s\<lparr>mem := ?m, km_freelist := f\<rparr>) ps"
      using w(2) out Cons pt_pages_simps(1) [of d "mem s"] by (intro vm_extI) auto
    moreover have "walkpgdir d a True s = Ok (pte_addr ?m d a) ?t"
      using absent p(2) f(1) w(5) by (simp add: walkpgdir_def pde_at_def pte_addr_def Let_def)
    ultimately show ?thesis
      using w(3,4) by (intro disjI2 exI [of _ ?t] exI [of _ ps]) (simp add: freelist_mem_swap Cons)
  qed
qed

text \<open>
  The translations after the first \<open>k\<close> pages of a range starting at \<open>a\<close> were mapped to the frames
  from \<open>pa\<close> on.
\<close>

definition map_range :: "u32 \<Rightarrow> u32 \<Rightarrow> u32 \<Rightarrow> nat \<Rightarrow> (u32 \<Rightarrow> u32 option) \<Rightarrow> u32 \<Rightarrow> u32 option" where
  "map_range a pa perm k tr va =
     (let i = unat va div 4096 - unat a div 4096 in
      if unat a div 4096 \<le> unat va div 4096 \<and> i < k
      then Some ((pa + of_nat i * PGSIZE) OR perm OR PTE_P) else tr va)"

lemma map_range_0 [simp]: "map_range a pa perm 0 tr = tr"
  by (simp add: map_range_def fun_eq_iff)

lemma map_range_Suc:
  assumes "unat (a + PGSIZE) = unat a + 4096"
  shows "map_range (a + PGSIZE) (pa + PGSIZE) perm k
      (\<lambda>va. if same_page va a then Some (pa OR perm OR PTE_P) else tr va)
    = map_range a pa perm (Suc k) tr"
proof
  fix va :: u32
  let ?v = "unat va div 4096" and ?a = "unat a div 4096"
  have a: "unat (a + PGSIZE) div 4096 = Suc ?a" using assms by simp
  consider "?v < ?a" | "?v = ?a" | i where "?v = Suc (?a + i)"
    using less_imp_Suc_add linorder_less_linear by metis
  then show "map_range (a + PGSIZE) (pa + PGSIZE) perm k
      (\<lambda>va. if same_page va a then Some (pa OR perm OR PTE_P) else tr va) va
    = map_range a pa perm (Suc k) tr va"
    by cases (auto simp: map_range_def same_page_def a Let_def algebra_simps)
qed

lemma or_one_present: "(x OR PTE_P) AND PTE_P \<noteq> 0" for x :: u32
  by (simp add: and_one_eq odd_iff_mod_2_eq_one [symmetric] even_or_iff)

lemma mappages_step:
  assumes "vm_ok s xs d" "translate (mem s) d a = None"
  shows "(mappages_loop (Suc n) d a l pa perm s = Ok (-1) s \<and> xs = []) \<or>
    (\<exists>t ys. mappages_loop (Suc n) d a l pa perm s =
         (if a = l then Ok 0 t else mappages_loop n d (a + PGSIZE) l (pa + PGSIZE) perm t)
       \<and> vm_ok t ys d \<and> vm_ext s xs d t ys \<and> length xs \<le> Suc (length ys)
       \<and> translate (mem t) d
           = (\<lambda>va. if same_page va a then Some (pa OR perm OR PTE_P) else translate (mem s) d va))"
  using walk_alloc [OF assms(1), of a]
proof (elim disjE exE conjE)
  fix t ys
  assume w: "walkpgdir d a True s = Ok (pte_addr (mem t) d a) t" and pr: "present (mem t) d (PDX a)"
    and ok: "vm_ok t ys d" "vm_ext s xs d t ys" "length xs \<le> Suc (length ys)"
    and tr: "\<forall>va. translate (mem t) d va = translate (mem s) d va"
  let ?e = "pa OR perm OR PTE_P"
  let ?t = "t\<lparr>mem := write32 (mem t) (pte_addr (mem t) d a) ?e\<rparr>"
  have wf: "pt_wf (mem t) d" using ok by (simp add: vm_ok_def)
  have nz: "pte_addr (mem t) d a \<noteq> 0" using wf pr by (rule pte_addr_nonzero)
  have "translate (mem t) d a = None" using tr assms(2) by simp
  then have np: "read32 (mem t) (pte_addr (mem t) d a) AND PTE_P = 0"
    using pr by (simp add: translate_def pte_addr_def Let_def split: if_splits del: present_PDX)
  have "?e = (pa OR perm) OR PTE_P" by (simp add: or.assoc)
  then have "?e AND PTE_P \<noteq> 0" using or_one_present by metis
  then have "translate (mem ?t) d va = (if same_page va a then Some ?e else translate (mem s) d va)" for va
    using write_pte(3) [OF wf pr, of ?e va] tr by simp
  then have "translate (mem ?t) d = (\<lambda>va. if same_page va a then Some ?e else translate (mem s) d va)"
    by blast
  moreover have "mappages_loop (Suc n) d a l pa perm s =
      (if a = l then Ok 0 ?t else mappages_loop n d (a + PGSIZE) l (pa + PGSIZE) perm ?t)"
    using w nz np by (simp add: Let_def)
  ultimately show ?thesis
    using vm_ok_write [OF ok(1) pr, of ?e] vm_ext_trans [OF ok(2)] ok(3) by blast
qed simp

lemma unat_page_add:
  fixes a :: u32
  assumes "unat a + i * 4096 < 2 ^ 32"
  shows "unat (a + of_nat i * PGSIZE) = unat a + i * 4096"
proof -
  have i: "i < 2 ^ 32" using assms by simp
  then have "unat (of_nat i * PGSIZE :: u32) = i * 4096"
    using assms by (subst unat_mult_lem [THEN iffD1]) (simp_all add: unat_of_nat take_bit_nat_eq_self)
  with assms show ?thesis by (subst unat_add_lem [THEN iffD1]) simp_all
qed

lemma mappages_loop_spec:
  assumes "vm_ok s xs d" "unat a + n * 4096 < 2 ^ 32" "n < fuel"
    and "\<And>i. i \<le> n \<Longrightarrow> translate (mem s) d (a + of_nat i * PGSIZE) = None"
  shows "\<exists>r t ys k. mappages_loop fuel d a (a + of_nat n * PGSIZE) pa perm s = Ok r t
     \<and> vm_ok t ys d \<and> vm_ext s xs d t ys
     \<and> (r = 0 \<and> k = Suc n \<or> r = -1 \<and> k \<le> n \<and> ys = []) \<and> length xs \<le> k + length ys
     \<and> translate (mem t) d = map_range a pa perm k (translate (mem s) d)"
  using assms
proof (induction n arbitrary: s xs a pa fuel)
  case 0
  then obtain f where f: "fuel = Suc f" by (cases fuel) auto
  have "translate (mem s) d a = None" using "0.prems"(4) [of 0] by simp
  from mappages_step [OF "0.prems"(1) this, of f a pa perm] show ?case
  proof (elim disjE conjE exE)
    assume "mappages_loop (Suc f) d a a pa perm s = Ok (-1) s" "xs = []"
    with "0.prems"(1) f show ?thesis
      by (intro exI [of _ "-1"] exI [of _ s] exI [of _ "[]"] exI [of _ 0]) simp
  next
    fix t ys
    assume "mappages_loop (Suc f) d a a pa perm s =
        (if a = a then Ok 0 t else mappages_loop f d (a + PGSIZE) a (pa + PGSIZE) perm t)"
      "vm_ok t ys d" "vm_ext s xs d t ys" "length xs \<le> Suc (length ys)" "translate (mem t) d
           = (\<lambda>va. if same_page va a then Some (pa OR perm OR PTE_P) else translate (mem s) d va)"
    moreover have "(\<lambda>va. if same_page va a then Some (pa OR perm OR PTE_P) else translate (mem s) d va)
        = map_range a pa perm 1 (translate (mem s) d)"
      by (auto simp: map_range_def same_page_def fun_eq_iff Let_def)
    ultimately show ?thesis
      using f by (intro exI [of _ 0] exI [of _ t] exI [of _ ys] exI [of _ 1]) simp
  qed
next
  case (Suc n)
  then obtain f where f: "fuel = Suc f" by (cases fuel) auto
  let ?l = "a + of_nat (Suc n) * PGSIZE"
  have u: "unat (a + PGSIZE) = unat a + 4096"
    using Suc.prems(2) by (subst unat_add_lem [THEN iffD1]) auto
  have l: "?l = a + PGSIZE + of_nat n * PGSIZE" by (simp add: algebra_simps)
  have "unat ?l = unat a + Suc n * 4096" using Suc.prems(2) by (rule unat_page_add)
  then have al: "a \<noteq> ?l" by auto
  have "translate (mem s) d a = None" using Suc.prems(4) [of 0] by simp
  from mappages_step [OF Suc.prems(1) this, of f ?l pa perm] show ?case
  proof (elim disjE conjE exE)
    assume "mappages_loop (Suc f) d a ?l pa perm s = Ok (-1) s" "xs = []"
    with Suc.prems(1) f show ?thesis
      by (intro exI [of _ "-1"] exI [of _ s] exI [of _ "[]"] exI [of _ 0]) simp
  next
    fix t ys
    assume t: "mappages_loop (Suc f) d a ?l pa perm s =
        (if a = ?l then Ok 0 t else mappages_loop f d (a + PGSIZE) ?l (pa + PGSIZE) perm t)"
      "vm_ok t ys d" "vm_ext s xs d t ys" "length xs \<le> Suc (length ys)" "translate (mem t) d
           = (\<lambda>va. if same_page va a then Some (pa OR perm OR PTE_P) else translate (mem s) d va)"
    have none: "translate (mem t) d (a + PGSIZE + of_nat i * PGSIZE) = None" if "i \<le> n" for i
    proof -
      have e: "a + PGSIZE + of_nat i * PGSIZE = a + of_nat (Suc i) * PGSIZE" by (simp add: algebra_simps)
      have "unat (a + of_nat (Suc i) * PGSIZE) = unat a + Suc i * 4096"
        using Suc.prems(2) that by (intro unat_page_add) auto
      then have "\<not> same_page (a + of_nat (Suc i) * PGSIZE) a" by (simp add: same_page_def)
      with Suc.prems(4) [of "Suc i"] that show ?thesis unfolding e t(5) by simp
    qed
    have "unat (a + PGSIZE) + n * 4096 < 2 ^ 32" "n < f" using Suc.prems(2,3) u f by simp_all
    from Suc.IH [OF t(2) this none, of "pa + PGSIZE"] obtain r w zs k where
      r: "mappages_loop f d (a + PGSIZE) ?l (pa + PGSIZE) perm t = Ok r w" "vm_ok w zs d"
         "vm_ext t ys d w zs" "r = 0 \<and> k = Suc n \<or> r = -1 \<and> k \<le> n \<and> zs = []"
         "length ys \<le> k + length zs" "translate (mem w) d = map_range (a + PGSIZE) (pa + PGSIZE) perm k (translate (mem t) d)"
      unfolding l [symmetric] by blast
    have "translate (mem w) d = map_range a pa perm (Suc k) (translate (mem s) d)"
      unfolding r(6) t(5) using u by (rule map_range_Suc)
    with r t(1,4) al f vm_ext_trans [OF t(3) r(3)] show ?thesis
      by (intro exI [of _ r] exI [of _ w] exI [of _ zs] exI [of _ "Suc k"]) auto
  qed
qed

text \<open>The pages a range of addresses touches.\<close>

definition range_pages :: "u32 \<Rightarrow> u32 \<Rightarrow> nat" where
  "range_pages va sz = Suc ((unat va + unat sz - 1) div 4096 - unat va div 4096)"

text \<open>
  C3. \<open>mappages\<close> on a range that is not mapped yet: it returns; it maps the first \<open>k\<close> pages of the
  range to consecutive frames with the given permissions and no other translation changes; it
  maps all of them and returns 0, or stops because no free page is left and returns -1; the
  tables stay well formed and apart from the free pages, no page is lost, and memory outside
  the tables and the free pages is untouched.
\<close>

theorem mappages_maps:
  assumes "vm_ok s xs d" and "0 < sz" and "unat va + unat sz \<le> 2 ^ 32"
    and "\<And>x. unat va div 4096 \<le> unat x div 4096 \<Longrightarrow> unat x div 4096 \<le> (unat va + unat sz - 1) div 4096
           \<Longrightarrow> translate (mem s) d x = None"
  shows "\<exists>r t ys k. mappages d va sz pa perm s = Ok r t \<and> vm_ok t ys d \<and> vm_ext s xs d t ys
     \<and> (r = 0 \<and> k = range_pages va sz \<or> r = -1 \<and> k < range_pages va sz \<and> ys = [])
     \<and> length xs \<le> k + length ys
     \<and> translate (mem t) d = map_range va pa perm k (translate (mem s) d)"
proof -
  let ?a = "PGROUNDDOWN va" and ?e = "unat va + unat sz - 1"
  define n where "n = ?e div 4096 - unat va div 4096"
  have z: "0 < unat sz" using assms(2) by (simp add: word_less_nat_alt)
  have e: "unat (va + sz - 1) = ?e"
  proof (cases "unat va + unat sz = 2 ^ 32")
    case True
    then have "va + sz = 0" by (simp add: word_unat_eq_iff unat_word_ariths)
    with True show ?thesis by (simp add: unsigned_minus_1_eq_mask mask_eq_exp_minus_1)
  next
    case False
    then have "unat (va + sz) = unat va + unat sz"
      using assms(3) by (intro unat_add_lem [THEN iffD1]) simp
    moreover from this z have "va + sz \<noteq> 0" by (auto simp: word_unat_eq_iff)
    ultimately show ?thesis by (simp add: unat_minus_one)
  qed
  have le: "unat va div 4096 \<le> ?e div 4096" using z by (intro div_le_mono) simp
  have a: "unat ?a = unat va div 4096 * 4096" by (rule unat_PGROUNDDOWN)
  have top: "?e div 4096 * 4096 < 2 ^ 32" using unat32 [of "va + sz - 1"] e by simp
  then have n: "unat ?a + n * 4096 < 2 ^ 32" "n < 1048577"
    using le by (simp_all add: a n_def diff_mult_distrib)
  have l: "PGROUNDDOWN (va + sz - 1) = ?a + of_nat n * PGSIZE"
    using le unat_page_add [OF n(1)] by (simp add: word_unat_eq_iff unat_PGROUNDDOWN e n_def diff_mult_distrib)
  have none: "translate (mem s) d (?a + of_nat i * PGSIZE) = None" if "i \<le> n" for i
  proof -
    have "unat (?a + of_nat i * PGSIZE) = unat ?a + i * 4096"
      using n(1) that by (intro unat_page_add) (simp add: le_less_trans [OF _ n(1)])
    moreover have "unat va div 4096 + i \<le> ?e div 4096" using that le unfolding n_def by linarith
    ultimately show ?thesis by (intro assms(4)) (simp_all add: a)
  qed
  have m: "map_range ?a pa perm k tr = map_range va pa perm k tr" for k tr
    by (simp add: map_range_def fun_eq_iff a)
  show ?thesis
    using mappages_loop_spec [OF assms(1) n none, of pa perm]
    unfolding mappages_def Let_def l m range_pages_def n_def [symmetric] by (simp add: less_Suc_eq_le)
qed

text \<open>A machine with one free page and one empty page directory, for examples.\<close>

lemma empty_pgdir_ok:
  assumes "km_inv s xs" "pg_aligned d" "d \<notin> set xs" "\<And>a. in_page d a \<Longrightarrow> mem s a = 0"
  shows "vm_ok s xs d" "translate (mem s) d va = None"
proof -
  have "read32 (mem s) (d + 4 * i) = read32 (\<lambda>_. 0) (d + 4 * i)" if "unat i < 1024" for i
    using assms(2,4) that by (intro read32_ent_cong) auto
  then have "\<not> present (mem s) d i" for i
    by (auto simp: present_def pde_at_def read32_def get32_def)
  with assms show "vm_ok s xs d" "translate (mem s) d va = None"
    by (auto simp: vm_ok_def pt_wf_def pt_pages_def translate_def simp del: present_PDX)
qed

lemma one_free_page:
  "\<exists>s. km_inv s [0x80202000] \<and> (\<forall>a. \<not> in_page 0x80202000 a \<longrightarrow> mem s a = 0)
     \<and> (\<exists>m f. s = one_cpu\<lparr>mem := m, km_freelist := f\<rparr>)"
proof -
  have "km_inv one_cpu []"
    using quiet_one_cpu by (auto simp: km_inv_def km_ready_def)
  moreover have "page_ok one_cpu 0x80202000"
    by (simp add: page_ok_def V2P_def pg_aligned_iff)
  ultimately obtain m where
    "km_inv (one_cpu\<lparr>mem := m, km_freelist := 0x80202000\<rparr>) [0x80202000]"
    "\<forall>a. \<not> in_page 0x80202000 a \<longrightarrow> m a = mem one_cpu a"
    using kfree_inv [of one_cpu "[]"] by auto
  moreover have "mem one_cpu a = 0" for a by (simp add: one_cpu_def kstate0_def)
  ultimately show ?thesis by (intro exI conjI) (assumption, simp, blast)
qed

theorem mappages_maps_witness:
  "\<exists>s t. mappages 0x80201000 0x1000 0x1000 0x300000 6 s = Ok 0 t
     \<and> translate (mem t) 0x80201000 0x1234 = Some 0x300007"
proof -
  obtain s where s: "km_inv s [0x80202000]" "\<forall>a. \<not> in_page 0x80202000 a \<longrightarrow> mem s a = 0"
    using one_free_page by blast
  have al: "pg_aligned 0x80201000" "pg_aligned 0x80202000" by (simp_all add: pg_aligned_iff)
  then have "mem s a = 0" if "in_page 0x80201000 a" for a
    using that s(2) pages_disjoint [of "0x80201000" "0x80202000" a] by auto
  note ok = empty_pgdir_ok [OF s(1) al(1) _ this, simplified]
  have rp: "range_pages 0x1000 0x1000 = 1" by (simp add: range_pages_def)
  obtain r t ys k where r: "mappages 0x80201000 0x1000 0x1000 0x300000 6 s = Ok r t"
    "r = 0 \<and> k = 1 \<or> r = -1 \<and> k < 1 \<and> ys = []" "Suc 0 \<le> k + length ys"
    "translate (mem t) 0x80201000 = map_range 0x1000 0x300000 6 k (translate (mem s) 0x80201000)"
    using mappages_maps [OF ok(1), of "0x1000" "0x1000" "0x300000" 6] ok(2) rp by auto
  then have "r = 0" "k = 1" by auto
  with r have "mappages 0x80201000 0x1000 0x1000 0x300000 6 s = Ok 0 t"
    "translate (mem t) 0x80201000 0x1234 = Some 0x300007" by (simp_all add: map_range_def)
  then show ?thesis by blast
qed

section \<open>Copying to user memory\<close>

text \<open>The byte a user address denotes: present and accessible to the user, or nothing.\<close>

definition user_addr :: "(u32 \<Rightarrow> u8) \<Rightarrow> u32 \<Rightarrow> u32 \<Rightarrow> u32 option" where
  "user_addr m d va =
     (case translate m d va of
        Some e \<Rightarrow> if e AND PTE_U \<noteq> 0 \<and> P2V (PTE_ADDR e) \<noteq> 0
                 then Some (P2V (PTE_ADDR e) + (va - PGROUNDDOWN va)) else None
      | None \<Rightarrow> None)"

definition user_byte :: "(u32 \<Rightarrow> u8) \<Rightarrow> u32 \<Rightarrow> u32 \<Rightarrow> u8 option" where
  "user_byte m d va = map_option m (user_addr m d va)"

text \<open>
  An address space whose user pages are apart from its tables and from each other, as
  \<open>allocuvm\<close> and \<open>copyuvm\<close> build them from freshly allocated pages.
\<close>

definition user_wf :: "(u32 \<Rightarrow> u8) \<Rightarrow> u32 \<Rightarrow> bool" where
  "user_wf m d \<longleftrightarrow> pt_wf m d
     \<and> (\<forall>va e. translate m d va = Some e \<and> e AND PTE_U \<noteq> 0 \<longrightarrow> P2V (PTE_ADDR e) \<notin> pt_pages m d)
     \<and> (\<forall>va wa e f. translate m d va = Some e \<and> translate m d wa = Some f \<and> e AND PTE_U \<noteq> 0 \<and>
          f AND PTE_U \<noteq> 0 \<and> PTE_ADDR e = PTE_ADDR f \<longrightarrow> same_page va wa)"

lemma write_bytes_eq:
  assumes "length bs \<le> 2 ^ 32"
  shows "write_bytes m a bs = (\<lambda>x. if in_block a (length bs) x then bs ! unat (x - a) else m x)"
  using assms
proof (induction bs arbitrary: m a)
  case (Cons b bs)
  have l: "length bs < 2 ^ 32" using Cons.prems by simp
  have "write_bytes (m(a := b)) (a + 1) bs x
      = (if in_block a (Suc (length bs)) x then (b # bs) ! unat (x - a) else m x)" for x
  proof (cases "x = a")
    case True
    have "\<not> in_block (a + 1) (length bs) a"
    proof
      assume "in_block (a + 1) (length bs) a"
      then have "unat (a - (a + 1)) < length bs" by (simp add: in_block_def)
      moreover have "unat (a - (a + 1)) = 2 ^ 32 - 1"
        by (simp add: unsigned_minus_1_eq_mask mask_eq_exp_minus_1)
      ultimately show False using l by simp
    qed
    with True Cons l show ?thesis by (simp add: in_block_def)
  next
    case False
    have "unat (x - a) \<noteq> 0" using False by (simp add: unat_eq_0)
    with False Cons l unat_Suc_sub [OF False] show ?thesis
      by (auto simp: in_block_Suc nth_Cons' )
  qed
  then show ?case by (simp add: fun_eq_iff)
qed simp

lemma pg_aligned_frame [simp]: "pg_aligned (P2V (PTE_ADDR e))"
  by (intro pg_aligned_P2V) (simp add: pg_aligned_bits bit_PTE_ADDR)

lemma P2V_inject: "P2V a = P2V b \<longleftrightarrow> a = b"
  by (simp add: P2V_def)

lemma in_page_add:
  assumes "pg_aligned p" "unat off < 4096"
  shows "in_page p (p + off)"
  using assms by (simp add: in_block_def)

lemma translate_same_page: "same_page a b \<Longrightarrow> translate m d a = translate m d b"
  by (simp add: translate_def same_page_iff)

text \<open>The part of \<open>copyout\<close> within one page.\<close>

lemma copy_chunk:
  assumes wf: "user_wf m d" and e: "translate m d va = Some e" "e AND PTE_U \<noteq> 0"
    and nz: "P2V (PTE_ADDR e) \<noteq> 0" and len: "unat va mod 4096 + length bs \<le> 4096"
  defines "m' \<equiv> write_bytes m (P2V (PTE_ADDR e) + (va - PGROUNDDOWN va)) bs"
  shows "user_wf m' d" "translate m' d x = translate m d x"
    and "user_byte m' d x = (if unat va \<le> unat x \<and> unat x < unat va + length bs
           then Some (bs ! (unat x - unat va)) else user_byte m d x)"
proof -
  let ?F = "P2V (PTE_ADDR e)" and ?o = "va - PGROUNDDOWN va"
  have o: "unat ?o = unat va mod 4096" by (rule unat_page_offset)
  have m': "m' y = (if in_block (?F + ?o) (length bs) y then bs ! unat (y - (?F + ?o)) else m y)" for y
    using len by (simp add: m'_def write_bytes_eq)
  have inF: "unat (y - ?F) = unat ?o + unat (y - (?F + ?o))" if "in_block (?F + ?o) (length bs) y" for y
  proof -
    have "y - ?F = ?o + (y - (?F + ?o))" by simp
    moreover have "unat ?o + unat (y - (?F + ?o)) < 2 ^ 32" using that o len by (simp add: in_block_def)
    ultimately show ?thesis using unat_add_lem [of ?o "y - (?F + ?o)"] by (simp only: ) simp
  qed
  then have out: "m' y = m y" if "\<not> in_page ?F y" for y
    using that o len by (auto simp: m' in_block_def)
  have Fpt: "?F \<notin> pt_pages m d" using wf e by (auto simp: user_wf_def)
  have pt: "m' a = m a" if "p \<in> pt_pages m d" "in_page p a" for p a
    using that Fpt wf pages_disjoint [of ?F p a] pt_pages_aligned [of m d p]
    by (intro out) (auto simp: user_wf_def)
  have wf1: "pt_wf m d" using wf by (simp add: user_wf_def)
  have c: "pt_wf m' d" "pt_pages m' d = pt_pages m d" "translate m' d x = translate m d x" for x
    using pt_cong [OF wf1, of m'] pt by blast+
  show tr: "translate m' d x = translate m d x" for x by (rule c(3))
  show "user_wf m' d" using wf c(1) unfolding user_wf_def c(2) tr by blast
  have ua: "user_addr m' d x = user_addr m d x" by (simp add: user_addr_def tr)
  show "user_byte m' d x = (if unat va \<le> unat x \<and> unat x < unat va + length bs
           then Some (bs ! (unat x - unat va)) else user_byte m d x)"
  proof (cases "same_page x va")
    case True
    then have "translate m d x = Some e" using e(1) translate_same_page by simp
    with e(2) nz have ux: "user_addr m d x = Some (?F + (x - PGROUNDDOWN x))" by (simp add: user_addr_def)
    have pg: "unat x div 4096 = unat va div 4096" using True by (simp add: same_page_def)
    then have near: "unat va < unat x + 4096"
      using div_mult_mod_eq [of "unat x" 4096] div_mult_mod_eq [of "unat va" 4096]
        mod_less_divisor [of 4096 "unat va"] by linarith
    from pg have "PGROUNDDOWN x = PGROUNDDOWN va" by (simp add: word_unat_eq_iff unat_PGROUNDDOWN)
    then have dx: "?F + (x - PGROUNDDOWN x) - (?F + ?o) = x - va" by simp
    have "in_block (?F + ?o) (length bs) (?F + (x - PGROUNDDOWN x)) \<longleftrightarrow> unat (x - va) < length bs"
      unfolding in_block_def dx ..
    also have "\<dots> \<longleftrightarrow> unat va \<le> unat x \<and> unat x < unat va + length bs"
      using len near by (auto simp: unat_sub_if' split: if_splits)
    finally show ?thesis
      using dx by (auto simp: user_byte_def ua ux m' unat_sub_if')
  next
    case False
    have "user_byte m' d x = user_byte m d x"
    proof (cases "user_addr m d x")
      case (Some y)
      then obtain f where f: "translate m d x = Some f" "f AND PTE_U \<noteq> 0"
        "y = P2V (PTE_ADDR f) + (x - PGROUNDDOWN x)"
        by (auto simp: user_addr_def split: option.splits if_splits)
      have "PTE_ADDR f \<noteq> PTE_ADDR e" using wf e f False by (auto simp: user_wf_def same_page_def)
      moreover have "in_page (P2V (PTE_ADDR f)) y"
        unfolding f(3) by (intro in_page_add) (simp_all add: unat_page_offset)
      ultimately have "\<not> in_page ?F y"
        using pages_disjoint [of ?F "P2V (PTE_ADDR f)" y] by (auto simp: P2V_inject)
      with Some show ?thesis by (simp add: user_byte_def ua out)
    qed (simp add: user_byte_def ua)
    moreover have "\<not> (unat va \<le> unat x \<and> unat x < unat va + length bs)"
    proof
      assume x: "unat va \<le> unat x \<and> unat x < unat va + length bs"
      have "unat x div 4096 = unat va div 4096"
        using x len div_mult_mod_eq [of "unat va" 4096]
        by (intro div_nat_eqI) (linarith, unfold mult_Suc_right, linarith)
      with False show False by (simp add: same_page_def)
    qed
    ultimately show ?thesis by (simp only: if_False)
  qed
qed

lemma same_page_round: "same_page (PGROUNDDOWN va) va"
  by (simp add: same_page_def unat_PGROUNDDOWN)

lemma uva2ka_user:
  assumes "user_wf (mem s) d" "translate (mem s) d va = Some e" "e AND PTE_U \<noteq> 0"
  shows "uva2ka d (PGROUNDDOWN va) s = Ok (P2V (PTE_ADDR e)) s"
proof -
  let ?va = "PGROUNDDOWN va"
  have t: "translate (mem s) d ?va = Some e"
    using assms(2) translate_same_page [OF same_page_round] by simp
  then have pr: "present (mem s) d (PDX ?va)" "read32 (mem s) (pte_addr (mem s) d ?va) = e" "e AND PTE_P \<noteq> 0"
    by (auto simp: translate_def pte_addr_def Let_def split: if_splits simp del: present_PDX)
  have "pte_addr (mem s) d ?va \<noteq> 0"
    using assms(1) pr(1) by (intro pte_addr_nonzero) (auto simp: user_wf_def)
  with assms(3) pr walk_present [OF pr(1), of False] show ?thesis by (simp add: uva2ka_def)
qed

lemma of_nat_unat_diff: "n = unat b - unat a \<Longrightarrow> unat a \<le> unat b \<Longrightarrow> a + of_nat n = b" for a b :: u32
  by (simp add: word_unat_eq_iff unat_word_ariths)

text \<open>
  C4. \<open>copyout\<close> to a range of user memory that is mapped for the user returns 0 and changes user
  memory exactly there: each address of the range then holds its byte of the buffer, every other
  user address and every translation is as before.
\<close>

theorem copyout_writes:
  assumes "user_wf (mem s) d" and "unat va + length buf \<le> 2 ^ 31"
    and "\<And>x. unat va \<le> unat x \<Longrightarrow> unat x < unat va + length buf \<Longrightarrow> user_addr (mem s) d x \<noteq> None"
  shows "\<exists>m. copyout d va buf s = Ok 0 (s\<lparr>mem := m\<rparr>) \<and> user_wf m d
     \<and> (\<forall>x. translate m d x = translate (mem s) d x)
     \<and> (\<forall>x. user_byte m d x = (if unat va \<le> unat x \<and> unat x < unat va + length buf
              then Some (buf ! (unat x - unat va)) else user_byte (mem s) d x))"
  using assms
proof (induction d va buf s rule: copyout.induct)
  case (1 d va buf s)
  show ?case
  proof (cases "buf = []")
    case True
    with "1.prems"(1) show ?thesis by (intro exI [of _ "mem s"]) (auto simp: copyout.simps)
  next
    case False
    let ?n = "min (unat (PGSIZE - (va - PGROUNDDOWN va))) (length buf)"
    from "1.prems"(3) [of va] False obtain e where
      e: "translate (mem s) d va = Some e" "e AND PTE_U \<noteq> 0" "P2V (PTE_ADDR e) \<noteq> 0"
      by (auto simp: user_addr_def split: option.splits if_splits)
    have n: "unat va mod 4096 + length (take ?n buf) \<le> 4096"
      using mod_less_divisor [of 4096 "unat va"] by (simp add: unat_page_rest)
    let ?s = "s\<lparr>mem := write_bytes (mem s) (P2V (PTE_ADDR e) + (va - PGROUNDDOWN va)) (take ?n buf)\<rparr>"
    note c = copy_chunk [OF "1.prems"(1) e n]
    have u: "uva2ka d (PGROUNDDOWN va) s = Ok (P2V (PTE_ADDR e)) s"
      using "1.prems"(1) e(1,2) by (rule uva2ka_user)
    have step: "copyout d va buf s = copyout d (PGROUNDDOWN va + PGSIZE) (drop ?n buf) ?s"
      using False u e(3) by (subst copyout.simps) (simp add: Let_def)
    show ?thesis
    proof (cases "length buf \<le> ?n")
      case True
      then have "take ?n buf = buf" "drop ?n buf = []" by simp_all
      with step c show ?thesis
        by (intro exI [of _ "mem ?s"]) (simp add: copyout.simps)
    next
      case more: False
      let ?va = "PGROUNDDOWN va + PGSIZE"
      have n': "?n = 4096 - unat va mod 4096" using more by (auto simp: unat_page_rest)
      have "unat (PGROUNDDOWN va) + 4096 < 2 ^ 32"
        using "1.prems"(2) div_times_less_eq_dividend [of "unat va" 4096] unfolding unat_PGROUNDDOWN
        by simp
      then have "unat ?va = unat (PGROUNDDOWN va) + 4096"
        by (intro trans [OF unat_add_lem [THEN iffD1]]) simp_all
      also have "\<dots> = unat va + ?n"
        using div_mult_mod_eq [of "unat va" 4096] mod_less_divisor [of 4096 "unat va"]
        unfolding n' unat_PGROUNDDOWN by linarith
      finally have va: "unat ?va = unat va + ?n" .
      have "\<exists>m. copyout d ?va (drop ?n buf) ?s = Ok 0 (?s\<lparr>mem := m\<rparr>) \<and> user_wf m d
        \<and> (\<forall>x. translate m d x = translate (mem ?s) d x)
        \<and> (\<forall>x. user_byte m d x = (if unat ?va \<le> unat x \<and> unat x < unat ?va + length (drop ?n buf)
              then Some (drop ?n buf ! (unat x - unat ?va)) else user_byte (mem ?s) d x))"
      proof (rule "1.IH" [OF False refl u e(3) refl refl])
        show "user_wf (mem ?s) d" using c(1) by simp
        show "unat ?va + length (drop ?n buf) \<le> 2 ^ 31" using "1.prems"(2) va by simp
        show "user_addr (mem ?s) d x \<noteq> None"
          if "unat ?va \<le> unat x" "unat x < unat ?va + length (drop ?n buf)" for x
          using "1.prems"(3) [of x] that va c(2) by (simp add: user_addr_def)
      qed
      then obtain m where m: "copyout d ?va (drop ?n buf) ?s = Ok 0 (?s\<lparr>mem := m\<rparr>)" "user_wf m d"
        "\<And>x. translate m d x = translate (mem ?s) d x"
        "\<And>x. user_byte m d x = (if unat ?va \<le> unat x \<and> unat x < unat ?va + length (drop ?n buf)
              then Some (drop ?n buf ! (unat x - unat ?va)) else user_byte (mem ?s) d x)" by blast
      have "user_byte m d x = (if unat va \<le> unat x \<and> unat x < unat va + length buf
              then Some (buf ! (unat x - unat va)) else user_byte (mem s) d x)" for x
        using more c(3) [of x] by (auto simp: m(4) va)
      moreover have "copyout d va buf s = Ok 0 (s\<lparr>mem := m\<rparr>)" using step m(1) by simp
      ultimately show ?thesis using m(2,3) c(2) by auto
    qed
  qed
qed

lemma one_user_page:
  "\<exists>s :: kstate. user_wf (mem s) 0x80201000 \<and> translate (mem s) 0x80201000
     = (\<lambda>x. if same_page x 0x1000 then Some 0x300007 else None)"
proof -
  let ?d = "0x80201000 :: u32"
  obtain s where s: "km_inv s [0x80202000]" "\<forall>a. \<not> in_page 0x80202000 a \<longrightarrow> mem s a = 0"
    using one_free_page by blast
  have al: "pg_aligned ?d" "pg_aligned 0x80202000" by (simp_all add: pg_aligned_iff)
  have z: "mem s a = 0" if "in_page ?d a" for a
    using that s(2) al pages_disjoint [of ?d "0x80202000" a] by auto
  then have np: "pt_pages (mem s) ?d = {?d}"
  proof -
    have "read32 (mem s) (?d + 4 * i) = read32 (\<lambda>_. 0) (?d + 4 * i)" if "unat i < 1024" for i
      using al that z by (intro read32_ent_cong) auto
    then show ?thesis by (auto simp: pt_pages_def present_def pde_at_def read32_def get32_def)
  qed
  note ok = empty_pgdir_ok [OF s(1) al(1) _ z, simplified]
  from mappages_step [OF ok(1) ok(2) [of "0x1000"], of 0 "0x1000" "0x300000" 6] obtain t ys where
    t: "vm_ok t ys ?d" "vm_ext s [0x80202000] ?d t ys"
       "translate (mem t) ?d = (\<lambda>va. if same_page va 0x1000 then Some 0x300007 else None)"
    using ok(2) by (auto cong: if_cong)
  have "pt_pages (mem t) ?d \<subseteq> {?d, 0x80202000}" using t(2) np by (auto simp: vm_ext_def)
  moreover have "P2V (PTE_ADDR 0x300007) = 0x80300000" by (simp add: P2V_def PTE_ADDR_def)
  ultimately have "user_wf (mem t) ?d"
    using t(1,3) by (auto simp: user_wf_def vm_ok_def same_page_def split: if_splits)
  with t(3) show ?thesis by (intro exI [of _ t] conjI)
qed

theorem copyout_writes_witness:
  "\<exists>s m. copyout 0x80201000 0x1FF0 [104, 105] s = Ok 0 (s\<lparr>mem := m\<rparr>)
     \<and> user_byte m 0x80201000 0x1FF0 = Some 104 \<and> user_byte m 0x80201000 0x1FF1 = Some 105"
proof -
  obtain s :: kstate where s: "user_wf (mem s) 0x80201000" "translate (mem s) 0x80201000
     = (\<lambda>x. if same_page x 0x1000 then Some 0x300007 else None)" using one_user_page by auto
  have f: "P2V (PTE_ADDR 0x300007) = 0x80300000" by (simp add: P2V_def PTE_ADDR_def)
  have "user_addr (mem s) 0x80201000 x \<noteq> None" if "unat (0x1FF0 :: u32) \<le> unat x"
    "unat x < unat (0x1FF0 :: u32) + length [104, 105 :: u8]" for x
  proof -
    have "unat x div 4096 = 1" using that by (intro div_nat_eqI) simp_all
    then have "same_page x 0x1000" by (simp add: same_page_def)
    then show ?thesis by (simp add: user_addr_def s(2) f)
  qed
  with copyout_writes [OF s(1), of "0x1FF0" "[104, 105]"] obtain m where
    "copyout 0x80201000 0x1FF0 [104, 105] s = Ok 0 (s\<lparr>mem := m\<rparr>)"
    "\<forall>x. user_byte m 0x80201000 x = (if unat (0x1FF0 :: u32) \<le> unat x \<and> unat x < unat (0x1FF0 :: u32) + 2
      then Some ([104, 105] ! (unat x - unat (0x1FF0 :: u32))) else user_byte (mem s) 0x80201000 x)"
    by auto
  moreover from this(2) have "user_byte m 0x80201000 0x1FF0 = Some 104"
    "user_byte m 0x80201000 0x1FF1 = Some 105" by simp_all
  ultimately show ?thesis by blast
qed

end
