(* ===== verification/Proc.thy ===== *)
theory Proc
  imports Vm
begin

text \<open>
  Processes and the scheduler (\<open>proc.c\<close>): the five scheduling policies, \<open>sched\<close>, \<open>yield\<close>,
  \<open>sleep\<close>, \<open>wakeup\<close>, \<open>kill\<close>, \<open>allocproc\<close>, \<open>growproc\<close>, \<open>wait\<close>, \<open>waitx\<close> and the queries.
  \<open>fork\<close>, \<open>exit\<close> and \<open>userinit\<close>, which need files, are in theory \<open>Process\<close>.

  Code that gives the processor away ends in \<open>Switch\<close>. What it does when it gets the processor
  back is a definition of its own, named \<open>\<dots>_resume\<close>, that takes the local variables the code
  kept on its stack.
\<close>

section \<open>The process table\<close>

definition upd_proc :: "nat \<Rightarrow> (proc \<Rightarrow> proc) \<Rightarrow> kstate \<Rightarrow> kstate" where
  "upd_proc p f s = s\<lparr>procs := (procs s)[p := f (procs s ! p)]\<rparr>"

definition pinit :: "kstate \<Rightarrow> kstate" where
  "pinit s = initlock PtableLock ''ptable'' s"

definition rand :: "kstate \<Rightarrow> (kstate, u32) res" where
  "rand s = (let r = random_seed s * 1664525 + 1013904223 in Ok r (s\<lparr>random_seed := r\<rparr>))"

section \<open>Giving the processor away\<close>

text \<open>\<open>sched\<close> up to \<open>swtch\<close>; \<open>sched_resume\<close> restores the flag that \<open>sched\<close> saved on its stack.\<close>

definition sched :: "kstate \<Rightarrow> (kstate, unit) res" where
  "sched s =
     bind (myproc s) (\<lambda>p s.
     bind (holding PtableLock s) (\<lambda>h s.
       if \<not> h then Panic ''sched ptable.lock''
       else bind (mycpu s) (\<lambda>c s.
         if ncli (cpus s ! c) \<noteq> 1 then Panic ''sched locks''
         else case p of None \<Rightarrow> Undef
              | Some p \<Rightarrow>
                  if p_state (procs s ! p) = RUNNING then Panic ''sched running''
                  else if readeflags_IF s then Panic ''sched interruptible''
                  else Switch s)))"

definition sched_resume :: "bool \<Rightarrow> kstate \<Rightarrow> (kstate, unit) res" where
  "sched_resume ie s =
     bind (mycpu s) (\<lambda>c s. Ok () (upd_cpu c (\<lambda>k. k\<lparr>intena := ie\<rparr>) s))"

definition yield :: "kstate \<Rightarrow> (kstate, unit) res" where
  "yield s =
     bind (acquire PtableLock s) (\<lambda>_ s.
     bind (myproc s) (\<lambda>p s.
       case p of None \<Rightarrow> Undef
       | Some p \<Rightarrow>
           let s = upd_proc p (\<lambda>q. q\<lparr>p_state := RUNNABLE\<rparr>) s;
               s = upd_proc p (\<lambda>q. q\<lparr>p_yield_request := False\<rparr>) s
           in sched s))"

definition yield_resume :: "bool \<Rightarrow> kstate \<Rightarrow> (kstate, unit) res" where
  "yield_resume ie s = bind (sched_resume ie s) (\<lambda>_ s. release PtableLock s)"

definition sleep :: "chan \<Rightarrow> lockid option \<Rightarrow> kstate \<Rightarrow> (kstate, unit) res" where
  "sleep ch lk s =
     bind (myproc s) (\<lambda>p s.
       case p of None \<Rightarrow> Panic ''sleep''
       | Some p \<Rightarrow>
           (case lk of None \<Rightarrow> Panic ''sleep without lk''
            | Some lk \<Rightarrow>
                bind (if lk \<noteq> PtableLock
                      then bind (acquire PtableLock s) (\<lambda>_ s. release lk s)
                      else Ok () s) (\<lambda>_ s.
                  let s = upd_proc p (\<lambda>q. q\<lparr>p_chan := Some ch\<rparr>) s;
                      s = upd_proc p (\<lambda>q. q\<lparr>p_state := SLEEPING\<rparr>) s
                  in sched s)))"

definition sleep_resume :: "bool \<Rightarrow> nat \<Rightarrow> u32 \<Rightarrow> lockid \<Rightarrow> kstate \<Rightarrow> (kstate, unit) res" where
  "sleep_resume ie p start_ticks lk s =
     bind (sched_resume ie s) (\<lambda>_ s.
       let s = upd_proc p (\<lambda>q. q\<lparr>p_sleeptime := p_sleeptime q + (ticks s - start_ticks)\<rparr>) s;
           s = upd_proc p (\<lambda>q. q\<lparr>p_chan := None\<rparr>) s
       in if lk \<noteq> PtableLock
          then bind (release PtableLock s) (\<lambda>_ s. acquire lk s)
          else Ok () s)"

section \<open>Waking and killing\<close>

definition wakeup1 :: "chan \<Rightarrow> kstate \<Rightarrow> kstate" where
  "wakeup1 ch s =
     s\<lparr>procs := map (\<lambda>p. if p_state p = SLEEPING \<and> p_chan p = Some ch
                         then p\<lparr>p_state := RUNNABLE\<rparr> else p) (procs s)\<rparr>"

definition wakeup :: "chan \<Rightarrow> kstate \<Rightarrow> (kstate, unit) res" where
  "wakeup ch s =
     bind (acquire PtableLock s) (\<lambda>_ s. release PtableLock (wakeup1 ch s))"

definition kill :: "u32 \<Rightarrow> kstate \<Rightarrow> (kstate, int) res" where
  "kill pid s =
     bind (acquire PtableLock s) (\<lambda>_ s.
       case scan (\<lambda>p. p_pid p = pid) (procs s) of
         Some p \<Rightarrow>
           let s = upd_proc p (\<lambda>q. q\<lparr>p_killed := True\<rparr>) s;
               s = (if p_state (procs s ! p) = SLEEPING
                    then upd_proc p (\<lambda>q. q\<lparr>p_state := RUNNABLE\<rparr>) s else s)
           in bind (release PtableLock s) (\<lambda>_ s. Ok 0 s)
       | None \<Rightarrow> bind (release PtableLock s) (\<lambda>_ s. Ok (-1) s))"

section \<open>The scheduler\<close>

text \<open>
  The loop the policies share: among the runnable processes keep the first one and replace it by
  one that is better.
\<close>

primrec pick_loop :: "(proc \<Rightarrow> proc \<Rightarrow> bool) \<Rightarrow> proc list \<Rightarrow> nat list \<Rightarrow> nat option \<Rightarrow> nat option" where
  "pick_loop better ps [] best = best"
| "pick_loop better ps (p # is) best =
     (if p_state (ps ! p) \<noteq> RUNNABLE then pick_loop better ps is best
      else if best = None \<or> better (ps ! p) (ps ! the best) then pick_loop better ps is (Some p)
      else pick_loop better ps is best)"

definition fcfs_better :: "proc \<Rightarrow> proc \<Rightarrow> bool" where
  "fcfs_better p q \<longleftrightarrow> p_createtime p < p_createtime q"

definition sjf_better :: "proc \<Rightarrow> proc \<Rightarrow> bool" where
  "sjf_better p q \<longleftrightarrow> sint (p_estimated_burst p) < sint (p_estimated_burst q)"

definition bjf_better :: "proc \<Rightarrow> proc \<Rightarrow> bool" where
  "bjf_better p q \<longleftrightarrow> sint (p_priority p) < sint (p_priority q)
     \<or> p_priority p = p_priority q \<and> p_createtime p < p_createtime q"

definition pick_fcfs :: "kstate \<Rightarrow> nat option" where
  "pick_fcfs s = pick_loop fcfs_better (procs s) [0..<length (procs s)] None"

definition pick_sjf :: "kstate \<Rightarrow> nat option" where
  "pick_sjf s = pick_loop sjf_better (procs s) [0..<length (procs s)] None"

definition bjf_considering :: "u8 list" where
  "bjf_considering = lit (''DEBUG: BJF considering PID %d, Priority %d'' @ [CHR 0x0A])"

definition bjf_selected :: "u8 list" where
  "bjf_selected = lit (''DEBUG: BJF selected new best: PID %d, prio: %d'' @ [CHR 0x0A])"

text \<open>
  The loop of the best-job-first policy prints messages for every tenth process; \<open>%\<close> on the
  signed \<open>pid\<close> is zero exactly when ten divides it.
\<close>

primrec bjf_loop :: "nat list \<Rightarrow> nat option \<Rightarrow> bool \<Rightarrow> kstate \<Rightarrow> (kstate, nat option \<times> bool) res" where
  "bjf_loop [] best found s = Ok (best, found) s"
| "bjf_loop (p # is) best found s =
     (let q = procs s ! p in
      if p_state q \<noteq> RUNNABLE then bjf_loop is best found s
      else
        bind (if sint (p_pid q) mod 10 = 0
              then cprintf (Some bjf_considering)
                     [AInt (p_pid q), AInt (p_priority q)] s
              else Ok () s) (\<lambda>_ s.
          if best = None \<or> bjf_better q (procs s ! the best) then
            bind (if sint (p_pid q) mod 10 = 0
                  then cprintf (Some bjf_selected)
                         [AInt (p_pid q), AInt (p_priority q)] s
                  else Ok () s) (\<lambda>_ s. bjf_loop is (Some p) True s)
          else bjf_loop is best True s))"

definition pick_bjf :: "kstate \<Rightarrow> (kstate, nat option) res" where
  "pick_bjf s =
     bind (bjf_loop [0..<length (procs s)] None False s) (\<lambda>(best, runnable_found) s.
       case best of Some p \<Rightarrow> Ok (Some p) s
       | None \<Rightarrow>
           if runnable_found
           then bind (cprintf (Some (lit (''DEBUG: BJF ERROR: Found runnable processes but selected none!''
                        @ [CHR 0x0A]))) [] s) (\<lambda>_ s. Ok None s)
           else Ok None s)"

text \<open>The loop that walks to the runnable process with number \<open>target_idx\<close>.\<close>

primrec random_loop :: "proc list \<Rightarrow> nat list \<Rightarrow> u32 \<Rightarrow> u32 \<Rightarrow> nat option" where
  "random_loop ps [] current_idx target_idx = None"
| "random_loop ps (p # is) current_idx target_idx =
     (if p_state (ps ! p) \<noteq> RUNNABLE then random_loop ps is current_idx target_idx
      else if current_idx = target_idx then Some p
      else random_loop ps is (current_idx + 1) target_idx)"

definition pick_random :: "kstate \<Rightarrow> (kstate, nat option) res" where
  "pick_random s =
     (let runnable_count = length (filter (\<lambda>p. p_state p = RUNNABLE) (procs s)) in
      if 0 < runnable_count then
        bind (rand s) (\<lambda>r s.
          let target_idx = r mod of_nat runnable_count
          in Ok (random_loop (procs s) [0..<length (procs s)] 0 target_idx) s)
      else Ok None s)"

text \<open>Round robin goes on from the entry after the one that ran last.\<close>

definition pick_rr :: "nat \<Rightarrow> kstate \<Rightarrow> nat option" where
  "pick_rr i s = map_option ((+) i) (scan (\<lambda>p. p_state p = RUNNABLE) (drop i (procs s)))"

text \<open>Handing processor \<open>c\<close> to process \<open>p\<close>, up to \<open>swtch\<close>.\<close>

definition run_proc :: "nat \<Rightarrow> nat \<Rightarrow> kstate \<Rightarrow> (kstate, unit) res" where
  "run_proc c p s =
     (let s = upd_cpu c (\<lambda>k. k\<lparr>cpu_proc := Some p\<rparr>) s in
      bind (switchuvm (Some p) s) (\<lambda>_ s.
        Switch (upd_proc p (\<lambda>q. q\<lparr>p_state := RUNNING\<rparr>) s)))"

definition run_picked :: "nat \<Rightarrow> nat option \<Rightarrow> kstate \<Rightarrow> (kstate, unit) res" where
  "run_picked c p s = (case p of None \<Rightarrow> release PtableLock s | Some p \<Rightarrow> run_proc c p s)"

text \<open>
  One round of the scheduler's endless loop on processor \<open>c\<close>, up to the first \<open>swtch\<close>; \<open>Ok\<close> when
  no process was runnable and the loop starts over.
\<close>

definition scheduler :: "nat \<Rightarrow> kstate \<Rightarrow> (kstate, unit) res" where
  "scheduler c s =
     (let s = sti s in
      bind (acquire PtableLock s) (\<lambda>_ s.
        if current_scheduler s = SCHED_FCFS then run_picked c (pick_fcfs s) s
        else if current_scheduler s = SCHED_SJF then run_picked c (pick_sjf s) s
        else if current_scheduler s = SCHED_BJF then
          bind (pick_bjf s) (\<lambda>p s. run_picked c p s)
        else if current_scheduler s = SCHED_RANDOM then
          bind (pick_random s) (\<lambda>p s. run_picked c p s)
        else run_picked c (pick_rr 0 s) s))"

text \<open>What precedes the endless loop.\<close>

definition scheduler_start :: "kstate \<Rightarrow> (kstate, unit) res" where
  "scheduler_start s =
     bind (mycpu s) (\<lambda>c s. scheduler c (upd_cpu c (\<lambda>k. k\<lparr>cpu_proc := None\<rparr>) s))"

text \<open>
  The rest of the round when the process gave the processor back; \<open>rr\<close> is the entry that ran, in
  the branch of round robin, which then looks at the entries behind it.
\<close>

definition scheduler_resume :: "nat \<Rightarrow> nat option \<Rightarrow> kstate \<Rightarrow> (kstate, unit) res" where
  "scheduler_resume c rr s =
     (let s = switchkvm s;
          s = upd_cpu c (\<lambda>k. k\<lparr>cpu_proc := None\<rparr>) s
      in case rr of None \<Rightarrow> release PtableLock s
         | Some p \<Rightarrow> run_picked c (pick_rr (Suc p) s) s)"

section \<open>Creating and growing processes\<close>

definition allocproc :: "kstate \<Rightarrow> (kstate, nat option) res" where
  "allocproc s =
     bind (acquire PtableLock s) (\<lambda>_ s.
       case scan (\<lambda>p. p_state p = UNUSED) (procs s) of
         None \<Rightarrow> bind (release PtableLock s) (\<lambda>_ s. Ok None s)
       | Some p \<Rightarrow>
           let pid = nextpid s;
               s = s\<lparr>nextpid := nextpid s + 1\<rparr>;
               s = upd_proc p (\<lambda>q. q\<lparr>p_state := EMBRYO, p_pid := pid, p_createtime := ticks s,
                     p_syscall_count := 0, p_good_syscall_count := 0, p_runtime := 0,
                     p_sleeptime := 0, p_exittime := 0, p_priority := 60,
                     p_estimated_burst := 5, p_last_burst_ticks := 0, p_ticks := 0,
                     p_yield_request := False\<rparr>) s
           in bind (release PtableLock s) (\<lambda>_ s.
              bind (kalloc s) (\<lambda>ks s.
                let s = upd_proc p (\<lambda>q. q\<lparr>p_kstack := ks\<rparr>) s in
                if ks = 0 then Ok None (upd_proc p (\<lambda>q. q\<lparr>p_state := UNUSED\<rparr>) s)
                else
                  let sp = ks + KSTACKSIZE;
                      sp = sp - 76;
                      s = upd_proc p (\<lambda>q. q\<lparr>p_tf := sp\<rparr>) s;
                      sp = sp - 4;
                      s = s\<lparr>mem := write32 (mem s) sp (sym_trapret s)\<rparr>;
                      sp = sp - 20;
                      s = upd_proc p (\<lambda>q. q\<lparr>p_context := sp,
                            cx_of := kcontext0\<lparr>cx_eip := sym_forkret s\<rparr>\<rparr>) s
                  in Ok (Some p) s)))"

definition growproc :: "u32 \<Rightarrow> kstate \<Rightarrow> (kstate, int) res" where
  "growproc n s =
     bind (myproc s) (\<lambda>cp s.
       case cp of None \<Rightarrow> Undef
       | Some cp \<Rightarrow>
           let pgdir = p_pgdir (procs s ! cp);
               sz = p_sz (procs s ! cp);
               finish = (\<lambda>sz s.
                 let s = upd_proc cp (\<lambda>q. q\<lparr>p_sz := sz\<rparr>) s
                 in bind (switchuvm (Some cp) s) (\<lambda>_ s. Ok 0 s))
           in if 0 < sint n then
                bind (allocuvm pgdir sz (sz + n) s) (\<lambda>sz s.
                  if sz = 0 then Ok (-1) s else finish sz s)
              else if sint n < 0 then
                bind (deallocuvm pgdir sz (sz + n) s) (\<lambda>sz s.
                  if sz = 0 then Ok (-1) s else finish sz s)
              else finish sz s)"

section \<open>Waiting for children\<close>

text \<open>What \<open>wait\<close> and \<open>waitx\<close> do with an exited child.\<close>

definition reap :: "nat \<Rightarrow> kstate \<Rightarrow> (kstate, unit) res" where
  "reap p s =
     bind (kfree (p_kstack (procs s ! p)) s) (\<lambda>_ s.
       let s = upd_proc p (\<lambda>q. q\<lparr>p_kstack := 0\<rparr>) s in
     bind (freevm (p_pgdir (procs s ! p)) s) (\<lambda>_ s.
       let s = upd_proc p (\<lambda>q. q\<lparr>p_pid := 0, p_parent := None, p_name := (p_name q)[0 := 0],
                 p_killed := False, p_state := UNUSED\<rparr>) s
       in release PtableLock s))"

text \<open>
  One pass of the loops of \<open>wait\<close> and \<open>waitx\<close> over the table, with the table's lock held: the
  first child that exited is taken; with no children, or when killed, the answer is -1; otherwise
  the caller sleeps.
\<close>

definition wait_pass :: "nat \<Rightarrow> kstate \<Rightarrow> (kstate, u32) res" where
  "wait_pass cp s =
     (case scan (\<lambda>p. p_parent p = Some cp \<and> p_state p = ZOMBIE) (procs s) of
        Some p \<Rightarrow>
          let pid = p_pid (procs s ! p)
          in bind (reap p s) (\<lambda>_ s. Ok pid s)
      | None \<Rightarrow>
          let havekids = (\<exists>p \<in> set (procs s). p_parent p = Some cp) in
          if \<not> havekids \<or> p_killed (procs s ! cp)
          then bind (release PtableLock s) (\<lambda>_ s. Ok (-1) s)
          else bind (sleep (ChProc cp) (Some PtableLock) s) (\<lambda>_ s. Undef))"

definition wait :: "kstate \<Rightarrow> (kstate, u32) res" where
  "wait s =
     bind (myproc s) (\<lambda>cp s.
       case cp of None \<Rightarrow> Undef
       | Some cp \<Rightarrow> bind (acquire PtableLock s) (\<lambda>_ s. wait_pass cp s))"

definition wait_resume :: "bool \<Rightarrow> nat \<Rightarrow> u32 \<Rightarrow> kstate \<Rightarrow> (kstate, u32) res" where
  "wait_resume ie cp start_ticks s =
     bind (sleep_resume ie cp start_ticks PtableLock s) (\<lambda>_ s. wait_pass cp s)"

text \<open>\<open>waitx\<close> also gives the waiting time and the running time of the child.\<close>

definition waitx_pass :: "nat \<Rightarrow> kstate \<Rightarrow> (kstate, u32 \<times> (u32 \<times> u32) option) res" where
  "waitx_pass cp s =
     (case scan (\<lambda>p. p_parent p = Some cp \<and> p_state p = ZOMBIE) (procs s) of
        Some p \<Rightarrow>
          let q = procs s ! p;
              pid = p_pid q;
              wtime = p_exittime q - p_createtime q - p_runtime q;
              rtime = p_runtime q
          in bind (reap p s) (\<lambda>_ s. Ok (pid, Some (wtime, rtime)) s)
      | None \<Rightarrow>
          let havekids = (\<exists>p \<in> set (procs s). p_parent p = Some cp) in
          if \<not> havekids \<or> p_killed (procs s ! cp)
          then bind (release PtableLock s) (\<lambda>_ s. Ok (-1, None) s)
          else bind (sleep (ChProc cp) (Some PtableLock) s) (\<lambda>_ s. Undef))"

definition waitx :: "kstate \<Rightarrow> (kstate, u32 \<times> (u32 \<times> u32) option) res" where
  "waitx s =
     bind (myproc s) (\<lambda>cp s.
       case cp of None \<Rightarrow> Undef
       | Some cp \<Rightarrow> bind (acquire PtableLock s) (\<lambda>_ s. waitx_pass cp s))"

definition waitx_resume :: "bool \<Rightarrow> nat \<Rightarrow> u32 \<Rightarrow> kstate \<Rightarrow> (kstate, u32 \<times> (u32 \<times> u32) option) res" where
  "waitx_resume ie cp start_ticks s =
     bind (sleep_resume ie cp start_ticks PtableLock s) (\<lambda>_ s. waitx_pass cp s)"

section \<open>Queries\<close>

definition get_uncle_count :: "u32 \<Rightarrow> kstate \<Rightarrow> (kstate, int) res" where
  "get_uncle_count pid s =
     bind (acquire PtableLock s) (\<lambda>_ s.
       let parent = (case scan (\<lambda>p. p_state p \<noteq> UNUSED \<and> p_pid p = pid) (procs s) of
                       None \<Rightarrow> None | Some p \<Rightarrow> p_parent (procs s ! p))
       in case parent of
            None \<Rightarrow> bind (release PtableLock s) (\<lambda>_ s. Ok (-1) s)
          | Some par \<Rightarrow>
              (case p_parent (procs s ! par) of
                 None \<Rightarrow> bind (release PtableLock s) (\<lambda>_ s. Ok 0 s)
               | Some g \<Rightarrow>
                   let n = length (filter (\<lambda>i. p_state (procs s ! i) \<noteq> UNUSED \<and>
                              p_parent (procs s ! i) = Some g \<and> i \<noteq> par) [0..<length (procs s)])
                   in bind (release PtableLock s) (\<lambda>_ s. Ok (int n) s)))"

text \<open>\<open>getcallerpcs\<close> of \<open>spinlock.c\<close>: at most ten return addresses along the frame pointers.\<close>

primrec pcs_loop :: "nat \<Rightarrow> (u32 \<Rightarrow> u8) \<Rightarrow> u32 \<Rightarrow> u32 list" where
  "pcs_loop 0 m ebp = []"
| "pcs_loop (Suc n) m ebp =
     (if ebp = 0 \<or> ebp < KERNBASE \<or> ebp = 0xFFFFFFFF then replicate (Suc n) 0
      else read32 m (ebp + 4) # pcs_loop n m (read32 m ebp))"

definition getcallerpcs :: "u32 \<Rightarrow> kstate \<Rightarrow> u32 list" where
  "getcallerpcs v s = pcs_loop 10 (mem s) (v - 8)"

primrec state_name :: "procstate \<Rightarrow> string" where
  "state_name UNUSED = ''unused''"
| "state_name EMBRYO = ''embryo''"
| "state_name SLEEPING = ''sleep ''"
| "state_name RUNNABLE = ''runble''"
| "state_name RUNNING = ''run   ''"
| "state_name ZOMBIE = ''zombie''"

primrec print_pcs :: "u32 list \<Rightarrow> kstate \<Rightarrow> (kstate, unit) res" where
  "print_pcs [] s = Ok () s"
| "print_pcs (pc # pcs) s =
     (if pc = 0 then Ok () s
      else bind (cprintf (Some (lit '' %p'')) [AInt pc] s) (\<lambda>_ s. print_pcs pcs s))"

primrec procdump_loop :: "proc list \<Rightarrow> kstate \<Rightarrow> (kstate, unit) res" where
  "procdump_loop [] s = Ok () s"
| "procdump_loop (p # ps) s =
     (if p_state p = UNUSED then procdump_loop ps s
      else
        bind (cprintf (Some (lit ''%d %s %s''))
               [AInt (p_pid p), AStr (Some (lit (state_name (p_state p)))), AStr (Some (p_name p))] s) (\<lambda>_ s.
        bind (if p_state p = SLEEPING
              then print_pcs (getcallerpcs (cx_ebp (cx_of p) + 8) s) s else Ok () s) (\<lambda>_ s.
        bind (cprintf (Some (lit [CHR 0x0A])) [] s) (\<lambda>_ s. procdump_loop ps s))))"

definition procdump :: "kstate \<Rightarrow> (kstate, unit) res" where
  "procdump s = procdump_loop (procs s) s"

section \<open>What the policies choose\<close>

definition runnable :: "kstate \<Rightarrow> nat \<Rightarrow> bool" where
  "runnable s p \<longleftrightarrow> p < length (procs s) \<and> p_state (procs s ! p) = RUNNABLE"

text \<open>A policy that compares processes must rank them: a strict weak order.\<close>

locale preference =
  fixes better :: "proc \<Rightarrow> proc \<Rightarrow> bool"
  assumes asym: "better p q \<Longrightarrow> \<not> better q p"
    and neg_trans: "\<not> better p q \<Longrightarrow> \<not> better q r \<Longrightarrow> \<not> better p r"
begin

text \<open>The first of the best among the entries of a list of indices.\<close>

definition first_best :: "proc list \<Rightarrow> nat list \<Rightarrow> nat \<Rightarrow> bool" where
  "first_best ps ixs b \<longleftrightarrow> b \<in> set ixs \<and> p_state (ps ! b) = RUNNABLE
     \<and> (\<forall>q \<in> set ixs. p_state (ps ! q) = RUNNABLE \<longrightarrow> \<not> better (ps ! q) (ps ! b))
     \<and> (\<forall>q \<in> set ixs. p_state (ps ! q) = RUNNABLE \<longrightarrow> q < b \<longrightarrow> better (ps ! b) (ps ! q))"

lemma irrefl: "\<not> better p p"
  using asym by blast

lemma trans_best: "better p q \<Longrightarrow> \<not> better r q \<Longrightarrow> \<not> better r p"
  using asym neg_trans by blast

lemma first_best_snoc_worse:
  assumes "first_best ps ixs b" "p_state (ps ! p) = RUNNABLE \<Longrightarrow> \<not> better (ps ! p) (ps ! b)"
    "\<And>q. q \<in> set ixs \<Longrightarrow> q < p"
  shows "first_best ps (ixs @ [p]) b"
  using assms by (force simp: first_best_def)

lemma first_best_snoc_better:
  assumes "first_best ps ixs b" "p_state (ps ! p) = RUNNABLE" "better (ps ! p) (ps ! b)"
  shows "first_best ps (ixs @ [p]) p"
proof -
  have "better (ps ! p) (ps ! q) \<and> \<not> better (ps ! q) (ps ! p)" if "q \<in> set ixs" "p_state (ps ! q) = RUNNABLE" for q
  proof -
    have "\<not> better (ps ! q) (ps ! b)" using assms(1) that by (simp add: first_best_def)
    with assms(3) have "better (ps ! p) (ps ! q)" using neg_trans by blast
    then show ?thesis using asym by blast
  qed
  with assms irrefl show ?thesis by (auto simp: first_best_def)
qed

lemma pick_loop_acc:
  assumes "sorted_wrt (<) (before @ after)" "first_best ps before b"
  shows "\<exists>r. pick_loop better ps after (Some b) = Some r \<and> first_best ps (before @ after) r"
  using assms
proof (induction after arbitrary: before b)
  case (Cons p after)
  have less: "\<And>q. q \<in> set before \<Longrightarrow> q < p" using Cons.prems(1) by (auto simp: sorted_wrt_append)
  have srt: "sorted_wrt (<) ((before @ [p]) @ after)" using Cons.prems(1) by simp
  show ?case
  proof (cases "p_state (ps ! p) = RUNNABLE \<and> better (ps ! p) (ps ! b)")
    case True
    with Cons.IH [OF srt first_best_snoc_better [OF Cons.prems(2)]] show ?thesis by auto
  next
    case False
    with Cons.IH [OF srt first_best_snoc_worse [OF Cons.prems(2) _ less]] show ?thesis by auto
  qed
qed simp

lemma pick_loop_None:
  "sorted_wrt (<) ixs \<Longrightarrow>
   (case pick_loop better ps ixs None of
      None \<Rightarrow> \<forall>q \<in> set ixs. p_state (ps ! q) \<noteq> RUNNABLE
    | Some r \<Rightarrow> first_best ps ixs r)"
proof (induction ixs)
  case (Cons p ixs)
  show ?case
  proof (cases "p_state (ps ! p) = RUNNABLE")
    case True
    then have "first_best ps [p] p" using irrefl by (simp add: first_best_def)
    with pick_loop_acc [of "[p]" ixs ps p] Cons.prems True show ?thesis by auto
  next
    case False
    with Cons show ?thesis by (auto simp: first_best_def split: option.splits)
  qed
qed simp

end

interpretation fcfs: preference fcfs_better
  by unfold_locales (auto simp: fcfs_better_def)

interpretation sjf: preference sjf_better
  by unfold_locales (auto simp: sjf_better_def)

lemma bjf_better_sint:
  "bjf_better p q \<longleftrightarrow> sint (p_priority p) < sint (p_priority q)
     \<or> sint (p_priority p) = sint (p_priority q) \<and> p_createtime p < p_createtime q"
  using signed_word_eqI [of "p_priority p" "p_priority q"] by (auto simp: bjf_better_def)

interpretation bjf: preference bjf_better
  by unfold_locales (auto simp: bjf_better_sint not_less)

lemma pick_fcfs_choice:
  "case pick_fcfs s of None \<Rightarrow> \<forall>p. \<not> runnable s p
   | Some p \<Rightarrow> runnable s p \<and> (\<forall>q. runnable s q \<longrightarrow> p_createtime (procs s ! p) < p_createtime (procs s ! q)
       \<or> p_createtime (procs s ! p) = p_createtime (procs s ! q) \<and> p \<le> q)"
  using fcfs.pick_loop_None [of "[0..<length (procs s)]" "procs s"]
  unfolding pick_fcfs_def fcfs.first_best_def runnable_def fcfs_better_def
  by (auto split: option.splits simp: not_less)

lemma pick_sjf_choice:
  "case pick_sjf s of None \<Rightarrow> \<forall>p. \<not> runnable s p
   | Some p \<Rightarrow> runnable s p \<and> (\<forall>q. runnable s q \<longrightarrow>
       sint (p_estimated_burst (procs s ! p)) < sint (p_estimated_burst (procs s ! q))
       \<or> p_estimated_burst (procs s ! p) = p_estimated_burst (procs s ! q) \<and> p \<le> q)"
  using sjf.pick_loop_None [of "[0..<length (procs s)]" "procs s"]
  unfolding pick_sjf_def sjf.first_best_def runnable_def sjf_better_def
  by (auto split: option.splits simp: not_less intro!: signed_word_eqI order.antisym)

lemma pick_bjf_choice:
  "case pick_loop bjf_better (procs s) [0..<length (procs s)] None of None \<Rightarrow> \<forall>p. \<not> runnable s p
   | Some p \<Rightarrow> runnable s p \<and> (\<forall>q. runnable s q \<longrightarrow> bjf_better (procs s ! p) (procs s ! q)
       \<or> p_priority (procs s ! p) = p_priority (procs s ! q)
         \<and> p_createtime (procs s ! p) = p_createtime (procs s ! q) \<and> p \<le> q)"
proof -
  have eq: "p_priority x = p_priority y \<and> p_createtime x = p_createtime y"
    if "\<not> bjf_better x y" "\<not> bjf_better y x" for x y
  proof -
    have "sint (p_priority x) = sint (p_priority y)" "p_createtime x = p_createtime y"
      using that by (auto simp: bjf_better_sint not_less)
    then show ?thesis using signed_word_eqI by blast
  qed
  show ?thesis
    using bjf.pick_loop_None [of "[0..<length (procs s)]" "procs s"] eq
    unfolding bjf.first_best_def runnable_def
    by (auto split: option.splits)
qed

lemma random_loop_choice:
  assumes "unat cur + length (filter (\<lambda>p. p_state (ps ! p) = RUNNABLE) ixs) < 2 ^ 32"
    and "unat cur \<le> unat tgt"
    and "unat tgt < unat cur + length (filter (\<lambda>p. p_state (ps ! p) = RUNNABLE) ixs)"
  shows "random_loop ps ixs cur tgt = Some (filter (\<lambda>p. p_state (ps ! p) = RUNNABLE) ixs ! (unat tgt - unat cur))"
  using assms
proof (induction ixs arbitrary: cur)
  case (Cons p ixs)
  show ?case
  proof (cases "p_state (ps ! p) = RUNNABLE \<and> cur \<noteq> tgt")
    case True
    then have "unat (cur + 1) = unat cur + 1"
      using Cons.prems(1) by (intro trans [OF unat_add_lem [THEN iffD1]]) simp_all
    moreover have "unat cur \<noteq> unat tgt" using True by (simp add: word_unat_eq_iff)
    ultimately have "random_loop ps ixs (cur + 1) tgt
      = Some (filter (\<lambda>p. p_state (ps ! p) = RUNNABLE) ixs ! (unat tgt - unat (cur + 1)))"
      using Cons.prems True by (intro Cons.IH) auto
    moreover have "unat tgt - unat cur = Suc (unat tgt - unat (cur + 1))"
      using \<open>unat (cur + 1) = unat cur + 1\<close> \<open>unat cur \<noteq> unat tgt\<close> Cons.prems(2) by simp
    ultimately show ?thesis using True by simp
  next
    case False
    with Cons show ?thesis by auto
  qed
qed simp

text \<open>The runnable processes in the order of the table.\<close>

definition runnables :: "kstate \<Rightarrow> nat list" where
  "runnables s = filter (\<lambda>p. p_state (procs s ! p) = RUNNABLE) [0..<length (procs s)]"

lemma set_runnables: "set (runnables s) = {p. runnable s p}"
  by (auto simp: runnables_def runnable_def)

lemma length_runnables: "length (runnables s) = length (filter (\<lambda>p. p_state p = RUNNABLE) (procs s))"
proof -
  have "filter (\<lambda>p. p_state p = RUNNABLE) (procs s)
      = map ((!) (procs s)) (filter (\<lambda>p. p_state (procs s ! p) = RUNNABLE) [0..<length (procs s)])"
    using filter_map [of "\<lambda>p. p_state p = RUNNABLE" "(!) (procs s)" "[0..<length (procs s)]"]
    by (simp add: map_nth comp_def)
  then show ?thesis by (simp add: runnables_def)
qed

lemma pick_random_choice:
  assumes "length (procs s) < 2 ^ 32"
  shows "let r = random_seed s * 1664525 + 1013904223 in
    pick_random s = (if runnables s = [] then Ok None s
      else Ok (Some (runnables s ! (unat r mod length (runnables s)))) (s\<lparr>random_seed := r\<rparr>))"
proof (cases "runnables s = []")
  case True
  then show ?thesis by (simp add: pick_random_def length_runnables [symmetric])
next
  case False
  let ?r = "random_seed s * 1664525 + 1013904223" and ?n = "length (runnables s)"
  have n: "?n < 2 ^ 32"
    using assms length_filter_le [of "\<lambda>p. p_state p = RUNNABLE" "procs s"]
    by (simp add: length_runnables del: length_filter_le)
  then have u: "unat (?r mod of_nat ?n) = unat ?r mod ?n"
    by (simp add: unat_mod unat_of_nat take_bit_nat_eq_self)
  have "random_loop (procs s) [0..<length (procs s)] 0 (?r mod of_nat ?n)
      = Some (runnables s ! (unat ?r mod ?n))"
    using random_loop_choice [of 0 "procs s" "[0..<length (procs s)]" "?r mod of_nat ?n"] n False
    unfolding u by (simp add: runnables_def)
  with False show ?thesis
    by (simp add: pick_random_def rand_def length_runnables [symmetric] Let_def)
qed

lemma pick_rr_choice:
  "case pick_rr i s of None \<Rightarrow> \<forall>p \<ge> i. \<not> runnable s p
   | Some p \<Rightarrow> i \<le> p \<and> runnable s p \<and> (\<forall>q. i \<le> q \<longrightarrow> runnable s q \<longrightarrow> p \<le> q)"
proof (cases "scan (\<lambda>p. p_state p = RUNNABLE) (drop i (procs s))")
  case None
  then have "p_state (procs s ! p) \<noteq> RUNNABLE" if "i \<le> p" "p < length (procs s)" for p
    using that nth_mem [of "p - i" "drop i (procs s)"] by auto
  then show ?thesis unfolding pick_rr_def None by (auto simp: runnable_def)
next
  case (Some k)
  note k = scan_SomeD [OF Some]
  have "i + k \<le> q" if "i \<le> q" "runnable s q" for q
  proof (rule ccontr)
    assume "\<not> i + k \<le> q"
    then have "q - i < k" using that(1) by linarith
    with k(3) [of "q - i"] that show False by (auto simp: runnable_def)
  qed
  with Some k show ?thesis by (auto simp: pick_rr_def runnable_def)
qed

section \<open>A round of the scheduler\<close>

lemma pushcli_unmasked:
  assumes "this_cpu s = Some c" "ncli (cpus s ! c) = 0"
  shows "pushcli s = Ok () (masked (upd_cpu c (\<lambda>k. k\<lparr>intena := iflag k\<rparr>) s))"
proof -
  have c: "c < length (cpus s)" using assms(1) by (rule this_cpu_less)
  let ?s = "upd_cpu c (\<lambda>k. k\<lparr>iflag := False\<rparr>) s"
  have t: "this_cpu ?s = Some c" "this_cpu (upd_cpu c (\<lambda>k. k\<lparr>intena := iflag k\<rparr>) s) = Some c"
    using assms(1) by (simp_all add: this_cpu_upd_cpu)
  have "mycpu ?s = Ok c ?s" using t c by (intro mycpu_eq) (simp_all add: cpus_upd_cpu)
  moreover have sw: "(k\<lparr>iflag := a, intena := b, ncli := n\<rparr>) = (k\<lparr>intena := b, iflag := a, ncli := n\<rparr>)"
    for k :: cpu and a b n
    by (rule cpu.equality) simp_all
  ultimately show ?thesis
    using assms c t
    by (simp add: pushcli_def cli_def Let_def masked_def cpus_upd_cpu upd_cpu_upd_cpu readeflags_IF_def)
      (simp add: upd_cpu_def sw)
qed

text \<open>The processor's flag \<open>intena\<close> is dead while no interrupts are masked.\<close>

definition fresh_cpu :: "nat \<Rightarrow> kstate \<Rightarrow> kstate" where
  "fresh_cpu c s = upd_cpu c (\<lambda>k. k\<lparr>intena := iflag k\<rparr>) s"

lemma fresh_cpu_simps [simp]:
  "procs (fresh_cpu c s) = procs s" "locks (fresh_cpu c s) = locks s" "lapic_id (fresh_cpu c s) = lapic_id s"
  "lock_free lk (fresh_cpu c s) = lock_free lk s" "this_cpu (fresh_cpu c s) = this_cpu s"
  by (simp_all add: fresh_cpu_def lock_free_def this_cpu_upd_cpu)

lemma cpu_ok_fresh: "this_cpu s = Some c \<Longrightarrow> ncli (cpus s ! c) = 0 \<Longrightarrow> cpu_ok (fresh_cpu c s)"
  by (simp add: cpu_ok_def fresh_cpu_def this_cpu_upd_cpu cpus_upd_cpu this_cpu_less)

lemma acquire_unmasked:
  assumes "this_cpu s = Some c" "ncli (cpus s ! c) = 0" "lock_free lk s"
  shows "acquire lk s = Ok () (taken lk (fresh_cpu c s))"
proof -
  note ok = cpu_ok_fresh [OF assms(1,2)]
  have "pushcli s = pushcli (fresh_cpu c s)"
    using pushcli_unmasked [OF assms(1,2)] pushcli_ok [OF ok] by (simp add: fresh_cpu_def)
  then have "acquire lk s = acquire lk (fresh_cpu c s)" by (simp add: acquire_def)
  with ok assms(3) show ?thesis by (simp add: acquire_ready)
qed

lemma switchuvm_masked:
  assumes "cpu_ok s" "this_cpu s = Some c" "0 < ncli (cpus s ! c)"
    and "p_kstack (procs s ! p) \<noteq> 0" "p_pgdir (procs s ! p) \<noteq> 0"
  shows "switchuvm (Some p) s = Ok () (upd_cpu c (\<lambda>k. k\<lparr>ts_ss0 := 16,
     ts_esp0 := p_kstack (procs s ! p) + KSTACKSIZE, ts_iomb := 0xFFFF,
     cr3 := V2P (p_pgdir (procs s ! p))\<rparr>) s)"
proof -
  have c: "c < length (cpus s)" using assms(2) by (rule this_cpu_less)
  have nif: "\<not> iflag (cpus s ! c)" using assms(1-3) by (simp add: cpu_ok_def)
  let ?f = "\<lambda>k. k\<lparr>ts_ss0 := push_bit 3 2, ts_esp0 := p_kstack (procs s ! p) + KSTACKSIZE, ts_iomb := 0xFFFF\<rparr>"
  let ?g = "\<lambda>k. k\<lparr>cr3 := V2P (p_pgdir (procs s ! p))\<rparr>"
  have m: "masked s = upd_cpu c (\<lambda>k. k\<lparr>iflag := False, ncli := ncli k + 1\<rparr>) s"
    using assms(2) by (simp add: masked_def)
  have my: "mycpu (masked s) = Ok c (masked s)"
    using assms(2) c by (intro mycpu_eq) (simp_all add: cpus_masked)
  let ?t = "upd_cpu c (\<lambda>k. ?g (?f (k\<lparr>iflag := False, ncli := ncli k + 1\<rparr>))) s"
  have t: "lcr3 (V2P (p_pgdir (procs s ! p))) (upd_cpu c ?f (masked s)) = ?t"
    using assms(2) c by (simp add: lcr3_def this_cpu_upd_cpu m upd_cpu_upd_cpu)
  have "this_cpu ?t = Some c" using assms(2) by (simp add: this_cpu_upd_cpu)
  then have "popcli ?t = Ok () (upd_cpu c (\<lambda>k. k\<lparr>ncli := ncli k - 1, iflag := (ncli k = 1 \<and> intena k)\<rparr>) ?t)"
    using c assms(3) by (intro popcli_deep) (simp_all add: cpus_upd_cpu)
  moreover have "(\<lambda>k. k\<lparr>ncli := ncli k - 1, iflag := (ncli k = 1 \<and> intena k)\<rparr>)
      (?g (?f ((cpus s ! c)\<lparr>iflag := False, ncli := ncli (cpus s ! c) + 1\<rparr>)))
    = ?g (?f (cpus s ! c))"
    using nif assms(3) by (intro cpu.equality) simp_all
  ultimately show ?thesis
    using assms(4,5) my t c pushcli_ok [OF assms(1)]
    by (simp add: switchuvm_def upd_cpu_upd_cpu Let_def) (simp add: upd_cpu_def)
qed

lemma run_proc_ok:
  assumes "cpu_ok s" "this_cpu s = Some c" "0 < ncli (cpus s ! c)"
    and "p_kstack (procs s ! p) \<noteq> 0" "p_pgdir (procs s ! p) \<noteq> 0"
  shows "\<exists>t. run_proc c p s = Switch t \<and> procs t = (procs s)[p := (procs s ! p)\<lparr>p_state := RUNNING\<rparr>]
     \<and> cpu_proc (cpus t ! c) = Some p \<and> cr3 (cpus t ! c) = V2P (p_pgdir (procs s ! p)) \<and> locks t = locks s"
proof -
  let ?s = "upd_cpu c (\<lambda>k. k\<lparr>cpu_proc := Some p\<rparr>) s"
  have c: "c < length (cpus s)" using assms(2) by (rule this_cpu_less)
  have "this_cpu ?s = Some c" using assms(2) by (simp add: this_cpu_upd_cpu)
  moreover from this have "cpu_ok ?s" using assms(1,2) c by (simp add: cpu_ok_def cpus_upd_cpu)
  ultimately have "switchuvm (Some p) ?s = Ok () (upd_cpu c (\<lambda>k. k\<lparr>ts_ss0 := 16,
     ts_esp0 := p_kstack (procs ?s ! p) + KSTACKSIZE, ts_iomb := 0xFFFF,
     cr3 := V2P (p_pgdir (procs ?s ! p))\<rparr>) ?s)"
    using assms c by (intro switchuvm_masked) (simp_all add: cpus_upd_cpu)
  then show ?thesis
    using c by (simp add: run_proc_def upd_proc_def) (simp add: upd_cpu_def)
qed

text \<open>The messages of the best-job-first policy change nothing but the console.\<close>

definition console_only :: "kstate \<Rightarrow> kstate \<Rightarrow> bool" where
  "console_only s t \<longleftrightarrow> (\<exists>out pos m. t = s\<lparr>cons_out := out, crt_pos := pos, crt := m\<rparr>) \<and> crt_ok t"

lemma console_only_refl: "crt_ok s \<Longrightarrow> console_only s s"
  unfolding console_only_def
  by (intro conjI exI [of _ "cons_out s"] exI [of _ "crt_pos s"] exI [of _ "crt s"]) simp_all

lemma console_only_trans: "console_only s t \<Longrightarrow> console_only t u \<Longrightarrow> console_only s u"
  by (force simp: console_only_def)

lemma printed_console_only: "printed bs s t \<Longrightarrow> console_only s t"
  using printed_crt_ok by (force simp: printed_def console_only_def)

lemma bjf_message:
  assumes "crt_ok s" "cpu_ok s" "lock_free ConsLock s"
  shows "\<exists>t. cprintf (Some bjf_considering) [AInt x, AInt y] s
      = Ok () t \<and> console_only s t"
    and "\<exists>t. cprintf (Some bjf_selected) [AInt x, AInt y] s
      = Ok () t \<and> console_only s t"
proof -
  have "\<exists>out. u_printf False bjf_considering [AInt x, AInt y] = Some out"
    "\<exists>out. u_printf False bjf_selected [AInt x, AInt y] = Some out"
    by (simp_all add: bjf_considering_def bjf_selected_def lit_def bytes_def)
  moreover have "plain_fmt bjf_considering"
    "plain_fmt bjf_selected"
    by (simp_all add: bjf_considering_def bjf_selected_def lit_def bytes_def)
  ultimately show
    "\<exists>t. cprintf (Some bjf_considering) [AInt x, AInt y] s
      = Ok () t \<and> console_only s t"
    "\<exists>t. cprintf (Some bjf_selected) [AInt x, AInt y] s
      = Ok () t \<and> console_only s t"
    using cprintf_ok [OF _ _ assms] printed_console_only by metis+
qed

lemma console_only_keeps:
  assumes "console_only s t"
  shows "procs t = procs s" "cpu_ok t = cpu_ok s" "lock_free lk t = lock_free lk s" "crt_ok t"
    "cpus t = cpus s" "this_cpu t = this_cpu s" "locks t = locks s"
  using assms by (auto simp: console_only_def)

lemma bjf_loop_ok:
  assumes "crt_ok s" "cpu_ok s" "lock_free ConsLock s"
  shows "\<exists>t f. bjf_loop ixs best found s = Ok (pick_loop bjf_better (procs s) ixs best, f) t \<and> console_only s t
     \<and> (f \<longrightarrow> found \<or> (\<exists>p \<in> set ixs. p_state (procs s ! p) = RUNNABLE))"
  using assms
proof (induction ixs arbitrary: best found s)
  case Nil
  then show ?case by (simp add: console_only_refl)
next
  case (Cons p ixs)
  show ?case
  proof (cases "p_state (procs s ! p) = RUNNABLE")
    case False
    with Cons show ?thesis by auto
  next
    case True
    let ?q = "procs s ! p"
    obtain t where t: "(if sint (p_pid ?q) mod 10 = 0
       then cprintf (Some bjf_considering)
              [AInt (p_pid ?q), AInt (p_priority ?q)] s else Ok () s) = Ok () t" "console_only s t"
      using bjf_message(1) [OF Cons.prems] console_only_refl [OF Cons.prems(1)]
      by (cases "sint (p_pid ?q) mod 10 = 0") auto
    note k = console_only_keeps [OF t(2)]
    have ok: "crt_ok t" "cpu_ok t" "lock_free ConsLock t" using k Cons.prems by simp_all
    obtain u where u: "(if sint (p_pid ?q) mod 10 = 0
       then cprintf (Some bjf_selected)
              [AInt (p_pid ?q), AInt (p_priority ?q)] t else Ok () t) = Ok () u" "console_only t u"
      using bjf_message(2) [OF ok] console_only_refl [OF ok(1)]
      by (cases "sint (p_pid ?q) mod 10 = 0") auto
    note l = console_only_keeps [OF u(2)]
    have ok2: "crt_ok u" "cpu_ok u" "lock_free ConsLock u" using l ok by simp_all
    show ?thesis
      using Cons.IH [OF ok, of best True] Cons.IH [OF ok2, of "Some p" True] True t u k(1) l(1)
        console_only_trans [OF t(2)] console_only_trans [OF console_only_trans [OF t(2) u(2)]]
      by (cases "best = None \<or> bjf_better ?q (procs s ! the best)") (auto simp: Let_def)
  qed
qed

text \<open>Processor \<open>c\<close> executes and holds the lock of the process table, and no other lock.\<close>

definition holds_ptable :: "nat \<Rightarrow> kstate \<Rightarrow> bool" where
  "holds_ptable c t \<longleftrightarrow>
     (\<exists>u. t = taken PtableLock u \<and> cpu_ok u \<and> lock_free PtableLock u \<and> this_cpu u = Some c)"

lemma holds_ptableD:
  assumes "holds_ptable c t"
  shows "cpu_ok t" "this_cpu t = Some c" "0 < ncli (cpus t ! c)"
    "\<exists>u. release PtableLock t = Ok () u \<and> procs u = procs t \<and> lock_free PtableLock u"
proof -
  from assms obtain u where u: "t = taken PtableLock u" "cpu_ok u" "lock_free PtableLock u" "this_cpu u = Some c"
    by (auto simp: holds_ptable_def)
  then have "0 \<le> ncli (cpus u ! c)" "c < length (cpus u)" by (auto simp: cpu_ok_def this_cpu_less)
  with u show "cpu_ok t" "this_cpu t = Some c" "0 < ncli (cpus t ! c)"
    "\<exists>u. release PtableLock t = Ok () u \<and> procs u = procs t \<and> lock_free PtableLock u"
    by (auto simp: cpus_masked release_taken)
qed

lemma holds_ptable_updates:
  assumes "holds_ptable c t"
  shows "holds_ptable c (t\<lparr>random_seed := r\<rparr>)" "console_only t w \<Longrightarrow> holds_ptable c w"
proof -
  from assms obtain u where u: "t = taken PtableLock u" "cpu_ok u" "lock_free PtableLock u" "this_cpu u = Some c"
    by (auto simp: holds_ptable_def)
  then show "holds_ptable c (t\<lparr>random_seed := r\<rparr>)"
    by (auto simp: holds_ptable_def intro!: exI [of _ "u\<lparr>random_seed := r\<rparr>"])
  show "holds_ptable c w" if w: "console_only t w"
  proof -
    from w u(1) obtain out pos m where "w = taken PtableLock (u\<lparr>cons_out := out, crt_pos := pos, crt := m\<rparr>)"
      by (auto simp: console_only_def)
    with u(2-4) show ?thesis
      unfolding holds_ptable_def by (intro exI [of _ "u\<lparr>cons_out := out, crt_pos := pos, crt := m\<rparr>"]) simp
  qed
qed

definition runs :: "nat \<Rightarrow> nat \<Rightarrow> kstate \<Rightarrow> kstate \<Rightarrow> bool" where
  "runs c p s t \<longleftrightarrow> procs t = (procs s)[p := (procs s ! p)\<lparr>p_state := RUNNING\<rparr>]
     \<and> cpu_proc (cpus t ! c) = Some p \<and> cr3 (cpus t ! c) = V2P (p_pgdir (procs s ! p))
     \<and> locked (locks t PtableLock) \<and> lk_cpu (locks t PtableLock) = Some c"

lemma run_picked_holds:
  assumes "holds_ptable c t"
  shows "\<exists>u. run_picked c None t = Ok () u \<and> procs u = procs t \<and> lock_free PtableLock u"
    and "p_kstack (procs t ! p) \<noteq> 0 \<Longrightarrow> p_pgdir (procs t ! p) \<noteq> 0 \<Longrightarrow>
      \<exists>u. run_picked c (Some p) t = Switch u \<and> runs c p t u"
proof -
  note h = holds_ptableD [OF assms]
  show "\<exists>u. run_picked c None t = Ok () u \<and> procs u = procs t \<and> lock_free PtableLock u"
    using h(4) by (simp add: run_picked_def)
  have l: "locked (locks t PtableLock)" "lk_cpu (locks t PtableLock) = Some c"
    using assms by (auto simp: holds_ptable_def)
  show "\<exists>u. run_picked c (Some p) t = Switch u \<and> runs c p t u"
    if "p_kstack (procs t ! p) \<noteq> 0" "p_pgdir (procs t ! p) \<noteq> 0"
    using run_proc_ok [OF h(1-3) that] l by (auto simp: run_picked_def runs_def)
qed

text \<open>What each policy promises of the process it picks.\<close>

definition policy_choice :: "kstate \<Rightarrow> nat \<Rightarrow> bool" where
  "policy_choice s p \<longleftrightarrow>
     (let P = (\<lambda>q. procs s ! q) in
      if current_scheduler s = SCHED_FCFS then
        \<forall>q. runnable s q \<longrightarrow> p_createtime (P p) < p_createtime (P q)
              \<or> p_createtime (P p) = p_createtime (P q) \<and> p \<le> q
      else if current_scheduler s = SCHED_SJF then
        \<forall>q. runnable s q \<longrightarrow> sint (p_estimated_burst (P p)) < sint (p_estimated_burst (P q))
              \<or> p_estimated_burst (P p) = p_estimated_burst (P q) \<and> p \<le> q
      else if current_scheduler s = SCHED_BJF then
        \<forall>q. runnable s q \<longrightarrow> sint (p_priority (P p)) < sint (p_priority (P q))
              \<or> p_priority (P p) = p_priority (P q) \<and> p_createtime (P p) < p_createtime (P q)
              \<or> p_priority (P p) = p_priority (P q) \<and> p_createtime (P p) = p_createtime (P q) \<and> p \<le> q
      else if current_scheduler s = SCHED_RANDOM then
        p = runnables s ! (unat (random_seed s * 1664525 + 1013904223) mod length (runnables s))
      else \<forall>q. runnable s q \<longrightarrow> p \<le> q)"

lemma pick_bjf_ok:
  assumes "crt_ok s" "cpu_ok s" "lock_free ConsLock s"
  shows "\<exists>t. pick_bjf s = Ok (pick_loop bjf_better (procs s) [0..<length (procs s)] None) t \<and> console_only s t"
proof -
  let ?p = "pick_loop bjf_better (procs s) [0..<length (procs s)] None"
  from bjf_loop_ok [OF assms, of "[0..<length (procs s)]" None False] obtain t f where
    t: "bjf_loop [0..<length (procs s)] None False s = Ok (?p, f) t" "console_only s t"
    "f \<longrightarrow> False \<or> (\<exists>p \<in> set [0..<length (procs s)]. p_state (procs s ! p) = RUNNABLE)" by blast
  have "\<not> f" if "?p = None"
    using t(3) that pick_bjf_choice [of s] by (auto simp: runnable_def)
  with t(1,2) show ?thesis by (cases ?p) (auto simp: pick_bjf_def)
qed

text \<open>A pick that is right for the policy, and none only when nothing is runnable.\<close>

definition good_pick :: "kstate \<Rightarrow> nat option \<Rightarrow> bool" where
  "good_pick s p \<longleftrightarrow> (case p of None \<Rightarrow> \<forall>q. \<not> runnable s q | Some p \<Rightarrow> runnable s p \<and> policy_choice s p)"

lemma good_picks:
  "current_scheduler s = SCHED_FCFS \<Longrightarrow> good_pick s (pick_fcfs s)"
  "current_scheduler s = SCHED_SJF \<Longrightarrow> good_pick s (pick_sjf s)"
  "current_scheduler s = SCHED_BJF \<Longrightarrow>
     good_pick s (pick_loop bjf_better (procs s) [0..<length (procs s)] None)"
  "current_scheduler s \<notin> {SCHED_FCFS, SCHED_SJF, SCHED_BJF, SCHED_RANDOM} \<Longrightarrow> good_pick s (pick_rr 0 s)"
  using pick_fcfs_choice [of s] pick_sjf_choice [of s] pick_bjf_choice [of s] pick_rr_choice [of 0 s]
  by (auto simp: good_pick_def policy_choice_def bjf_better_def split: option.splits)

lemma good_pick_random:
  assumes "current_scheduler s = SCHED_RANDOM" "length (procs s) < 2 ^ 32"
  shows "\<exists>p r. pick_random s = Ok p (s\<lparr>random_seed := r\<rparr>) \<and> good_pick s p"
proof (cases "runnables s = []")
  case True
  then have "\<forall>q. \<not> runnable s q" using set_runnables [of s] by auto
  with True pick_random_choice [OF assms(2)] show ?thesis
    by (intro exI [of _ None] exI [of _ "random_seed s"]) (simp add: good_pick_def Let_def)
next
  case False
  let ?r = "random_seed s * 1664525 + 1013904223"
  let ?p = "runnables s ! (unat ?r mod length (runnables s))"
  have "?p \<in> set (runnables s)" using False by (intro nth_mem) simp
  then have "runnable s ?p" by (simp add: set_runnables)
  with False assms(1) pick_random_choice [OF assms(2)] show ?thesis
    by (intro exI [of _ "Some ?p"] exI [of _ ?r]) (simp add: good_pick_def policy_choice_def Let_def)
qed

lemma sti_simps:
  assumes "this_cpu s = Some c"
  shows "this_cpu (sti s) = Some c" "procs (sti s) = procs s" "locks (sti s) = locks s"
    "ncli (cpus (sti s) ! c) = ncli (cpus s ! c)" "current_scheduler (sti s) = current_scheduler s"
    "random_seed (sti s) = random_seed s" "crt_pos (sti s) = crt_pos s"
  using assms this_cpu_less [OF assms]
  by (simp_all add: sti_def this_cpu_upd_cpu cpus_upd_cpu) (simp_all add: upd_cpu_def)

lemma runnable_cong: "procs s = procs t \<Longrightarrow> runnable s = runnable t \<and> runnables s = runnables t"
  by (auto simp: runnable_def runnables_def fun_eq_iff)

lemma good_pick_cong:
  assumes "procs s = procs t" "current_scheduler s = current_scheduler t" "random_seed s = random_seed t"
  shows "good_pick s = good_pick t"
  using runnable_cong [OF assms(1)] assms
  by (auto simp: fun_eq_iff good_pick_def policy_choice_def split: option.splits)

text \<open>The scheduler after it took the lock: whatever the policy, it acts on a good pick.\<close>

lemma scheduler_picks:
  assumes "this_cpu s = Some c" "ncli (cpus s ! c) = 0" "lock_free PtableLock s" "lock_free ConsLock s"
    and "crt_ok s" "length (procs s) \<le> NPROC"
  shows "\<exists>p t. scheduler c s = run_picked c p t \<and> holds_ptable c t \<and> procs t = procs s \<and> good_pick s p"
proof -
  let ?f = "fresh_cpu c (sti s)" and ?t = "taken PtableLock (fresh_cpu c (sti s))"
  note st = sti_simps [OF assms(1)]
  have lf: "lock_free lk (sti s) = lock_free lk s" for lk using st(3) by (simp add: lock_free_def)
  have acq: "acquire PtableLock (sti s) = Ok () ?t"
    using assms(2,3) st lf by (intro acquire_unmasked) simp_all
  have h: "holds_ptable c ?t"
    unfolding holds_ptable_def using assms(2,3) st lf
    by (intro exI [of _ ?f]) (simp add: cpu_ok_fresh)
  have eq: "procs ?t = procs s" "current_scheduler ?t = current_scheduler s" "random_seed ?t = random_seed s"
    using st by (simp_all add: fresh_cpu_def upd_cpu_def)
  note g = good_pick_cong [OF eq]
  have ok: "crt_ok ?t" "cpu_ok ?t" "lock_free ConsLock ?t"
    using assms(4,5) st lf holds_ptableD(1) [OF h]
    by (simp_all add: crt_ok_def) (simp_all add: fresh_cpu_def upd_cpu_def)
  have sch: "scheduler c s = (if current_scheduler ?t = SCHED_FCFS then run_picked c (pick_fcfs ?t) ?t
        else if current_scheduler ?t = SCHED_SJF then run_picked c (pick_sjf ?t) ?t
        else if current_scheduler ?t = SCHED_BJF then bind (pick_bjf ?t) (\<lambda>p s. run_picked c p s)
        else if current_scheduler ?t = SCHED_RANDOM then bind (pick_random ?t) (\<lambda>p s. run_picked c p s)
        else run_picked c (pick_rr 0 ?t) ?t)"
    unfolding scheduler_def Let_def acq by simp
  have fin: ?thesis if "scheduler c s = run_picked c p w" "holds_ptable c w" "procs w = procs s" "good_pick s p" for p w
    using that by blast
  consider "current_scheduler ?t = SCHED_FCFS" | "current_scheduler ?t = SCHED_SJF"
    | "current_scheduler ?t = SCHED_BJF" | "current_scheduler ?t = SCHED_RANDOM"
    | "current_scheduler ?t \<notin> {SCHED_FCFS, SCHED_SJF, SCHED_BJF, SCHED_RANDOM}" by blast
  then show ?thesis
  proof cases
    case 1
    then show ?thesis using sch h eq(1) good_picks(1) [OF 1] g by (intro fin [of "pick_fcfs ?t" ?t]) simp_all
  next
    case 2
    then show ?thesis using sch h eq(1) good_picks(2) [OF 2] g by (intro fin [of "pick_sjf ?t" ?t]) simp_all
  next
    case 3
    from pick_bjf_ok [OF ok] obtain w where
      w: "pick_bjf ?t = Ok (pick_loop bjf_better (procs ?t) [0..<length (procs ?t)] None) w" "console_only ?t w"
      by blast
    show ?thesis
    proof (rule fin)
      show "scheduler c s = run_picked c (pick_loop bjf_better (procs ?t) [0..<length (procs ?t)] None) w"
        using 3 sch w(1) by simp
      show "good_pick s (pick_loop bjf_better (procs ?t) [0..<length (procs ?t)] None)"
        using good_picks(3) [OF 3] g by simp
    qed (use w(2) eq(1) holds_ptable_updates(2) [OF h] console_only_keeps(1) in auto)
  next
    case 4
    from good_pick_random [OF 4] assms(6) eq(1) obtain p r where
      p: "pick_random ?t = Ok p (?t\<lparr>random_seed := r\<rparr>)" "good_pick ?t p" by auto
    with 4 sch eq(1) g holds_ptable_updates(1) [OF h, of r] show ?thesis
      by (intro fin [of p "?t\<lparr>random_seed := r\<rparr>"]) simp_all
  next
    case 5
    then show ?thesis using sch h eq(1) good_picks(4) [OF 5] g by (intro fin [of "pick_rr 0 ?t" ?t]) simp_all
  qed
qed

text \<open>
  C7. A round of the scheduler under any of the five policies: when a process is runnable it
  switches to one the policy promises (the oldest, the one with the shortest estimate, the one
  with the best priority and then the oldest, the one the random number names, or the next in
  the table), which then is marked as running and is on the processor with its page table loaded,
  with the table's lock still held; otherwise the round ends with the lock given back.
\<close>

theorem scheduler_dispatches:
  assumes "this_cpu s = Some c" and "ncli (cpus s ! c) = 0"
    and "lock_free PtableLock s" and "lock_free ConsLock s" and "crt_ok s" and "length (procs s) \<le> NPROC"
    and "\<And>p. runnable s p \<Longrightarrow> p_kstack (procs s ! p) \<noteq> 0 \<and> p_pgdir (procs s ! p) \<noteq> 0"
  shows "if \<exists>p. runnable s p
    then \<exists>p t. runnable s p \<and> policy_choice s p \<and> scheduler c s = Switch t \<and> runs c p s t
    else \<exists>t. scheduler c s = Ok () t \<and> procs t = procs s \<and> lock_free PtableLock t"
proof -
  from scheduler_picks [OF assms(1-6)] obtain p t where
    t: "scheduler c s = run_picked c p t" "holds_ptable c t" "procs t = procs s" "good_pick s p" by blast
  have cong: "runs c q t u = runs c q s u" for q u using t(3) by (simp add: runs_def)
  show ?thesis
  proof (cases p)
    case None
    with t run_picked_holds(1) [OF t(2)] show ?thesis by (auto simp: good_pick_def)
  next
    case (Some q)
    then have "runnable s q" "policy_choice s q" using t(4) by (auto simp: good_pick_def)
    with Some t assms(7) [of q] run_picked_holds(2) [OF t(2), of q] show ?thesis
      unfolding cong by auto
  qed
qed

definition two_jobs :: kstate where
  "two_jobs = one_cpu\<lparr>procs :=
     [proc0\<lparr>p_state := RUNNABLE, p_kstack := 4096, p_pgdir := 8192, p_estimated_burst := 7\<rparr>,
      proc0\<lparr>p_state := RUNNABLE, p_kstack := 4096, p_pgdir := 8192, p_estimated_burst := 3\<rparr>],
     current_scheduler := SCHED_SJF\<rparr>"

theorem scheduler_dispatches_witness: "\<exists>t. scheduler 0 two_jobs = Switch t \<and> runs 0 1 two_jobs t"
proof -
  have r: "runnable two_jobs p \<longleftrightarrow> p = 0 \<or> p = 1" for p
    by (auto simp: runnable_def two_jobs_def less_Suc_eq)
  have "this_cpu two_jobs = Some 0" "ncli (cpus two_jobs ! 0) = 0" "length (procs two_jobs) \<le> NPROC"
    "crt_ok two_jobs"
    by (simp_all add: two_jobs_def this_cpu_def cpu0_def crt_ok_def) (simp_all add: one_cpu_def kstate0_def)
  moreover have "lock_free lk two_jobs" for lk using quiet_one_cpu by (simp add: two_jobs_def)
  ultimately have "if \<exists>p. runnable two_jobs p
    then \<exists>p t. runnable two_jobs p \<and> policy_choice two_jobs p \<and> scheduler 0 two_jobs = Switch t \<and> runs 0 p two_jobs t
    else \<exists>t. scheduler 0 two_jobs = Ok () t \<and> procs t = procs two_jobs \<and> lock_free PtableLock t"
    by (intro scheduler_dispatches) (auto simp: r, simp_all add: two_jobs_def)
  moreover have "\<exists>p. runnable two_jobs p" using r [of 0] by blast
  ultimately have "\<exists>p t. runnable two_jobs p \<and> policy_choice two_jobs p \<and> scheduler 0 two_jobs = Switch t
    \<and> runs 0 p two_jobs t" by (simp only: if_True)
  then obtain p t where "runnable two_jobs p" "policy_choice two_jobs p"
    "scheduler 0 two_jobs = Switch t" "runs 0 p two_jobs t" by blast
  moreover have "current_scheduler two_jobs = SCHED_SJF" "p_estimated_burst (procs two_jobs ! 0) = 7"
    "p_estimated_burst (procs two_jobs ! 1) = 3" by (simp_all add: two_jobs_def)
  then have "\<not> policy_choice two_jobs 0"
    using r [of 1] by (auto simp: policy_choice_def Let_def intro!: exI [of _ 1])
  ultimately show ?thesis using r by auto
qed

end
