(* ===== verification/Frames.thy ===== *)
theory Frames
  imports Proc
begin

text \<open>
  What the code that only locks, masks interrupts, loads page tables or prints leaves alone. Such
  code is \<open>calm\<close>: it changes the processors' masking state, the locks, the serial line and the
  display, and nothing else. It also never reaches \<open>swtch\<close>.
\<close>

section \<open>Calm code\<close>

definition on_cpus :: "kstate \<Rightarrow> nat option list" where
  "on_cpus s = map cpu_proc (cpus s)"

definition calm :: "kstate \<Rightarrow> kstate \<Rightarrow> bool" where
  "calm s t \<longleftrightarrow> (\<exists>cs ls out pos cells.
     t = s\<lparr>cpus := cs, locks := ls, cons_out := out, crt_pos := pos, crt := cells\<rparr>
     \<and> map cpu_proc cs = on_cpus s \<and> map apicid cs = map apicid (cpus s))"

lemma calmI:
  "t = s\<lparr>cpus := cs, locks := ls, cons_out := out, crt_pos := pos, crt := cells\<rparr> \<Longrightarrow>
   map cpu_proc cs = on_cpus s \<Longrightarrow> map apicid cs = map apicid (cpus s) \<Longrightarrow> calm s t"
  unfolding calm_def by blast

lemma calmE:
  assumes "calm s t"
  obtains cs ls out pos cells where
    "t = s\<lparr>cpus := cs, locks := ls, cons_out := out, crt_pos := pos, crt := cells\<rparr>"
    "map cpu_proc cs = on_cpus s" "map apicid cs = map apicid (cpus s)"
  using assms unfolding calm_def by blast

lemma calm_refl [simp]: "calm s s"
  by (rule calmI [where cs = "cpus s" and ls = "locks s" and out = "cons_out s" and pos = "crt_pos s" and cells = "crt s"])
    (simp_all add: on_cpus_def)

lemma calm_trans [trans]: "calm s t \<Longrightarrow> calm t u \<Longrightarrow> calm s u"
proof (elim calmE)
  fix cs ls out pos cells cs' ls' out' pos' cells'
  assume "t = s\<lparr>cpus := cs, locks := ls, cons_out := out, crt_pos := pos, crt := cells\<rparr>"
    "map cpu_proc cs = on_cpus s" "map apicid cs = map apicid (cpus s)"
    "u = t\<lparr>cpus := cs', locks := ls', cons_out := out', crt_pos := pos', crt := cells'\<rparr>"
    "map cpu_proc cs' = on_cpus t" "map apicid cs' = map apicid (cpus t)"
  then show "calm s u"
    by (intro calmI [where cs = cs' and ls = ls' and out = out' and pos = pos' and cells = cells'])
      (simp_all add: on_cpus_def)
qed

lemma calm_fields:
  assumes "calm s t"
  shows "procs t = procs s" "bufs t = bufs s" "inodes t = inodes s" "klog t = klog s"
    "on_cpus t = on_cpus s" "map apicid (cpus t) = map apicid (cpus s)" "lapic_id t = lapic_id s"
  using assms by (auto simp: on_cpus_def elim!: calmE)

lemma calm_upd_cpu:
  assumes "\<And>k. cpu_proc (f k) = cpu_proc k" "\<And>k. apicid (f k) = apicid k"
  shows "calm s (upd_cpu c f s)"
proof -
  have "map cpu_proc ((cpus s)[c := f (cpus s ! c)]) = map cpu_proc (cpus s)"
    "map apicid ((cpus s)[c := f (cpus s ! c)]) = map apicid (cpus s)"
    using assms
    by (cases "c < length (cpus s)"; auto intro!: nth_equalityI simp: nth_list_update)+
  then show ?thesis
    by (intro calmI [where cs = "(cpus s)[c := f (cpus s ! c)]" and ls = "locks s" and out = "cons_out s" and pos = "crt_pos s" and cells = "crt s"])
    (simp_all add: upd_cpu_def on_cpus_def)
qed

lemma this_cpu_calm: "calm s t \<Longrightarrow> this_cpu t = this_cpu s"
proof -
  assume v: "calm s t"
  note f = calm_fields(6,7) [OF v]
  then have l: "length (cpus t) = length (cpus s)" by (metis length_map)
  have "apicid (cpus t ! i) = apicid (cpus s ! i)" if "i < length (cpus s)" for i
    using f(1) l that by (metis nth_map)
  with f l show ?thesis
    unfolding this_cpu_def by (intro scan_cong_idx) auto
qed

interpretation cm: frame calm
  by unfold_locales (auto intro: calm_trans)

lemma mycpu_OkD: "mycpu s = Ok c t \<Longrightarrow> t = s \<and> this_cpu s = Some c"
  by (auto simp: mycpu_def this_cpu_def split: if_splits option.splits)

lemma cli_calm [simp]: "calm s (cli s)" and sti_calm [simp]: "calm s (sti s)"
  and lcr3_calm [simp]: "calm s (lcr3 v s)"
  by (auto simp: cli_def sti_def lcr3_def split: option.splits intro!: calm_upd_cpu)

lemma calm_upd:
  assumes "calm s t" "\<And>k. cpu_proc (f k) = cpu_proc k" "\<And>k. apicid (f k) = apicid k"
  shows "calm s (upd_cpu c f t)"
  using calm_trans [OF assms(1) calm_upd_cpu [OF assms(2,3)]] .

lemma calm_locks [simp]: "calm s (s\<lparr>locks := l\<rparr>)"
  by (rule calmI [where cs = "cpus s" and ls = l and out = "cons_out s" and pos = "crt_pos s" and cells = "crt s"])
    (simp_all add: on_cpus_def)

named_theorems calms "code that changes no more than processors, locks and the console"

lemma mycpu_calm [calms]: "stays calm s (mycpu s)"
  by (simp add: mycpu_def split: option.splits)

lemma pushcli_calm [calms]: "stays calm s (pushcli s)"
  unfolding pushcli_def Let_def
  by (rule cm.stays_after [OF cli_calm]) (auto intro!: cm.stays_bind mycpu_calm calm_upd)

lemma popcli_calm [calms]: "stays calm s (popcli s)"
  unfolding popcli_def Let_def
  by (auto intro!: cm.stays_bind mycpu_calm calm_upd calm_trans [OF _ sti_calm])

lemma holding_calm [calms]: "stays calm s (holding lk s)"
  unfolding holding_def Let_def by (intro cm.stays_bind calms) simp

lemma acquire_calm [calms]: "stays calm s (acquire lk s)"
  unfolding acquire_def Let_def
  by (intro cm.stays_bind calms stays_if cm.stays_after [OF calm_locks mycpu_calm]) simp_all

lemma release_calm [calms]: "stays calm s (release lk s)"
  unfolding release_def Let_def
  by (intro cm.stays_bind calms stays_if cm.stays_after [OF calm_locks popcli_calm]) simp_all

lemma myproc_calm [calms]: "stays calm s (myproc s)"
  unfolding myproc_def Let_def by (intro cm.stays_bind calms) simp

lemma switchuvm_calm [calms]: "stays calm s (switchuvm p s)"
  unfolding switchuvm_def Let_def
  by (intro cm.stays_bind calms stays_if stays_option cm.stays_after [OF _ popcli_calm]
      calm_upd calm_trans [OF _ lcr3_calm]) simp_all

lemma switchkvm_calm [simp]: "calm s (switchkvm s)"
  by (simp add: switchkvm_def)

lemma no_switch:
  "mycpu s \<noteq> Switch t" "pushcli s \<noteq> Switch t" "popcli s \<noteq> Switch t"
  by (auto simp: mycpu_def pushcli_def popcli_def Let_def bind_eq_Switch split: option.splits if_splits)

lemma lock_no_switch:
  "holding lk s \<noteq> Switch t" "acquire lk s \<noteq> Switch t" "release lk s \<noteq> Switch t"
  "myproc s \<noteq> Switch t" "switchuvm p s \<noteq> Switch t"
proof -
  show *: "holding lk s \<noteq> Switch t" for s t
    by (auto simp: holding_def Let_def bind_eq_Switch no_switch)
  show "acquire lk s \<noteq> Switch t" "release lk s \<noteq> Switch t"
    by (auto simp: acquire_def release_def Let_def bind_eq_Switch no_switch * split: if_splits)
  show "myproc s \<noteq> Switch t" "switchuvm p s \<noteq> Switch t"
    by (auto simp: myproc_def switchuvm_def Let_def bind_eq_Switch no_switch split: option.splits if_splits)
qed

lemma myproc_value:
  assumes "myproc s = Ok q t" "this_cpu s = Some c"
  shows "q = on_cpus s ! c"
proof -
  from assms(1) obtain u c' where u: "pushcli s = Ok () u" "this_cpu u = Some c'"
    "q = cpu_proc (cpus u ! c')"
    by (auto simp: myproc_def Let_def bind_eq_Ok dest!: mycpu_OkD)
  have v: "calm s u" using stays_OkD [OF pushcli_calm u(1)] .
  then have "c' = c" using u(2) this_cpu_calm [OF v] assms(2) by simp
  moreover have "length (cpus u) = length (cpus s)" using calm_fields(6) [OF v] by (metis length_map)
  then have "c < length (cpus u)" using this_cpu_less [OF assms(2)] by simp
  then have "on_cpus u ! c = cpu_proc (cpus u ! c)" by (simp add: on_cpus_def)
  moreover have "on_cpus u = on_cpus s" using calm_fields(5) [OF v] .
  ultimately show "q = on_cpus s ! c" using u(3) by simp
qed

section \<open>What printing leaves alone\<close>

lemma cgaputc_shape: "\<exists>b p m. cgaputc c s
    = (if b then Panic ''pos under/overflow'' else Ok () (s\<lparr>crt_pos := p, crt := m\<rparr>))"
  unfolding cgaputc_def Let_def by blast

lemma cgaputc_calm [calms]: "stays calm s (cgaputc c s)"
proof -
  from cgaputc_shape [of c s] obtain b p m where
    "cgaputc c s = (if b then Panic ''pos under/overflow'' else Ok () (s\<lparr>crt_pos := p, crt := m\<rparr>))"
    by blast
  moreover have "calm s (s\<lparr>crt_pos := p, crt := m\<rparr>)"
    by (rule calmI [where cs = "cpus s" and ls = "locks s" and out = "cons_out s" and pos = p and cells = m])
      (simp_all add: on_cpus_def)
  ultimately show ?thesis by simp
qed

lemma uartputc_calm: "calm s t \<Longrightarrow> calm s (uartputc c t)"
  by (erule calm_trans, rule calmI [where cs = "cpus t" and ls = "locks t" and
        out = "if uart t then cons_out t @ [c] else cons_out t" and pos = "crt_pos t" and cells = "crt t"])
    (simp_all add: uartputc_def on_cpus_def)

lemma consputc_calm [calms]: "stays calm s (consputc c s)"
  unfolding consputc_def Let_def
  by (rule cm.stays_after [OF _ cgaputc_calm]) (simp add: uartputc_calm)

lemma consputs_calm [calms]: "stays calm s (consputs bs s)"
  by (induction bs arbitrary: s) (auto intro!: cm.stays_bind calms)

lemma stays_list:
  "(z = [] \<Longrightarrow> stays R s x) \<Longrightarrow> (\<And>a as. z = a # as \<Longrightarrow> stays R s (y a as)) \<Longrightarrow>
   stays R s (case z of [] \<Rightarrow> x | a # as \<Rightarrow> y a as)"
  by (cases z) simp_all

lemma stays_fmt_arg:
  "(\<And>a. z = AInt a \<Longrightarrow> stays R s (x a)) \<Longrightarrow> (\<And>a. z = AStr a \<Longrightarrow> stays R s (y a)) \<Longrightarrow>
   stays R s (case z of AInt a \<Rightarrow> x a | AStr a \<Rightarrow> y a)"
  by (cases z) simp_all

lemma cprintf_loop_calm [calms]: "stays calm s (cprintf_loop fmt ap s)"
proof (induction fmt arbitrary: ap s rule: length_induct)
  case (1 fmt)
  then have IH: "length f < length fmt \<Longrightarrow> stays calm t (cprintf_loop f a t)" for f a t by blast
  show ?case
  proof (cases fmt)
    case (Cons c f)
    show ?thesis
      unfolding Cons
      by (subst cprintf_loop.simps(2), intro stays_if stays_list stays_fmt_arg stays_option
          cm.stays_bind consputc_calm consputs_calm IH) (simp_all add: Cons)
  qed simp
qed

lemma cprintf_calm [calms]: "stays calm s (cprintf fmt ap s)"
  by (auto simp: cprintf_def Let_def split: option.splits intro!: cm.stays_bind calms)

end
