(* ===== verification/Dispatch.thy ===== *)
theory Dispatch
  imports Frames
begin

text \<open>
  Processes on processors: the scheduler of every processor and the processes it runs take turns,
  each turn ending where the lock of the process table is given back. The theory shows that a
  process is never on two processors and that the processes marked as running are exactly the
  ones that are on a processor.
\<close>

section \<open>What lock and page-table code leaves alone\<close>

definition marks :: "kstate \<Rightarrow> bool list" where
  "marks s = map (\<lambda>p. p_state p = RUNNING) (procs s)"

text \<open>Same processes on the same processors, and the same processes marked as running.\<close>

definition same_view :: "kstate \<Rightarrow> kstate \<Rightarrow> bool" where
  "same_view s t \<longleftrightarrow> marks t = marks s \<and> on_cpus t = on_cpus s
     \<and> map apicid (cpus t) = map apicid (cpus s) \<and> lapic_id t = lapic_id s"

lemma same_view_refl [simp]: "same_view s s"
  by (simp add: same_view_def)

lemma same_view_trans [trans]: "same_view s t \<Longrightarrow> same_view t u \<Longrightarrow> same_view s u"
  by (simp add: same_view_def)

interpretation vw: frame same_view
  by unfold_locales (auto intro: same_view_trans)

lemma calm_view: "calm s t \<Longrightarrow> same_view s t"
  by (simp add: same_view_def marks_def calm_fields)

lemma stays_calm_view: "stays calm s r \<Longrightarrow> stays same_view s r"
  by (erule stays_mono) (rule calm_view)

named_theorems views "code that moves no process from or to a processor"

lemmas calm_views [views] = calms [THEN stays_calm_view]

lemmas acquire_view = acquire_calm [THEN stays_calm_view]
  and release_view = release_calm [THEN stays_calm_view]
  and myproc_view = myproc_calm [THEN stays_calm_view]
  and switchuvm_view = switchuvm_calm [THEN stays_calm_view]
  and cprintf_view = cprintf_calm [THEN stays_calm_view]

lemma sti_view: "same_view s (sti s)" and switchkvm_view: "same_view s (switchkvm s)"
  by (simp_all add: calm_view)

section \<open>What the operations on processes leave alone\<close>

lemma marks_upd:
  assumes "\<not> p < length (procs s) \<or> (p_state (f (procs s ! p)) = RUNNING) = (p_state (procs s ! p) = RUNNING)"
  shows "same_view s (upd_proc p f s)"
proof -
  have "marks (upd_proc p f s) = marks s"
  proof (cases "p < length (procs s)")
    case True
    with assms show ?thesis
      unfolding marks_def upd_proc_def by (simp add: map_update list_update_same_conv)
  qed (simp add: upd_proc_def marks_def list_update_beyond not_less)
  then show ?thesis by (simp add: same_view_def on_cpus_def upd_proc_def)
qed

lemma marks_nth: "p < length (procs s) \<Longrightarrow> marks s ! p = (p_state (procs s ! p) = RUNNING)"
  by (simp add: marks_def)

lemma wakeup1_view: "same_view s (wakeup1 ch s)"
  by (auto simp: same_view_def on_cpus_def marks_def wakeup1_def)

lemma wakeup_view [views]: "stays same_view s (wakeup ch s)"
  unfolding wakeup_def
  by (intro vw.stays_bind views vw.stays_after [OF wakeup1_view release_view])

lemma kill_mark:
  "same_view s (let s = upd_proc p (\<lambda>q. q\<lparr>p_killed := True\<rparr>) s in
     if p_state (procs s ! p) = SLEEPING then upd_proc p (\<lambda>q. q\<lparr>p_state := RUNNABLE\<rparr>) s else s)"
  unfolding Let_def
  by (auto intro!: same_view_trans [OF marks_upd marks_upd] marks_upd)

lemma kill_view [views]: "stays same_view s (kill pid s)"
proof -
  have *: "stays same_view s (bind (release PtableLock (let s = upd_proc p (\<lambda>q. q\<lparr>p_killed := True\<rparr>) s in
     if p_state (procs s ! p) = SLEEPING then upd_proc p (\<lambda>q. q\<lparr>p_state := RUNNABLE\<rparr>) s else s))
       (\<lambda>_ s. Ok x s))" for p x and s :: kstate
    by (intro vw.stays_bind vw.stays_after [OF kill_mark release_view]) simp
  show ?thesis
    unfolding kill_def Let_def
    by (rule vw.stays_bind [OF acquire_view], rule stays_option;
        (rule * [unfolded Let_def] | rule vw.stays_bind [OF release_view], simp))
qed

lemma sched_resume_view [views]: "stays same_view s (sched_resume ie s)"
  unfolding sched_resume_def by (intro vw.stays_bind views) (simp add: calm_view calm_upd_cpu)

lemma yield_resume_view [views]: "stays same_view s (yield_resume ie s)"
  unfolding yield_resume_def by (intro vw.stays_bind views)

lemma sleep_resume_view [views]: "stays same_view s (sleep_resume ie p st lk s)"
proof -
  have "same_view s (upd_proc p (\<lambda>q. q\<lparr>p_chan := None\<rparr>)
      (upd_proc p (\<lambda>q. q\<lparr>p_sleeptime := p_sleeptime q + (ticks s - st)\<rparr>) s))" for s
    by (intro same_view_trans [OF marks_upd marks_upd]) simp_all
  note r = vw.stays_after [OF this release_view] and i = this
  show ?thesis
    unfolding sleep_resume_def Let_def
    by (intro vw.stays_bind views stays_if r) (simp add: i)
qed

section \<open>The scheduler's side\<close>

text \<open>Processor \<open>c\<close> has been handed to process \<open>p\<close>.\<close>

definition put_on :: "nat \<Rightarrow> nat \<Rightarrow> kstate \<Rightarrow> kstate \<Rightarrow> bool" where
  "put_on c p s t \<longleftrightarrow> marks t = (marks s)[p := True] \<and> on_cpus t = (on_cpus s)[c := Some p]
     \<and> map apicid (cpus t) = map apicid (cpus s)"

definition unmarked :: "kstate \<Rightarrow> nat \<Rightarrow> bool" where
  "unmarked s p \<longleftrightarrow> p < length (marks s) \<and> \<not> marks s ! p"

lemma runnable_unmarked: "runnable s p \<Longrightarrow> unmarked s p"
  by (auto simp: runnable_def unmarked_def marks_def)

lemma unmarked_view: "same_view s t \<Longrightarrow> unmarked s p = unmarked t p"
  by (simp add: same_view_def unmarked_def)

lemma put_on_view:
  "same_view s t \<Longrightarrow> put_on c p t u \<Longrightarrow> put_on c p s u"
  "put_on c p s t \<Longrightarrow> same_view t u \<Longrightarrow> put_on c p s u"
  by (simp_all add: put_on_def same_view_def)

lemma map_list_update_same: "f y = f (xs ! i) \<Longrightarrow> map f (xs[i := y]) = map f xs"
  by (metis list_update_id map_update)

lemma set_cpu_proc:
  "marks (upd_cpu c (\<lambda>k. k\<lparr>cpu_proc := q\<rparr>) s) = marks s"
  "on_cpus (upd_cpu c (\<lambda>k. k\<lparr>cpu_proc := q\<rparr>) s) = (on_cpus s)[c := q]"
  "map apicid (cpus (upd_cpu c (\<lambda>k. k\<lparr>cpu_proc := q\<rparr>) s)) = map apicid (cpus s)"
  "lapic_id (upd_cpu c (\<lambda>k. k\<lparr>cpu_proc := q\<rparr>) s) = lapic_id s"
  by (simp_all add: marks_def on_cpus_def upd_cpu_def map_list_update_same) (simp add: map_update)

lemma set_running:
  "marks (upd_proc p (\<lambda>q. q\<lparr>p_state := RUNNING\<rparr>) s) = (marks s)[p := True]"
  "on_cpus (upd_proc p f s) = on_cpus s" "cpus (upd_proc p f s) = cpus s"
  "lapic_id (upd_proc p f s) = lapic_id s"
  by (simp_all add: marks_def on_cpus_def upd_proc_def map_update)

lemma run_proc_put:
  assumes "res_state (run_proc c p s) = Some t"
  shows "put_on c p s t"
proof -
  let ?s = "upd_cpu c (\<lambda>k. k\<lparr>cpu_proc := Some p\<rparr>) s"
  consider u where "switchuvm (Some p) ?s = Ok () u" "t = upd_proc p (\<lambda>q. q\<lparr>p_state := RUNNING\<rparr>) u"
    | "switchuvm (Some p) ?s = Switch t"
    using assms by (cases "switchuvm (Some p) ?s") (auto simp: run_proc_def Let_def)
  then show ?thesis
  proof cases
    case 1
    from stays_OkD [OF switchuvm_view 1(1)] show ?thesis
      unfolding put_on_def same_view_def 1(2) by (simp add: set_running set_cpu_proc)
  next
    case 2
    then show ?thesis using lock_no_switch(5) by blast
  qed
qed

lemma run_picked_put:
  "run_picked c p s = Ok x t \<Longrightarrow> p = None \<and> same_view s t"
  "run_picked c p s = Switch t \<Longrightarrow> \<exists>q. p = Some q \<and> put_on c q s t"
proof -
  have r: "run_proc c q s \<noteq> Ok x t" for q
    by (auto simp: run_proc_def Let_def bind_eq_Ok)
  show "run_picked c p s = Ok x t \<Longrightarrow> p = None \<and> same_view s t"
    using r stays_OkD [OF release_view] by (cases p) (auto simp: run_picked_def)
  show "run_picked c p s = Switch t \<Longrightarrow> \<exists>q. p = Some q \<and> put_on c q s t"
    using run_proc_put lock_no_switch(3) by (cases p) (auto simp: run_picked_def)
qed

text \<open>The entry that best-job-first selects, whatever the printing did.\<close>

lemma bjf_loop_picks:
  assumes "bjf_loop ixs best found s = Ok (best', f) t" "set ixs \<subseteq> {..<length (procs s)}"
    "\<And>p. best = Some p \<Longrightarrow> unmarked s p"
  shows "same_view s t \<and> (\<forall>p. best' = Some p \<longrightarrow> unmarked t p)"
  using assms
proof (induction ixs arbitrary: best found s)
  case (Cons p ixs)
  let ?q = "procs s ! p"
  have len: "same_view a b \<Longrightarrow> length (procs b) = length (procs a)" for a b
    by (metis length_map marks_def same_view_def)
  show ?case
  proof (cases "p_state ?q = RUNNABLE")
    case False
    with Cons.prems Cons.IH [of best found s] show ?thesis by auto
  next
    case True
    then have p: "unmarked s p" using Cons.prems(2) by (auto simp: unmarked_def marks_def)
    have pr: "same_view a b"
      if "(if c then cprintf x y a else Ok () a) = Ok () b" for c x y a b
      using that stays_OkD [OF cprintf_view] by (auto split: if_splits)
    from Cons.prems(1) True obtain u where
      u: "(if sint (p_pid ?q) mod 10 = 0 then cprintf (Some bjf_considering)
             [AInt (p_pid ?q), AInt (p_priority ?q)] s else Ok () s) = Ok () u"
      and k: "(if best = None \<or> bjf_better ?q (procs u ! the best) then
            bind (if sint (p_pid ?q) mod 10 = 0
                  then cprintf (Some bjf_selected) [AInt (p_pid ?q), AInt (p_priority ?q)] u
                  else Ok () u) (\<lambda>_ s. bjf_loop ixs (Some p) True s)
          else bjf_loop ixs best True u) = Ok (best', f) t"
      by (auto simp: Let_def bind_eq_Ok simp del: if_split)
    note su = pr [OF u]
    show ?thesis
    proof (cases "best = None \<or> bjf_better ?q (procs u ! the best)")
      case True
      with k obtain w where w: "same_view u w" "bjf_loop ixs (Some p) True w = Ok (best', f) t"
        by (auto simp: bind_eq_Ok dest: pr simp del: if_split)
      note sw = same_view_trans [OF su w(1)]
      from Cons.IH [OF w(2)] Cons.prems(2) p len [OF sw] unmarked_view [OF sw] show ?thesis
        using same_view_trans [OF sw] by auto
    next
      case False
      with k Cons.IH [of best True u] Cons.prems(2,3) len [OF su] unmarked_view [OF su] show ?thesis
        using same_view_trans [OF su] by auto
    qed
  qed
qed simp

lemma cprintf_loop_no_switch: "cprintf_loop fmt ap s \<noteq> Switch t"
proof (induction fmt arbitrary: ap s rule: length_induct)
  case (1 fmt)
  have c: "consputc c u \<noteq> Switch t" for c u
  proof -
    have "cgaputc d w \<noteq> Switch t" for d w
      using cgaputc_shape [of d w] by (elim exE) simp
    then show ?thesis unfolding consputc_def Let_def .
  qed
  have cs: "consputs bs u \<noteq> Switch t" for bs u
    by (induction bs arbitrary: u) (auto simp: bind_eq_Switch c)
  show ?case
  proof (cases fmt)
    case (Cons x f)
    with 1 have IH: "length g \<le> length f \<Longrightarrow> cprintf_loop g a u \<noteq> Switch t" for g a u by auto
    show ?thesis
      unfolding Cons
      by (subst cprintf_loop.simps(2))
        (auto simp: bind_eq_Switch c cs IH split: list.splits fmt_arg.splits option.splits)
  qed simp
qed

lemma cprintf_no_switch: "cprintf fmt ap s \<noteq> Switch t"
  by (auto simp: cprintf_def Let_def bind_eq_Switch lock_no_switch cprintf_loop_no_switch
      split: option.splits if_splits)

lemma pick_no_switch: "pick_bjf s \<noteq> Switch t" "pick_random s \<noteq> Switch t"
proof -
  have "bjf_loop ixs b f u \<noteq> Switch t" for ixs b f u
    by (induction ixs arbitrary: b f u) (auto simp: Let_def bind_eq_Switch cprintf_no_switch)
  then show "pick_bjf s \<noteq> Switch t" "pick_random s \<noteq> Switch t"
    by (auto simp: pick_bjf_def pick_random_def rand_def Let_def bind_eq_Switch cprintf_no_switch
        split: option.splits if_splits)
qed

lemma pick_bjf_picks:
  assumes "pick_bjf s = Ok p t"
  shows "same_view s t \<and> (\<forall>q. p = Some q \<longrightarrow> unmarked t q)"
proof -
  from assms obtain best f u where
    u: "bjf_loop [0..<length (procs s)] None False s = Ok (best, f) u"
    and k: "(case best of Some p \<Rightarrow> Ok (Some p) u
       | None \<Rightarrow> if f then bind (cprintf (Some (lit (''DEBUG: BJF ERROR: Found runnable processes but selected none!''
                        @ [CHR 0x0A]))) [] u) (\<lambda>_ s. Ok None s) else Ok None u) = Ok p t"
    by (auto simp: pick_bjf_def bind_eq_Ok)
  from bjf_loop_picks [OF u] have "same_view s u" "\<forall>p. best = Some p \<longrightarrow> unmarked u p"
    by (auto simp: lessThan_atLeast0)
  with k show ?thesis
    using stays_OkD [OF cprintf_view]
    by (auto simp: bind_eq_Ok split: option.splits if_splits intro: same_view_trans)
qed

lemma random_loop_picks:
  "random_loop ps ixs i t = Some p \<Longrightarrow> p \<in> set ixs \<and> p_state (ps ! p) = RUNNABLE"
  by (induction ixs arbitrary: i) (auto split: if_splits)

lemma pick_random_picks:
  assumes "pick_random s = Ok p t"
  shows "same_view s t \<and> (\<forall>q. p = Some q \<longrightarrow> unmarked t q)"
proof -
  from assms have "same_view s t"
    by (auto simp: pick_random_def rand_def Let_def same_view_def on_cpus_def marks_def split: if_splits)
  moreover have "runnable s q" if "p = Some q" for q
    using assms that
    by (auto simp: pick_random_def rand_def Let_def runnable_def split: if_splits dest: random_loop_picks)
  ultimately show ?thesis using runnable_unmarked unmarked_view by blast
qed

lemma pick_unmarked:
  "pick_fcfs s = Some p \<Longrightarrow> unmarked s p" "pick_sjf s = Some p \<Longrightarrow> unmarked s p"
  "pick_rr i s = Some p \<Longrightarrow> unmarked s p"
  using pick_fcfs_choice [of s] pick_sjf_choice [of s] pick_rr_choice [of i s]
  by (auto intro: runnable_unmarked)

text \<open>What a stretch of the scheduler on processor \<open>c\<close> may do.\<close>

definition handed :: "nat \<Rightarrow> kstate \<Rightarrow> (kstate, unit) res \<Rightarrow> bool" where
  "handed c s r \<longleftrightarrow> (\<forall>t. r = Ok () t \<longrightarrow> same_view s t)
     \<and> (\<forall>t. r = Switch t \<longrightarrow> (\<exists>p. unmarked s p \<and> put_on c p s t))"

lemma handed_view:
  assumes "same_view s t" "handed c t r"
  shows "handed c s r"
  using assms same_view_trans unmarked_view [OF assms(1)] put_on_view(1) [OF assms(1)]
  unfolding handed_def by blast

lemma handed_bind:
  assumes "\<And>x t. m = Ok x t \<Longrightarrow> same_view s t \<and> handed c t (k x t)" "\<And>t. m \<noteq> Switch t"
  shows "handed c s (bind m k)"
proof (cases m)
  case (Ok x t)
  then show ?thesis using assms(1) handed_view [of s t c] by auto
qed (use assms(2) in \<open>auto simp: handed_def\<close>)

lemma run_picked_handed: "(\<And>q. p = Some q \<Longrightarrow> unmarked s q) \<Longrightarrow> handed c s (run_picked c p s)"
  unfolding handed_def by (auto dest!: run_picked_put)

lemma scheduler_handed: "handed c s (scheduler c s)"
proof -
  have "handed c (sti s) (scheduler c s)"
    unfolding scheduler_def Let_def
  proof (rule handed_bind)
    fix x t
    assume "acquire PtableLock (sti s) = Ok x t"
    then have v: "same_view (sti s) t" by (rule stays_OkD [OF acquire_view])
    show "same_view (sti s) t \<and> handed c t (if current_scheduler t = SCHED_FCFS then run_picked c (pick_fcfs t) t
        else if current_scheduler t = SCHED_SJF then run_picked c (pick_sjf t) t
        else if current_scheduler t = SCHED_BJF then
          bind (pick_bjf t) (\<lambda>p s. run_picked c p s)
        else if current_scheduler t = SCHED_RANDOM then
          bind (pick_random t) (\<lambda>p s. run_picked c p s)
        else run_picked c (pick_rr 0 t) t)"
      using v pick_unmarked pick_bjf_picks pick_random_picks pick_no_switch
      by (auto intro!: run_picked_handed handed_bind)
  qed (rule lock_no_switch)
  then show ?thesis by (rule handed_view [OF sti_view])
qed

lemma scheduler_resume_handed:
  "\<exists>s'. marks s' = marks s \<and> on_cpus s' = (on_cpus s)[c := None] \<and> map apicid (cpus s') = map apicid (cpus s)
     \<and> handed c s' (scheduler_resume c rr s)"
proof (intro exI [of _ "upd_cpu c (\<lambda>k. k\<lparr>cpu_proc := None\<rparr>) (switchkvm s)"] conjI)
  let ?s = "upd_cpu c (\<lambda>k. k\<lparr>cpu_proc := None\<rparr>) (switchkvm s)"
  have v: "same_view s (switchkvm s)" by (rule switchkvm_view)
  then show "marks ?s = marks s" "on_cpus ?s = (on_cpus s)[c := None]"
    "map apicid (cpus ?s) = map apicid (cpus s)"
    unfolding set_cpu_proc by (simp_all add: same_view_def)
  have "handed c ?s (release PtableLock ?s)"
    using run_picked_handed [of None ?s c] by (simp add: run_picked_def)
  then show "handed c ?s (scheduler_resume c rr s)"
    by (auto simp: scheduler_resume_def Let_def pick_unmarked intro!: run_picked_handed split: option.splits)
qed

section \<open>The processes' side\<close>

text \<open>The process on processor \<open>c\<close> is no longer marked as running and is about to leave it.\<close>

definition leaving :: "nat \<Rightarrow> kstate \<Rightarrow> kstate \<Rightarrow> bool" where
  "leaving c s t \<longleftrightarrow> (\<exists>p. on_cpus s ! c = Some p \<and> marks t = (marks s)[p := False]
     \<and> on_cpus t = on_cpus s \<and> map apicid (cpus t) = map apicid (cpus s))"

lemma sched_view: "sched s = Switch t \<Longrightarrow> same_view s t"
proof -
  have "stays same_view s (sched s)"
    unfolding sched_def by (intro vw.stays_bind views stays_if stays_option) simp_all
  then show "sched s = Switch t \<Longrightarrow> same_view s t" by simp
qed

lemma leaving_sched:
  assumes "same_view s u" "on_cpus s ! c = Some p" "st \<noteq> RUNNING"
    and "same_view (upd_proc p (\<lambda>q. q\<lparr>p_state := st\<rparr>) u) w" "sched w = Switch t"
  shows "leaving c s t"
proof -
  have "marks (upd_proc p (\<lambda>q. q\<lparr>p_state := st\<rparr>) u) = (marks u)[p := False]"
    using assms(3) by (simp add: marks_def upd_proc_def map_update)
  moreover have "same_view w t" using assms(5) by (rule sched_view)
  ultimately show ?thesis
    using assms unfolding leaving_def same_view_def by (simp add: set_running)
qed

text \<open>How a process comes to \<open>sched\<close>: the entry of the processor's process is updated, the rest is calm.\<close>

lemma yield_inv:
  assumes "yield s = Switch t" "this_cpu s = Some c"
  obtains p u where "on_cpus s ! c = Some p" "calm s u"
    "sched (upd_proc p (\<lambda>q. q\<lparr>p_yield_request := False\<rparr>) (upd_proc p (\<lambda>q. q\<lparr>p_state := RUNNABLE\<rparr>) u)) = Switch t"
proof -
  from assms(1) obtain u p v where u: "acquire PtableLock s = Ok () u" "myproc u = Ok (Some p) v"
    "sched (upd_proc p (\<lambda>q. q\<lparr>p_yield_request := False\<rparr>) (upd_proc p (\<lambda>q. q\<lparr>p_state := RUNNABLE\<rparr>) v)) = Switch t"
    by (auto simp: yield_def Let_def bind_eq_Switch lock_no_switch split: option.splits)
  note su = stays_OkD [OF acquire_calm u(1)]
  show ?thesis
  proof (rule that)
    show "calm s v" by (rule calm_trans [OF su stays_OkD [OF myproc_calm u(2)]])
    show "on_cpus s ! c = Some p"
      using myproc_value [OF u(2)] this_cpu_calm [OF su] assms(2) calm_fields(5) [OF su] by simp
  qed (rule u(3))
qed

lemma sleep_inv:
  assumes "sleep ch lk s = Switch t" "this_cpu s = Some c"
  obtains p u where "on_cpus s ! c = Some p" "calm s u"
    "sched (upd_proc p (\<lambda>q. q\<lparr>p_state := SLEEPING\<rparr>) (upd_proc p (\<lambda>q. q\<lparr>p_chan := Some ch\<rparr>) u)) = Switch t"
proof -
  have ns: "(if l \<noteq> PtableLock then bind (acquire PtableLock u) (\<lambda>_ s. release l s) else Ok () u) \<noteq> Switch t"
    for l u by (simp add: bind_eq_Switch lock_no_switch)
  let ?lock = "\<lambda>l u. if l \<noteq> PtableLock then bind (acquire PtableLock u) (\<lambda>_ s. release l s) else Ok () u"
  from assms(1) obtain p u l where "myproc s = Ok (Some p) u" "bind (?lock l u) (\<lambda>_ s.
    sched (upd_proc p (\<lambda>q. q\<lparr>p_state := SLEEPING\<rparr>) (upd_proc p (\<lambda>q. q\<lparr>p_chan := Some ch\<rparr>) s))) = Switch t"
    using lock_no_switch(4) unfolding sleep_def Let_def bind_eq_Switch [of "myproc s"]
    by (elim disjE exE conjE) (blast, (simp only: split: option.splits; blast?))
  then obtain v where u: "myproc s = Ok (Some p) u" "?lock l u = Ok () v"
    "sched (upd_proc p (\<lambda>q. q\<lparr>p_state := SLEEPING\<rparr>) (upd_proc p (\<lambda>q. q\<lparr>p_chan := Some ch\<rparr>) v)) = Switch t"
    using ns unfolding bind_eq_Switch [of "?lock l u"] by (metis old.unit.exhaust)
  have "stays calm u (?lock l u)" by (intro stays_if cm.stays_bind calms) simp
  then have "calm s v" using stays_OkD [OF _ u(2)] stays_OkD [OF myproc_calm u(1)] calm_trans by blast
  then show ?thesis using myproc_value [OF u(1) assms(2)] u(3) by (intro that) simp_all
qed

lemma yield_leaving:
  assumes "yield s = Switch t" "this_cpu s = Some c"
  shows "leaving c s t"
proof -
  from yield_inv [OF assms] obtain p u where u: "on_cpus s ! c = Some p" "calm s u"
    "sched (upd_proc p (\<lambda>q. q\<lparr>p_yield_request := False\<rparr>) (upd_proc p (\<lambda>q. q\<lparr>p_state := RUNNABLE\<rparr>) u)) = Switch t" .
  then show ?thesis by (intro leaving_sched [OF calm_view [OF u(2)] u(1), where st = RUNNABLE]) (auto intro: marks_upd)
qed

lemma sleep_leaving:
  assumes "sleep ch lk s = Switch t" "this_cpu s = Some c"
  shows "leaving c s t"
proof -
  from sleep_inv [OF assms] obtain p u where u: "on_cpus s ! c = Some p" "calm s u"
    "sched (upd_proc p (\<lambda>q. q\<lparr>p_state := SLEEPING\<rparr>) (upd_proc p (\<lambda>q. q\<lparr>p_chan := Some ch\<rparr>) u)) = Switch t" .
  have "same_view s (upd_proc p (\<lambda>q. q\<lparr>p_chan := Some ch\<rparr>) u)"
    by (rule same_view_trans [OF calm_view [OF u(2)]]) (simp add: marks_upd)
  then show ?thesis using u by (intro leaving_sched [OF _ u(1) _ same_view_refl u(3)]) auto
qed

section \<open>Processors taking turns\<close>

text \<open>
  One turn of processor \<open>c\<close>. Its scheduler finds nothing to run, or hands the processor to a
  process, which goes on after the \<open>sched\<close> it gave the processor away in; the process on it gives
  the processor back, and the scheduler goes on after its \<open>swtch\<close> and starts a new round or hands
  the processor on; or the process wakes or kills others.
\<close>

inductive gives_up :: "kstate \<Rightarrow> kstate \<Rightarrow> bool" where
  "yield s = Switch t \<Longrightarrow> gives_up s t"
| "sleep ch lk s = Switch t \<Longrightarrow> gives_up s t"

inductive goes_on :: "kstate \<Rightarrow> kstate \<Rightarrow> bool" where
  "yield_resume ie s = Ok () t \<Longrightarrow> goes_on s t"
| "sleep_resume ie p start_ticks lk s = Ok () t \<Longrightarrow> goes_on s t"

inductive run_step :: "kstate \<Rightarrow> kstate \<Rightarrow> bool" where
  idle: "c < length (cpus s) \<Longrightarrow> cpu_proc (cpus s ! c) = None \<Longrightarrow>
     scheduler c (on_cpu c s) = Ok () t \<Longrightarrow> run_step s t"
| dispatch: "c < length (cpus s) \<Longrightarrow> cpu_proc (cpus s ! c) = None \<Longrightarrow>
     scheduler c (on_cpu c s) = Switch t \<Longrightarrow> goes_on t u \<Longrightarrow> run_step s u"
| returns: "c < length (cpus s) \<Longrightarrow> gives_up (on_cpu c s) t \<Longrightarrow>
     scheduler_resume c rr t = Ok () u \<Longrightarrow> run_step s u"
| onward: "c < length (cpus s) \<Longrightarrow> gives_up (on_cpu c s) t \<Longrightarrow>
     scheduler_resume c rr t = Switch u \<Longrightarrow> goes_on u v \<Longrightarrow> run_step s v"
| wakes: "c < length (cpus s) \<Longrightarrow> wakeup ch (on_cpu c s) = Ok () t \<Longrightarrow> run_step s t"
| kills: "c < length (cpus s) \<Longrightarrow> kill pid (on_cpu c s) = Ok x t \<Longrightarrow> run_step s t"

definition boot_idle :: "kstate \<Rightarrow> bool" where
  "boot_idle s \<longleftrightarrow> distinct (map apicid (cpus s)) \<and> (\<forall>k \<in> set (cpus s). cpu_proc k = None)
     \<and> (\<forall>p \<in> set (procs s). p_state p \<noteq> RUNNING)"

text \<open>On lists: the marks are those of the processes on processors, and none is on two.\<close>

definition placed :: "bool list \<Rightarrow> nat option list \<Rightarrow> bool" where
  "placed ms cs \<longleftrightarrow>
     (\<forall>p < length ms. ms ! p \<longleftrightarrow> Some p \<in> set cs)
     \<and> (\<forall>p. Some p \<in> set cs \<longrightarrow> p < length ms)
     \<and> (\<forall>c < length cs. \<forall>d < length cs. cs ! c = cs ! d \<longrightarrow> cs ! c \<noteq> None \<longrightarrow> c = d)"

lemma in_set_list_update:
  assumes "c < length xs"
  shows "y \<in> set (xs[c := x]) \<longleftrightarrow> y = x \<or> (\<exists>i < length xs. i \<noteq> c \<and> xs ! i = y)"
proof
  assume "y \<in> set (xs[c := x])"
  then obtain i where "i < length xs" "xs[c := x] ! i = y" by (auto simp: in_set_conv_nth)
  then show "y = x \<or> (\<exists>i < length xs. i \<noteq> c \<and> xs ! i = y)"
    by (cases "i = c") auto
next
  assume "y = x \<or> (\<exists>i < length xs. i \<noteq> c \<and> xs ! i = y)"
  then show "y \<in> set (xs[c := x])"
  proof
    assume "\<exists>i < length xs. i \<noteq> c \<and> xs ! i = y"
    then obtain i where "i < length (xs[c := x])" "xs[c := x] ! i = y" by auto
    then show ?thesis using nth_mem by blast
  qed (simp add: assms set_update_memI)
qed

lemma placed_inj:
  "placed ms cs \<Longrightarrow> c < length cs \<Longrightarrow> d < length cs \<Longrightarrow> cs ! c = cs ! d \<Longrightarrow> cs ! c \<noteq> None \<Longrightarrow> c = d"
  unfolding placed_def by blast

lemma placed_put:
  assumes "placed ms cs" "p < length ms" "\<not> ms ! p" "c < length cs" "cs ! c = None"
  shows "placed (ms[p := True]) (cs[c := Some p])"
proof -
  have n: "Some p \<notin> set cs" using assms(1-3) by (auto simp: placed_def)
  have m: "Some q \<in> set (cs[c := Some p]) \<longleftrightarrow> q = p \<or> Some q \<in> set cs" for q
    unfolding in_set_list_update [OF assms(4)] unfolding in_set_conv_nth using assms(5) by auto
  have d: "c = d" if "cs[c := Some p] ! c = cs[c := Some p] ! d" "d < length cs" for d
  proof (rule ccontr)
    assume "c \<noteq> d"
    with that assms(4) have "cs ! d = Some p" by simp
    with n that(2) show False by (metis nth_mem)
  qed
  note inj = placed_inj [OF assms(1)]
  show ?thesis
    unfolding placed_def
  proof (intro conjI allI impI)
    fix i j
    assume *: "i < length (cs[c := Some p])" "j < length (cs[c := Some p])"
      "cs[c := Some p] ! i = cs[c := Some p] ! j" "cs[c := Some p] ! i \<noteq> None"
    show "i = j"
    proof (cases "i = c \<or> j = c")
      case True
      with d [of i] d [of j] * show ?thesis by auto
    next
      case False
      with inj [of i j] * show ?thesis by simp
    qed
  qed (use assms(1,2) m in \<open>auto simp: placed_def nth_list_update\<close>)
qed

lemma placed_leave:
  assumes "placed ms cs" "c < length cs" "cs ! c = Some p"
  shows "placed (ms[p := False]) (cs[c := None])"
proof -
  have one: "d = c" if "d < length cs" "cs ! d = Some p" for d
    using assms that unfolding placed_def by auto
  have m: "Some q \<in> set (cs[c := None]) \<longleftrightarrow> q \<noteq> p \<and> Some q \<in> set cs" for q
    unfolding in_set_list_update [OF assms(2)] unfolding in_set_conv_nth using assms(3) one by auto
  show ?thesis
    unfolding placed_def
  proof (intro conjI allI impI)
    fix i j
    assume *: "i < length (cs[c := None])" "j < length (cs[c := None])"
      "cs[c := None] ! i = cs[c := None] ! j" "cs[c := None] ! i \<noteq> None"
    then have "i \<noteq> c" "j \<noteq> c" using assms(2) by auto
    with placed_inj [OF assms(1), of i j] * show "i = j" by simp
  next
    fix q
    assume "q < length (ms[p := False])"
    with assms(1) m [of q] show "ms[p := False] ! q \<longleftrightarrow> Some q \<in> set (cs[c := None])"
      by (cases "q = p") (simp_all add: placed_def)
  qed (use assms(1) m in \<open>simp add: placed_def\<close>)
qed

definition run_inv :: "kstate \<Rightarrow> bool" where
  "run_inv s \<longleftrightarrow> distinct (map apicid (cpus s)) \<and> placed (marks s) (on_cpus s)"

lemma run_inv_view: "run_inv s \<Longrightarrow> same_view s t \<Longrightarrow> run_inv t"
  by (simp add: run_inv_def same_view_def)

lemma run_inv_handed:
  assumes "handed c s r" "res_state r = Some t" "run_inv s" "c < length (cpus s)" "on_cpus s ! c = None"
  shows "run_inv t"
proof (cases r)
  case (Ok x u)
  then show ?thesis using assms(1-3) run_inv_view by (auto simp: handed_def)
next
  case (Switch u)
  with assms(1,2) obtain p where "unmarked s p" "put_on c p s t" by (auto simp: handed_def)
  then show ?thesis
    using assms(3-5) placed_put [of "marks s" "on_cpus s" p c]
    by (simp add: run_inv_def unmarked_def put_on_def on_cpus_def)
qed (use assms(2) in simp_all)

lemma gives_up_leaving: "gives_up s t \<Longrightarrow> this_cpu s = Some c \<Longrightarrow> leaving c s t"
  by (auto elim!: gives_up.cases intro: yield_leaving sleep_leaving)

lemma goes_on_view: "goes_on s t \<Longrightarrow> same_view s t"
  by (auto elim!: goes_on.cases dest: stays_OkD [OF yield_resume_view] stays_OkD [OF sleep_resume_view])

lemma run_inv_back:
  assumes "run_inv s" "c < length (cpus s)" "gives_up (on_cpu c s) t"
    and "res_state (scheduler_resume c rr t) = Some u"
  shows "run_inv u"
proof -
  have d: "distinct (map apicid (cpus s))" using assms(1) by (simp add: run_inv_def)
  have oc: "cpus (on_cpu c s) = cpus s" "marks (on_cpu c s) = marks s" "on_cpus (on_cpu c s) = on_cpus s"
    by (simp_all add: on_cpu_def marks_def on_cpus_def)
  from gives_up_leaving [OF assms(3) this_cpu_on_cpu [OF d assms(2)]] obtain p where
    p: "on_cpus s ! c = Some p" "marks t = (marks s)[p := False]" "on_cpus t = on_cpus s"
      "map apicid (cpus t) = map apicid (cpus s)"
    by (auto simp: leaving_def oc)
  have c: "c < length (on_cpus s)" using assms(2) by (simp add: on_cpus_def)
  obtain w where w: "marks w = marks t" "on_cpus w = (on_cpus t)[c := None]"
    "map apicid (cpus w) = map apicid (cpus t)" "handed c w (scheduler_resume c rr t)"
    using scheduler_resume_handed by blast
  have "length (cpus w) = length (cpus s)" using w(3) p(4) by (metis length_map)
  moreover have "run_inv w"
    using placed_leave [OF _ c p(1)] assms(1) w p by (simp add: run_inv_def)
  ultimately show ?thesis
    using c w(2) p(3) assms(2) by (intro run_inv_handed [OF w(4) assms(4)]) simp_all
qed

lemma on_cpu_view:
  "marks (on_cpu c s) = marks s" "on_cpus (on_cpu c s) = on_cpus s" "cpus (on_cpu c s) = cpus s"
  by (simp_all add: on_cpu_def marks_def on_cpus_def)

lemma on_cpus_nth: "c < length (cpus s) \<Longrightarrow> on_cpus s ! c = cpu_proc (cpus s ! c)"
  by (simp add: on_cpus_def)

lemma run_inv_on_cpu [simp]: "run_inv (on_cpu c s) = run_inv s"
  by (simp add: run_inv_def on_cpu_view)

lemma run_step_inv:
  assumes "run_step s t" "run_inv s"
  shows "run_inv t"
  using assms(1)
proof cases
  case (idle c)
  then show ?thesis
    using assms(2) run_inv_handed [OF scheduler_handed [of c "on_cpu c s"], of t]
    by (simp add: on_cpu_view on_cpus_nth)
next
  case (dispatch c u)
  then have "run_inv u"
    using assms(2) run_inv_handed [OF scheduler_handed [of c "on_cpu c s"], of u]
    by (simp add: on_cpu_view on_cpus_nth)
  then show ?thesis using dispatch(4) goes_on_view run_inv_view by blast
next
  case (returns c u rr)
  then show ?thesis using run_inv_back [OF assms(2)] by (metis res_state.simps(1))
next
  case (onward c u rr v)
  then have "run_inv v" using run_inv_back [OF assms(2)] by (metis res_state.simps(3))
  then show ?thesis using onward(4) goes_on_view run_inv_view by blast
next
  case (wakes c ch)
  then show ?thesis using assms(2) run_inv_view stays_OkD [OF wakeup_view] run_inv_on_cpu by blast
next
  case (kills c pid x)
  then show ?thesis using assms(2) run_inv_view stays_OkD [OF kill_view] run_inv_on_cpu by blast
qed

lemma boot_idle_inv: "boot_idle s \<Longrightarrow> run_inv s"
  by (auto simp: boot_idle_def run_inv_def placed_def marks_def on_cpus_def)

lemma run_reach_inv: "rtranclp run_step s t \<Longrightarrow> run_inv s \<Longrightarrow> run_inv t"
  by (induction rule: rtranclp_induct) (auto intro: run_step_inv)



end
