(* ===== verification/Monitor.thy ===== *)
theory Monitor
  imports Frames
begin

text \<open>
  Sleeping until a condition holds. The kernel's \<open>sleep\<close> and \<open>wakeup\<close> work on channels; whoever
  sleeps on one waits for a condition on some data, and whoever makes the condition true is to call
  \<open>wakeup\<close>. The locale of this theory states what \<open>sleep\<close>, \<open>wakeup\<close> and the rest of the scheduler's
  operations do to the sleepers on a set of channels, for any data that the scheduler's own
  operations leave alone. It is used for sleep locks and for pipes.
\<close>

definition waits_on :: "chan \<Rightarrow> kstate \<Rightarrow> nat \<Rightarrow> bool" where
  "waits_on ch s p \<longleftrightarrow> p < length (procs s) \<and> p_state (procs s ! p) = SLEEPING \<and> p_chan (procs s ! p) = Some ch"

text \<open>
  The data is as before and nobody new sleeps on one of the channels, except perhaps \<open>ch\<close>;
  and: whoever sleeps has reason to.
\<close>

definition undisturbed :: "(kstate \<Rightarrow> 'o) \<Rightarrow> chan set \<Rightarrow> chan option \<Rightarrow> kstate \<Rightarrow> kstate \<Rightarrow> bool" where
  "undisturbed obs chans ch s t \<longleftrightarrow> obs t = obs s
     \<and> (\<forall>c \<in> chans. ch \<noteq> Some c \<longrightarrow> (\<forall>p. waits_on c t p \<longrightarrow> waits_on c s p))"

definition sleepers_ok :: "(kstate \<Rightarrow> 'o) \<Rightarrow> chan set \<Rightarrow> (chan \<Rightarrow> 'o \<Rightarrow> bool) \<Rightarrow> kstate \<Rightarrow> bool" where
  "sleepers_ok obs chans cond s \<longleftrightarrow> (\<forall>c \<in> chans. \<forall>p. waits_on c s p \<longrightarrow> cond c (obs s))"

lemma upd_proc_nth: "p < length (procs s) \<Longrightarrow> procs (upd_proc p f s) ! p = f (procs s ! p)"
  "length (procs (upd_proc p f s)) = length (procs s)"
  by (simp_all add: upd_proc_def)

lemma res_state_bind:
  assumes "res_state (bind m k) = Some t" "\<And>u. m \<noteq> Switch u"
  obtains x u where "m = Ok x u" "res_state (k x u) = Some t"
  using assms by (cases m) auto

lemma res_state_stays: "stays R s r \<Longrightarrow> res_state r = Some t \<Longrightarrow> R s t"
  by (simp add: stays_def)

lemma sleep_resume_no_switch: "sleep_resume ie p st lk s \<noteq> Switch u"
  by (auto simp: sleep_resume_def sched_resume_def Let_def bind_eq_Switch lock_no_switch no_switch)

lemma wakeup_no_switch: "wakeup ch s \<noteq> Switch u"
  by (auto simp: wakeup_def bind_eq_Switch lock_no_switch)

lemma taken_swap: "lk \<noteq> l \<Longrightarrow> taken lk (taken l s) = taken l (taken lk s)"
proof -
  assume "lk \<noteq> l"
  moreover have "cpus (masked (taken l s)) = cpus (masked (taken lk s))"
    by (simp add: masked_def upd_cpu_def split: option.splits)
  ultimately show ?thesis by (intro kstate.equality) (simp_all add: fun_upd_twist)
qed

lemma sched_ok:
  assumes "cpu_ok s" "lock_free PtableLock s" "this_cpu s = Some c" "ncli (cpus s ! c) = 0"
    and "cur_proc s = Some p" "p_state (procs s ! p) \<noteq> RUNNING"
  shows "sched (taken PtableLock s) = Switch (taken PtableLock s)"
proof -
  have c: "c < length (cpus s)" using assms(3) by (rule this_cpu_less)
  have m: "cpus (taken PtableLock s) ! c = (cpus s ! c)\<lparr>iflag := False, ncli := 1\<rparr>"
    using assms c by (simp add: cpus_masked)
  have r: "\<not> readeflags_IF (taken PtableLock s)" using assms(3) m by (simp add: readeflags_IF_def)
  then have "mycpu (taken PtableLock s) = Ok c (taken PtableLock s)"
    using assms(3) m by (intro mycpu_eq) simp_all
  then show ?thesis
    using assms m r by (simp add: sched_def lock_simps)
qed

lemma sleep_switches:
  assumes "cpu_ok s" "lock_free PtableLock s" "lock_free lk s" "lk \<noteq> PtableLock"
    and "this_cpu s = Some c" "ncli (cpus s ! c) = 0" "cur_proc s = Some p" "p < length (procs s)"
  shows "sleep ch (Some lk) (taken lk s)
    = Switch (taken PtableLock (upd_proc p (\<lambda>q. q\<lparr>p_chan := Some ch, p_state := SLEEPING\<rparr>) s))"
proof -
  have sw: "taken PtableLock (taken lk s) = taken lk (taken PtableLock s)"
    using assms(4) by (intro taken_swap) simp
  let ?s = "upd_proc p (\<lambda>q. q\<lparr>p_chan := Some ch, p_state := SLEEPING\<rparr>) s"
  have "sched (taken PtableLock ?s) = Switch (taken PtableLock ?s)"
    using assms by (intro sched_ok [where c = c and p = p]) (simp_all add: upd_proc_def)
  then show ?thesis
    using assms by (simp add: sleep_def lock_simps sw upd_proc_def)
qed

locale monitor =
  fixes obs :: "kstate \<Rightarrow> 'o"
    and chans :: "chan set"
    and cond :: "chan \<Rightarrow> 'o \<Rightarrow> bool"
  assumes obs_calm: "calm s t \<Longrightarrow> obs t = obs s"
    and obs_procs: "obs (s\<lparr>procs := ps\<rparr>) = obs s"
    and obs_on_cpu: "obs (on_cpu c s) = obs s"

sublocale monitor \<subseteq> nw: frame "undisturbed obs chans ch" for ch
  by unfold_locales (auto simp: undisturbed_def)

context monitor
begin

lemma calm_nw: "calm s t \<Longrightarrow> undisturbed obs chans ch s t"
  by (simp add: undisturbed_def waits_on_def calm_fields obs_calm)

lemma stays_calm: "stays calm s r \<Longrightarrow> stays (undisturbed obs chans ch) s r"
  by (erule stays_mono) (rule calm_nw)

lemmas calm_waiters = calms [THEN stays_calm]

lemmas acquire_nw = acquire_calm [THEN stays_calm]
  and release_nw = release_calm [THEN stays_calm]

lemma nw_upd_proc:
  assumes "p < length (procs s) \<Longrightarrow> p_state (f (procs s ! p)) \<noteq> SLEEPING
    \<or> p_chan (f (procs s ! p)) = None \<or> p_chan (f (procs s ! p)) = ch
    \<or> p_state (f (procs s ! p)) = p_state (procs s ! p) \<and> p_chan (f (procs s ! p)) = p_chan (procs s ! p)"
  shows "undisturbed obs chans ch s (upd_proc p f s)"
proof -
  have "waits_on c s q" if "waits_on c (upd_proc p f s) q" "ch \<noteq> Some c" for c q
    using that assms by (cases "q = p") (auto simp: waits_on_def upd_proc_def)
  then show ?thesis by (auto simp: undisturbed_def upd_proc_def obs_procs)
qed

lemma nw_wakeup1: "undisturbed obs chans ch s (wakeup1 c s)"
  by (auto simp: undisturbed_def waits_on_def wakeup1_def obs_procs split: if_splits)

lemma sched_nw: "stays (undisturbed obs chans ch) s (sched s)"
  unfolding sched_def by (intro nw.stays_bind calm_waiters stays_if stays_option) (simp_all add: nw.refl)

lemma yield_nw: "stays (undisturbed obs chans ch) s (yield s)"
  unfolding yield_def Let_def
  by (intro nw.stays_bind calm_waiters stays_option)
    (auto intro!: nw.stays_after [OF nw.trans [OF nw_upd_proc nw_upd_proc] sched_nw])

lemma sleep_nw: "stays (undisturbed obs chans (Some ch)) s (sleep ch lk s)"
  unfolding sleep_def Let_def
  by (intro nw.stays_bind calm_waiters stays_option stays_if)
    (auto simp: nw.refl upd_proc_nth intro!: nw.stays_after [OF nw.trans [OF nw_upd_proc nw_upd_proc] sched_nw])

lemma sleep_resume_nw: "stays (undisturbed obs chans ch) s (sleep_resume ie p st lk s)"
proof -
  have i: "undisturbed obs chans ch s (upd_proc p (\<lambda>q. q\<lparr>p_chan := None\<rparr>)
      (upd_proc p (\<lambda>q. q\<lparr>p_sleeptime := p_sleeptime q + (ticks s - st)\<rparr>) s))" for s
    by (intro nw.trans [OF nw_upd_proc nw_upd_proc]) simp_all
  have sr: "stays (undisturbed obs chans ch) s (sched_resume ie s)" for s
    unfolding sched_resume_def
    by (intro nw.stays_bind calm_waiters) (simp add: calm_nw calm_upd_cpu)
  show ?thesis
    unfolding sleep_resume_def Let_def
    by (intro nw.stays_bind sr acquire_nw stays_if nw.stays_after [OF i release_nw]) (simp add: i)
qed

lemma wakeup_nw: "stays (undisturbed obs chans ch) s (wakeup c s)"
  unfolding wakeup_def
  by (intro nw.stays_bind acquire_nw nw.stays_after [OF nw_wakeup1 release_nw])

lemma kill_nw: "stays (undisturbed obs chans ch) s (kill pid s)"
  unfolding kill_def Let_def
  by (intro nw.stays_bind acquire_nw stays_option nw.stays_after [OF _ release_nw])
    (auto simp: nw.refl upd_proc_nth intro!: nw.trans [OF nw_upd_proc nw_upd_proc] nw_upd_proc)

lemma obs_undisturbed: "undisturbed obs chans ch s t \<Longrightarrow> obs t = obs s"
  by (simp add: undisturbed_def)

lemma sleepers_undisturbed:
  assumes "undisturbed obs chans ch s t" "sleepers_ok obs chans cond s"
    and "\<And>c. ch = Some c \<Longrightarrow> c \<in> chans \<Longrightarrow> cond c (obs s)"
  shows "sleepers_ok obs chans cond t"
  using assms unfolding sleepers_ok_def undisturbed_def by metis

lemma sleepers_stays:
  "stays (undisturbed obs chans None) s r \<Longrightarrow> res_state r = Some t \<Longrightarrow>
   sleepers_ok obs chans cond s \<Longrightarrow> sleepers_ok obs chans cond t"
  using sleepers_undisturbed [of None] by (auto simp: stays_def)

lemma sleepers_OkD:
  "stays (undisturbed obs chans None) s r \<Longrightarrow> r = Ok x t \<Longrightarrow>
   sleepers_ok obs chans cond s \<Longrightarrow> sleepers_ok obs chans cond t"
  using sleepers_stays [of s r t] by simp

lemma sleepers_on_cpu: "sleepers_ok obs chans cond (on_cpu c s) = sleepers_ok obs chans cond s"
  unfolding sleepers_ok_def obs_on_cpu by (simp add: waits_on_def on_cpu_def)

text \<open>Going to sleep is right when the condition waited for is not yet there.\<close>

lemma sleepers_sleep:
  assumes "res_state (sleep ch lk s) = Some t" "sleepers_ok obs chans cond s"
    and "ch \<in> chans \<Longrightarrow> cond ch (obs s)"
  shows "sleepers_ok obs chans cond t" "obs t = obs s"
  using res_state_stays [OF sleep_nw assms(1)] assms(2,3)
  by (auto intro: sleepers_undisturbed obs_undisturbed)

text \<open>After a change of the data, those who may go on are all waiting on the channel that is woken.\<close>

lemma sleepers_wakeup:
  assumes "wakeup ch s = Ok () t"
    and "\<And>c p. c \<in> chans \<Longrightarrow> c \<noteq> ch \<Longrightarrow> waits_on c s p \<Longrightarrow> cond c (obs s)"
  shows "sleepers_ok obs chans cond t" "obs t = obs s" "\<not> waits_on ch t p"
proof -
  from assms(1) obtain u where u: "acquire PtableLock s = Ok () u" "release PtableLock (wakeup1 ch u) = Ok () t"
    by (auto simp: wakeup_def bind_eq_Ok)
  show n: "\<not> waits_on ch t p" for p
    using calm_fields(1) [OF stays_OkD [OF release_calm u(2)]] by (auto simp: waits_on_def wakeup1_def)
  have q: "undisturbed obs chans None s t" using assms(1) by (rule stays_OkD [OF wakeup_nw])
  then show "obs t = obs s" by (rule obs_undisturbed)
  then show "sleepers_ok obs chans cond t"
    using q n assms(2) unfolding sleepers_ok_def undisturbed_def by fastforce
qed

end

end
