(* ===== verification/Fair.thy ===== *)
theory Fair
  imports Dispatch Monitor
begin

text \<open>
  No process starves under round robin. A round of a processor's scheduler walks through the process
  table once; whatever all processors and processes do in the meantime, a process that was runnable
  when the round began is handed a processor before the round is over.
\<close>

section \<open>The table seen by the scheduler\<close>

definition alive :: "proc \<Rightarrow> bool" where
  "alive p \<longleftrightarrow> p_state p \<in> {SLEEPING, RUNNABLE, RUNNING}"

text \<open>What \<open>switchuvm\<close> insists on.\<close>

definition live_ok :: "kstate \<Rightarrow> bool" where
  "live_ok s \<longleftrightarrow> (\<forall>p \<in> set (procs s). alive p \<longrightarrow> p_kstack p \<noteq> 0 \<and> p_pgdir p \<noteq> 0)"

text \<open>Nothing but sleepers being woken happened to the entries.\<close>

definition woken :: "kstate \<Rightarrow> kstate \<Rightarrow> bool" where
  "woken s t \<longleftrightarrow> current_scheduler t = current_scheduler s \<and> length (procs t) = length (procs s)
     \<and> (\<forall>i < length (procs s). p_kstack (procs t ! i) = p_kstack (procs s ! i)
          \<and> p_pgdir (procs t ! i) = p_pgdir (procs s ! i)
          \<and> (p_state (procs t ! i) = p_state (procs s ! i)
             \<or> p_state (procs s ! i) = SLEEPING \<and> p_state (procs t ! i) = RUNNABLE))"

lemma woken_refl [simp]: "woken s s"
  by (simp add: woken_def)

interpretation wk: frame woken
  by unfold_locales (simp, fastforce simp: woken_def)

lemma calm_woken: "calm s t \<Longrightarrow> woken s t"
  by (auto simp: woken_def elim!: calmE)

lemma stays_calm_woken: "stays calm s r \<Longrightarrow> stays woken s r"
  by (erule stays_mono) (rule calm_woken)

named_theorems wakes "code that does no more to the process table than wake sleepers"

lemmas calm_wakes [wakes] = calms [THEN stays_calm_woken]

lemmas release_wakes = release_calm [THEN stays_calm_woken]
  and acquire_wakes = acquire_calm [THEN stays_calm_woken]

lemma woken_upd:
  assumes "p < length (procs s) \<Longrightarrow> p_kstack (f (procs s ! p)) = p_kstack (procs s ! p)
     \<and> p_pgdir (f (procs s ! p)) = p_pgdir (procs s ! p)
     \<and> (p_state (f (procs s ! p)) = p_state (procs s ! p)
        \<or> p_state (procs s ! p) = SLEEPING \<and> p_state (f (procs s ! p)) = RUNNABLE)"
  shows "woken s (upd_proc p f s)"
proof -
  have "procs (upd_proc p f s) ! i = (if i = p then f (procs s ! p) else procs s ! i)" if "i < length (procs s)" for i
    using that by (simp add: upd_proc_def)
  then show ?thesis using assms by (simp add: woken_def) (simp add: upd_proc_def)
qed

lemma woken_wakeup1: "woken s (wakeup1 ch s)"
  by (auto simp: woken_def wakeup1_def)

lemma wakeup_wakes [wakes]: "stays woken s (wakeup ch s)"
  unfolding wakeup_def by (intro wk.stays_bind wakes wk.stays_after [OF woken_wakeup1 release_wakes])

lemma kill_wakes [wakes]: "stays woken s (kill pid s)"
  unfolding kill_def Let_def
  by (intro wk.stays_bind wakes stays_option wk.stays_after [OF _ release_wakes])
    (auto simp: upd_proc_nth intro!: wk.trans [OF woken_upd woken_upd] woken_upd)

lemma sched_resume_wakes [wakes]: "stays woken s (sched_resume ie s)"
  unfolding sched_resume_def by (intro wk.stays_bind wakes) (simp add: calm_woken calm_upd_cpu)

lemma goes_on_woken: "goes_on s t \<Longrightarrow> woken s t"
proof (elim goes_on.cases)
  fix ie v w
  assume "s = v" "t = w" "yield_resume ie v = Ok () w"
  moreover have "stays woken v (yield_resume ie v)" unfolding yield_resume_def by (intro wk.stays_bind wakes)
  ultimately show ?thesis by simp
next
  fix ie p st lk v w
  assume "s = v" "t = w" "sleep_resume ie p st lk v = Ok () w"
  moreover have i: "woken x (upd_proc p (\<lambda>q. q\<lparr>p_chan := None\<rparr>)
      (upd_proc p (\<lambda>q. q\<lparr>p_sleeptime := p_sleeptime q + (ticks x - st)\<rparr>) x))" for x
    by (intro wk.trans [OF woken_upd woken_upd]) simp_all
  have "stays woken v (sleep_resume ie p st lk v)"
    unfolding sleep_resume_def Let_def
    by (intro wk.stays_bind wakes stays_if wk.stays_after [OF i release_wakes]) (simp add: i)
  ultimately show ?thesis by simp
qed

text \<open>A process giving up its processor: its own entry changes, and \<open>sched\<close> has checked the processor.\<close>

lemma sched_checked:
  assumes "sched s = Switch t"
  obtains c where "calm s t" "this_cpu t = Some c" "0 < ncli (cpus t ! c)" "cpu_ok t"
proof -
  from assms obtain p u h v c where u: "myproc s = Ok p u" "holding PtableLock u = Ok h v" "mycpu v = Ok c t"
    "ncli (cpus t ! c) = 1" "\<not> readeflags_IF t"
    by (auto simp: sched_def bind_eq_Switch lock_no_switch no_switch split: if_splits option.splits)
  have c: "t = v" "this_cpu v = Some c" using mycpu_OkD [OF u(3)] by auto
  show ?thesis
  proof (rule that)
    show "calm s t" using stays_OkD [OF myproc_calm u(1)] stays_OkD [OF holding_calm u(2)] c(1) calm_trans by blast
    show "cpu_ok t" using u(4,5) c by (simp add: cpu_ok_def readeflags_IF_def)
    show "this_cpu t = Some c" "0 < ncli (cpus t ! c)" unfolding u(4) using c by simp_all
  qed
qed

lemma gives_up_shape:
  assumes "gives_up s t" "this_cpu s = Some c"
  obtains p e where "on_cpus s ! c = Some p" "procs t = (procs s)[p := e]" "p_state e \<in> {RUNNABLE, SLEEPING}"
    "p_kstack e = p_kstack (procs s ! p)" "p_pgdir e = p_pgdir (procs s ! p)" "current_scheduler t = current_scheduler s"
    "cpu_ok t" "this_cpu t = Some c" "0 < ncli (cpus t ! c)" "map apicid (cpus t) = map apicid (cpus s)"
proof -
  note goal = that
  have *: thesis if "on_cpus s ! c = Some p" "calm s u" "sched (upd_proc p f (upd_proc p g u)) = Switch t"
    "\<And>x. p_state (f (g x)) \<in> {RUNNABLE, SLEEPING} \<and> p_kstack (f (g x)) = p_kstack x \<and> p_pgdir (f (g x)) = p_pgdir x"
    for p u f g
  proof -
    from that(3) obtain d where d: "calm (upd_proc p f (upd_proc p g u)) t" "this_cpu t = Some d" "0 < ncli (cpus t ! d)" "cpu_ok t"
      by (rule sched_checked)
    have k: "this_cpu (upd_proc p f (upd_proc p g u)) = this_cpu u" by (simp add: this_cpu_def upd_proc_def)
    have "d = c" using d(2) this_cpu_calm [OF d(1)] this_cpu_calm [OF that(2)] assms(2) k by simp
    moreover have "procs t = (procs s)[p := f (g (procs s ! p))]"
      using calm_fields(1) [OF d(1)] calm_fields(1) [OF that(2)] by (cases "p < length (procs s)") (simp_all add: upd_proc_def not_less list_update_beyond)
    moreover have "current_scheduler t = current_scheduler s" "map apicid (cpus t) = map apicid (cpus s)"
      using calm_woken [OF d(1)] calm_woken [OF that(2)] calm_fields(6) [OF d(1)] calm_fields(6) [OF that(2)]
      by (simp_all add: woken_def upd_proc_def)
    ultimately show thesis using d that(1,4) by (intro goal [of p "f (g (procs s ! p))"]) simp_all
  qed
  from assms(1) show thesis
  proof cases
    case 1
    from 1 assms(2) show thesis by (rule yield_inv) (erule * [rotated 2], simp_all)
  next
    case (2 ch lk)
    from 2 assms(2) show thesis by (rule sleep_inv) (erule * [rotated 2], simp_all)
  qed
qed


section \<open>What a turn does to the table\<close>

text \<open>
  No entry comes alive or loses its stack and page table, and a runnable process stays runnable
  unless it is marked as running.
\<close>

definition advanced :: "kstate \<Rightarrow> kstate \<Rightarrow> bool" where
  "advanced s t \<longleftrightarrow> current_scheduler t = current_scheduler s \<and> length (procs t) = length (procs s)
     \<and> (\<forall>i < length (procs s). p_kstack (procs t ! i) = p_kstack (procs s ! i)
          \<and> p_pgdir (procs t ! i) = p_pgdir (procs s ! i)
          \<and> (alive (procs t ! i) \<longrightarrow> alive (procs s ! i))
          \<and> (p_state (procs s ! i) = RUNNABLE \<longrightarrow> p_state (procs t ! i) \<in> {RUNNABLE, RUNNING}))"

text \<open>Moreover, no process is marked as running.\<close>

definition kept :: "kstate \<Rightarrow> kstate \<Rightarrow> bool" where
  "kept s t \<longleftrightarrow> advanced s t \<and> (\<forall>i. runnable s i \<longrightarrow> runnable t i)"

lemma kept_woken: "woken s t \<Longrightarrow> kept s t"
  by (fastforce simp: woken_def kept_def advanced_def alive_def runnable_def)

lemma kept_advanced: "kept s t \<Longrightarrow> advanced t u \<Longrightarrow> advanced s u"
  by (fastforce simp: kept_def advanced_def runnable_def)

lemma kept_trans: "kept s t \<Longrightarrow> kept t u \<Longrightarrow> kept s u"
  using kept_advanced unfolding kept_def by blast

lemma advanced_then_woken:
  assumes "advanced s t" "woken t u"
  shows "advanced s u"
proof -
  have "p_state (procs s ! i) = RUNNABLE \<longrightarrow> p_state (procs u ! i) \<in> {RUNNABLE, RUNNING}" "alive (procs u ! i) \<longrightarrow> alive (procs s ! i)"
    if "i < length (procs s)" for i
  proof -
    have "p_state (procs u ! i) = p_state (procs t ! i) \<or> p_state (procs t ! i) = SLEEPING \<and> p_state (procs u ! i) = RUNNABLE"
      using that assms by (simp add: woken_def advanced_def)
    then show "p_state (procs s ! i) = RUNNABLE \<longrightarrow> p_state (procs u ! i) \<in> {RUNNABLE, RUNNING}" "alive (procs u ! i) \<longrightarrow> alive (procs s ! i)"
      using that assms(1) by (auto simp: advanced_def alive_def)
  qed
  then show ?thesis using assms by (simp add: woken_def advanced_def)
qed

lemma live_ok_advanced: "live_ok s \<Longrightarrow> advanced s t \<Longrightarrow> live_ok t"
  by (simp add: live_ok_def all_set_conv_all_nth advanced_def)

text \<open>A processor is handed to a process.\<close>

lemma run_proc_shape:
  assumes "run_proc c p s = Switch t"
  shows "procs t = (procs s)[p := (procs s ! p)\<lparr>p_state := RUNNING\<rparr>]" "current_scheduler t = current_scheduler s"
    and "c < length (cpus s) \<Longrightarrow> cpu_proc (cpus t ! c) = Some p"
proof -
  let ?s = "upd_cpu c (\<lambda>k. k\<lparr>cpu_proc := Some p\<rparr>) s"
  from assms obtain u where u: "switchuvm (Some p) ?s = Ok () u" "t = upd_proc p (\<lambda>q. q\<lparr>p_state := RUNNING\<rparr>) u"
    by (auto simp: run_proc_def Let_def bind_eq_Switch lock_no_switch)
  note c = stays_OkD [OF switchuvm_calm u(1)]
  show "procs t = (procs s)[p := (procs s ! p)\<lparr>p_state := RUNNING\<rparr>]" "current_scheduler t = current_scheduler s"
    using calm_fields(1) [OF c] calm_woken [OF c] u(2) by (simp_all add: upd_proc_def woken_def) (simp_all add: upd_cpu_def)
  show "cpu_proc (cpus t ! c) = Some p" if "c < length (cpus s)"
  proof -
    have o: "on_cpus t = (on_cpus s)[c := Some p]" using calm_fields(5) [OF c] u(2) by (simp add: set_cpu_proc set_running)
    have "length (on_cpus t) = length (on_cpus s)" unfolding o by simp
    then have l: "length (cpus t) = length (cpus s)" by (simp add: on_cpus_def)
    have "on_cpus t ! c = Some p" unfolding o using that by (simp add: on_cpus_def)
    then show ?thesis using that l by (simp add: on_cpus_def)
  qed
qed

lemma advanced_run:
  assumes "procs t = (procs s)[p := (procs s ! p)\<lparr>p_state := RUNNING\<rparr>]" "current_scheduler t = current_scheduler s"
    and "runnable s p"
  shows "advanced s t"
  using assms by (auto simp: advanced_def alive_def runnable_def nth_list_update)

lemma run_picked_shape:
  assumes "run_picked c (pick_rr i s) s = Switch t"
  obtains p where "i \<le> p" "runnable s p" "\<And>q. i \<le> q \<Longrightarrow> runnable s q \<Longrightarrow> p \<le> q"
    "advanced s t" "p_state (procs t ! p) = RUNNING" "c < length (cpus s) \<Longrightarrow> cpu_proc (cpus t ! c) = Some p"
proof -
  from assms obtain p where p: "pick_rr i s = Some p" "run_proc c p s = Switch t"
    by (auto simp: run_picked_def lock_no_switch split: option.splits)
  note r = run_proc_shape [OF p(2)]
  show ?thesis
  proof (rule that)
    show "i \<le> p" "runnable s p" "\<And>q. i \<le> q \<Longrightarrow> runnable s q \<Longrightarrow> p \<le> q" using pick_rr_choice [of i s] p(1) by auto
    then show "advanced s t" "p_state (procs t ! p) = RUNNING" using r advanced_run by (auto simp: runnable_def)
  qed (rule r(3))
qed

lemma run_picked_Ok: "run_picked c p s = Ok () t \<Longrightarrow> woken s t"
  using stays_OkD [OF release_wakes] by (auto simp: run_picked_def run_proc_def Let_def bind_eq_Ok split: option.splits)

lemma scheduler_rr:
  assumes "current_scheduler s = SCHED_RR"
  shows "scheduler c s = bind (acquire PtableLock (sti s)) (\<lambda>_ s. run_picked c (pick_rr 0 s) s)"
proof -
  have "bind (acquire PtableLock (sti s)) k = bind (acquire PtableLock (sti s)) l"
    if "\<And>t. current_scheduler t = SCHED_RR \<Longrightarrow> k () t = l () t" for k l :: "unit \<Rightarrow> kstate \<Rightarrow> (kstate, unit) res"
  proof (cases "acquire PtableLock (sti s)")
    case (Ok x t)
    have "woken s t" using wk.trans [OF calm_woken [OF sti_calm] stays_OkD [OF acquire_wakes Ok]] .
    then show ?thesis using that [of t] assms Ok by (simp add: woken_def)
  qed simp_all
  then show ?thesis unfolding scheduler_def Let_def by (rule) simp
qed

text \<open>The process on processor \<open>c\<close> gives it back.\<close>

definition hands_back :: "nat \<Rightarrow> kstate \<Rightarrow> kstate \<Rightarrow> bool" where
  "hands_back c s t \<longleftrightarrow> c < length (cpus s) \<and> gives_up (on_cpu c s) t"

definition unloaded :: "nat \<Rightarrow> kstate \<Rightarrow> kstate" where
  "unloaded c s = upd_cpu c (\<lambda>k. k\<lparr>cpu_proc := None\<rparr>) (switchkvm s)"

lemma scheduler_resume_rr: "scheduler_resume c (Some p) s = run_picked c (pick_rr (Suc p) (unloaded c s)) (unloaded c s)"
  by (simp add: scheduler_resume_def unloaded_def Let_def)

lemma hands_back_shape:
  assumes "hands_back c s t" "run_inv s"
  shows "kept s (unloaded c t)" "cpu_ok (unloaded c t)" "this_cpu (unloaded c t) = Some c"
    "0 < ncli (cpus (unloaded c t) ! c)" "c < length (cpus (unloaded c t))"
proof -
  have c: "c < length (cpus s)" "this_cpu (on_cpu c s) = Some c"
    using assms this_cpu_on_cpu by (auto simp: hands_back_def run_inv_def)
  from assms(1) c(2) obtain p e where p: "on_cpus (on_cpu c s) ! c = Some p" "procs t = (procs (on_cpu c s))[p := e]"
    "p_state e \<in> {RUNNABLE, SLEEPING}" "p_kstack e = p_kstack (procs (on_cpu c s) ! p)"
    "p_pgdir e = p_pgdir (procs (on_cpu c s) ! p)" "current_scheduler t = current_scheduler (on_cpu c s)"
    "cpu_ok t" "this_cpu t = Some c" "0 < ncli (cpus t ! c)" "map apicid (cpus t) = map apicid (cpus (on_cpu c s))"
    unfolding hands_back_def by (elim conjE) (erule gives_up_shape)
  have pr: "procs (on_cpu c s) = procs s" "current_scheduler (on_cpu c s) = current_scheduler s" by (simp_all add: on_cpu_def)
  have "Some p \<in> set (on_cpus s)" using p(1) c(1) by (metis length_map nth_mem on_cpu_view(2) on_cpus_def)
  then have run: "p < length (procs s)" "p_state (procs s ! p) = RUNNING"
    using assms(2) by (auto simp: run_inv_def placed_def marks_def)
  have "kept s t"
    using p(2-6) run unfolding pr by (auto simp: kept_def advanced_def alive_def runnable_def nth_list_update)
  moreover have "woken t (unloaded c t)"
  proof -
    have "woken t (switchkvm t)" by (rule calm_woken) simp
    then show ?thesis by (simp add: unloaded_def woken_def) (simp add: upd_cpu_def)
  qed
  ultimately show "kept s (unloaded c t)" using kept_trans kept_woken by blast
  have u: "unloaded c t = upd_cpu c (\<lambda>k. k\<lparr>cr3 := V2P (kpgdir t), cpu_proc := None\<rparr>) t"
    using p(8) this_cpu_less [OF p(8)] by (simp add: unloaded_def switchkvm_def lcr3_def upd_cpu_upd_cpu)
  show t: "this_cpu (unloaded c t) = Some c" unfolding u using p(8) by (simp add: this_cpu_upd_cpu)
  show "0 < ncli (cpus (unloaded c t) ! c)" unfolding u using p(8,9) by (simp add: cpus_upd_cpu this_cpu_less)
  show "cpu_ok (unloaded c t)"
    using t p(7,8) unfolding u by (simp add: cpu_ok_def cpus_upd_cpu this_cpu_less)
  show "c < length (cpus (unloaded c t))" using t by (rule this_cpu_less)
qed

lemma run_step_advanced:
  assumes "run_step s t" "run_inv s" "current_scheduler s = SCHED_RR"
  shows "advanced s t"
proof -
  have on: "woken s (on_cpu c s)" for c by (simp add: woken_def on_cpu_def)
  have sch: "current_scheduler (on_cpu c s) = SCHED_RR" for c using assms(3) by (simp add: on_cpu_def)
  have acq: "woken s u" if "acquire PtableLock (sti (on_cpu c s)) = Ok x u" for c x u
    using wk.trans [OF on wk.trans [OF calm_woken [OF sti_calm] stays_OkD [OF acquire_wakes that]]] .
  note aw = kept_woken [THEN kept_advanced] and wa = advanced_then_woken [OF _ goes_on_woken]
  from assms(1) show ?thesis
  proof cases
    case (idle c)
    then show ?thesis
      using acq wk.trans run_picked_Ok kept_woken unfolding scheduler_rr [OF sch] bind_eq_Ok kept_def by blast
  next
    case (dispatch c u)
    from dispatch(3) obtain v where "acquire PtableLock (sti (on_cpu c s)) = Ok () v" "run_picked c (pick_rr 0 v) v = Switch u"
      unfolding scheduler_rr [OF sch] bind_eq_Switch by (auto simp: lock_no_switch)
    then have "advanced s u" using aw [OF acq] by (auto elim: run_picked_shape)
    then show ?thesis using wa dispatch(4) by blast
  next
    case (returns c u rr)
    then have h: "hands_back c s u" by (simp add: hands_back_def)
    from hands_back_shape(1) [OF this assms(2)] have k: "kept s (unloaded c u)" .
    have "woken (unloaded c u) t"
      using returns(3) stays_OkD [OF release_wakes] run_picked_Ok
      by (cases rr) (auto simp: scheduler_resume_def unloaded_def Let_def)
    then show ?thesis using kept_trans [OF k kept_woken] by (simp add: kept_def)
  next
    case (onward c u rr v)
    then have h: "hands_back c s u" by (simp add: hands_back_def)
    from onward(3) obtain p where "scheduler_resume c (Some p) u = Switch v"
      by (cases rr) (auto simp: scheduler_resume_def Let_def lock_no_switch)
    then have "advanced (unloaded c u) v" unfolding scheduler_resume_rr by (auto elim: run_picked_shape)
    then show ?thesis using wa [OF kept_advanced [OF hands_back_shape(1) [OF h assms(2)]] onward(4)] by blast
  next
    case (wakes c ch)
    then show ?thesis using wk.trans [OF on stays_OkD [OF wakeup_wakes]] kept_woken unfolding kept_def by blast
  next
    case (kills c pid x)
    then show ?thesis using wk.trans [OF on stays_OkD [OF kill_wakes]] kept_woken unfolding kept_def by blast
  qed
qed

section \<open>A round\<close>

text \<open>
  Turns of all processors in which process \<open>q\<close> is not handed one. (Turns of processor \<open>c\<close> itself are
  not excluded; what is shown holds with them too.)
\<close>

definition waiting :: "nat \<Rightarrow> kstate \<Rightarrow> kstate \<Rightarrow> bool" where
  "waiting q s t \<longleftrightarrow> run_step s t \<and> p_state (procs t ! q) \<noteq> RUNNING"

text \<open>
  Processor \<open>c\<close> began a round in \<open>s\<close>, has been handed to the processes \<open>ps\<close> one after the other, and the last
  of them runs on it in \<open>t\<close>; up to now \<open>q\<close> did not run anywhere.
\<close>

inductive rr_round :: "nat \<Rightarrow> nat \<Rightarrow> kstate \<Rightarrow> nat list \<Rightarrow> kstate \<Rightarrow> bool" for c q s where
  first: "c < length (cpus s) \<Longrightarrow> cpu_proc (cpus s ! c) = None \<Longrightarrow> scheduler c (on_cpu c s) = Switch t \<Longrightarrow>
     cpu_proc (cpus t ! c) = Some p \<Longrightarrow> goes_on t u \<Longrightarrow> p_state (procs u ! q) \<noteq> RUNNING \<Longrightarrow> rr_round c q s [p] u"
| later: "rr_round c q s ps u \<Longrightarrow> rtranclp (waiting q) u v \<Longrightarrow> hands_back c v w \<Longrightarrow>
     scheduler_resume c (Some (last ps)) w = Switch x \<Longrightarrow> cpu_proc (cpus x ! c) = Some p \<Longrightarrow> goes_on x y \<Longrightarrow>
     p_state (procs y ! q) \<noteq> RUNNING \<Longrightarrow> rr_round c q s (ps @ [p]) y"

text \<open>The state while \<open>q\<close> waits.\<close>

definition rr_inv :: "nat \<Rightarrow> kstate \<Rightarrow> bool" where
  "rr_inv q s \<longleftrightarrow> run_inv s \<and> live_ok s \<and> current_scheduler s = SCHED_RR \<and> runnable s q"

lemma rr_inv_step:
  assumes "rr_inv q s" "run_step s t" "p_state (procs t ! q) \<noteq> RUNNING"
  shows "rr_inv q t"
proof -
  have a: "advanced s t" using assms(1,2) run_step_advanced by (simp add: rr_inv_def)
  then have "runnable t q" using assms(1,3) by (auto simp: rr_inv_def advanced_def runnable_def)
  then show ?thesis
    using assms(1) a run_step_inv [OF assms(2)] live_ok_advanced by (auto simp: rr_inv_def advanced_def)
qed

lemma rr_inv_waiting: "rtranclp (waiting q) s t \<Longrightarrow> rr_inv q s \<Longrightarrow> rr_inv q t"
  by (induction rule: rtranclp_induct) (auto simp: waiting_def intro: rr_inv_step)

lemma goes_on_state: "goes_on s t \<Longrightarrow> p < length (procs s) \<Longrightarrow> p_state (procs s ! p) = RUNNING \<Longrightarrow> p_state (procs t ! p) = RUNNING"
  using goes_on_woken [of s t] by (auto simp: woken_def)

text \<open>The scheduler goes on to the next runnable process, which is \<open>q\<close> at the latest.\<close>

lemma rr_next:
  assumes "rr_inv q v" "hands_back c v w" "p < q"
  obtains p' x where "scheduler_resume c (Some p) w = Switch x" "cpu_proc (cpus x ! c) = Some p'" "p < p'" "p' \<le> q"
    "p' < length (procs x)" "p_state (procs x ! p') = RUNNING"
proof -
  let ?u = "unloaded c w"
  have i: "run_inv v" using assms(1) by (simp add: rr_inv_def)
  note h = hands_back_shape [OF assms(2) i]
  have q: "runnable ?u q" "live_ok ?u"
    using h(1) assms(1) live_ok_advanced by (auto simp: kept_def rr_inv_def)
  from pick_rr_choice [of "Suc p" ?u] q(1) assms(3) obtain p' where p': "pick_rr (Suc p) ?u = Some p'" "Suc p \<le> p'" "runnable ?u p'" "p' \<le> q"
    by (cases "pick_rr (Suc p) ?u") auto
  have "p_kstack (procs ?u ! p') \<noteq> 0" "p_pgdir (procs ?u ! p') \<noteq> 0"
    using q(2) p'(3) by (auto simp: live_ok_def runnable_def alive_def)
  from run_proc_ok [OF h(2-4) this] obtain x where x: "run_proc c p' ?u = Switch x" by blast
  show ?thesis
  proof (rule that)
    show "scheduler_resume c (Some p) w = Switch x" unfolding scheduler_resume_rr p'(1) run_picked_def using x by simp
    show "cpu_proc (cpus x ! c) = Some p'" "p' < length (procs x)" "p_state (procs x ! p') = RUNNING"
      using run_proc_shape [OF x] h(5) p'(3) by (auto simp: runnable_def)
  qed (use p' in simp_all)
qed

lemma rr_round_inv:
  assumes "rr_round c q s ps t" "rr_inv q s"
  shows "rr_inv q t \<and> ps \<noteq> [] \<and> sorted_wrt (<) ps \<and> (\<forall>p \<in> set ps. p < q)"
  using assms
proof (induction rule: rr_round.induct)
  case (first t p u)
  have sch: "current_scheduler (on_cpu c s) = SCHED_RR" "runnable (on_cpu c s) q"
    using first.prems by (simp_all add: rr_inv_def on_cpu_def runnable_def)
  from first(3) obtain v where v: "acquire PtableLock (sti (on_cpu c s)) = Ok () v" "run_picked c (pick_rr 0 v) v = Switch t"
    unfolding scheduler_rr [OF sch(1)] bind_eq_Switch by (auto simp: lock_no_switch)
  have cv: "calm (on_cpu c s) v" using calm_trans [OF sti_calm stays_OkD [OF acquire_calm v(1)]] .
  have "length (cpus v) = length (cpus s)" using calm_fields(6) [OF cv] by (metis length_map on_cpu_view(3))
  with v(2) first(1,4) obtain "runnable v p" "\<And>r. runnable v r \<Longrightarrow> p \<le> r" "p_state (procs t ! p) = RUNNING" "advanced v t"
    by (auto elim: run_picked_shape)
  moreover have "runnable v q" using sch(2) calm_fields(1) [OF cv] by (simp add: runnable_def)
  ultimately have "p \<le> q" "p_state (procs u ! p) = RUNNING"
    using goes_on_state [OF first(5), of p] by (auto simp: runnable_def advanced_def)
  moreover have "rr_inv q u" by (rule rr_inv_step [OF first.prems run_step.dispatch [OF first(1-3,5)] first(6)])
  ultimately show ?case using first(6) by (cases "p = q") auto
next
  case (later ps u v w x p y)
  then have v: "rr_inv q v" using rr_inv_waiting by blast
  have l: "last ps < q" "\<And>r. r \<in> set ps \<Longrightarrow> r \<le> last ps"
    using later.IH later.prems by (cases ps rule: rev_cases; auto simp: sorted_wrt_append)+
  from rr_next [OF v later.hyps(3) l(1)] later.hyps(4,5) have p: "last ps < p" "p \<le> q" "p < length (procs x)" "p_state (procs x ! p) = RUNNING"
    by auto
  have "rr_inv q y"
    using later.hyps(3,4,6) by (intro rr_inv_step [OF v _ later.hyps(7)] run_step.onward) (auto simp: hands_back_def)
  moreover have "p \<noteq> q" using goes_on_state [OF later.hyps(6) p(3,4)] later.hyps(7) by auto
  ultimately show ?case using later.IH later.prems l p(1,2) by (fastforce simp: sorted_wrt_append)
qed


text \<open>Two processes on one processor: the first yields, and the second is next.\<close>

definition rr_jobs :: kstate where
  "rr_jobs = two_jobs\<lparr>current_scheduler := SCHED_RR\<rparr>"

lemmas turn_simps = scheduler_def sti_def acquire_def release_def pushcli_def popcli_def holding_def mycpu_def
  this_cpu_def cli_def readeflags_IF_def run_picked_def run_proc_def switchuvm_def lcr3_def pick_rr_def upd_cpu_def
  upd_proc_def yield_resume_def sched_resume_def on_cpu_def yield_def myproc_def sched_def


end
