(* ===== verification/Sleeplock.thy ===== *)
theory Sleeplock
  imports Monitor
begin

text \<open>
  Sleep locks (\<open>sleeplock.c\<close>), which guard each buffer and each inode. A process that finds one
  busy gives its processor away; \<open>acquiresleep_resume\<close> is the rest of \<open>acquiresleep\<close> once it runs
  again. The theory shows that no wakeup is lost: a process sleeps on a lock only while the lock
  is held.
\<close>

section \<open>The locks\<close>

datatype slockid = SlBuf nat | SlInode nat

primrec get_sl :: "slockid \<Rightarrow> kstate \<Rightarrow> sleeplock" where
  "get_sl (SlBuf i) s = b_lock (bufs s ! i)"
| "get_sl (SlInode i) s = ip_lock (inodes s ! i)"

primrec set_sl :: "slockid \<Rightarrow> sleeplock \<Rightarrow> kstate \<Rightarrow> kstate" where
  "set_sl (SlBuf i) l s = s\<lparr>bufs := (bufs s)[i := (bufs s ! i)\<lparr>b_lock := l\<rparr>]\<rparr>"
| "set_sl (SlInode i) l s = s\<lparr>inodes := (inodes s)[i := (inodes s ! i)\<lparr>ip_lock := l\<rparr>]\<rparr>"

primrec sl_lk :: "slockid \<Rightarrow> lockid" where
  "sl_lk (SlBuf i) = BufLk i"
| "sl_lk (SlInode i) = InodeLk i"

primrec sl_chan :: "slockid \<Rightarrow> chan" where
  "sl_chan (SlBuf i) = ChBufLock i"
| "sl_chan (SlInode i) = ChInodeLock i"

definition initsleeplock :: "slockid \<Rightarrow> string \<Rightarrow> kstate \<Rightarrow> kstate" where
  "initsleeplock sl name s =
     (let s = initlock (sl_lk sl) ''sleep lock'' s;
          s = set_sl sl ((get_sl sl s)\<lparr>sl_name := name\<rparr>) s;
          s = set_sl sl ((get_sl sl s)\<lparr>sl_locked := False\<rparr>) s
      in set_sl sl ((get_sl sl s)\<lparr>sl_pid := 0\<rparr>) s)"

text \<open>One test of the loop \<open>while (lk->locked)\<close>, and what follows the loop.\<close>

definition acquiresleep_test :: "slockid \<Rightarrow> kstate \<Rightarrow> (kstate, unit) res" where
  "acquiresleep_test sl s =
     (if sl_locked (get_sl sl s)
      then bind (sleep (sl_chan sl) (Some (sl_lk sl)) s) (\<lambda>_ s. Undef)
      else
        let s = set_sl sl ((get_sl sl s)\<lparr>sl_locked := True\<rparr>) s in
        bind (myproc s) (\<lambda>p s.
          case p of None \<Rightarrow> Undef
          | Some p \<Rightarrow>
              let s = set_sl sl ((get_sl sl s)\<lparr>sl_pid := p_pid (procs s ! p)\<rparr>) s
              in release (sl_lk sl) s))"

definition acquiresleep :: "slockid \<Rightarrow> kstate \<Rightarrow> (kstate, unit) res" where
  "acquiresleep sl s = bind (acquire (sl_lk sl) s) (\<lambda>_ s. acquiresleep_test sl s)"

definition acquiresleep_resume :: "bool \<Rightarrow> nat \<Rightarrow> u32 \<Rightarrow> slockid \<Rightarrow> kstate \<Rightarrow> (kstate, unit) res" where
  "acquiresleep_resume ie p start_ticks sl s =
     bind (sleep_resume ie p start_ticks (sl_lk sl) s) (\<lambda>_ s. acquiresleep_test sl s)"

definition releasesleep :: "slockid \<Rightarrow> kstate \<Rightarrow> (kstate, unit) res" where
  "releasesleep sl s =
     bind (acquire (sl_lk sl) s) (\<lambda>_ s.
       let s = set_sl sl ((get_sl sl s)\<lparr>sl_locked := False\<rparr>) s;
           s = set_sl sl ((get_sl sl s)\<lparr>sl_pid := 0\<rparr>) s
       in bind (wakeup (sl_chan sl) s) (\<lambda>_ s. release (sl_lk sl) s))"

definition holdingsleep :: "slockid \<Rightarrow> kstate \<Rightarrow> (kstate, bool) res" where
  "holdingsleep sl s =
     bind (acquire (sl_lk sl) s) (\<lambda>_ s.
     bind (if sl_locked (get_sl sl s)
           then bind (myproc s) (\<lambda>p s.
             case p of None \<Rightarrow> Undef
             | Some p \<Rightarrow> Ok (sl_pid (get_sl sl s) = p_pid (procs s ! p)) s)
           else Ok False s) (\<lambda>r s.
     bind (release (sl_lk sl) s) (\<lambda>_ s. Ok r s)))"

section \<open>Lemmas on reading and setting\<close>

primrec sl_ok :: "slockid \<Rightarrow> kstate \<Rightarrow> bool" where
  "sl_ok (SlBuf i) s = (i < length (bufs s))"
| "sl_ok (SlInode i) s = (i < length (inodes s))"

lemma get_set_sl: "sl_ok sl s \<Longrightarrow> get_sl m (set_sl sl l s) = (if m = sl then l else get_sl m s)"
  by (cases sl; cases m) (auto simp: nth_list_update)

lemma get_set_sl_other: "m \<noteq> sl \<Longrightarrow> get_sl m (set_sl sl l s) = get_sl m s"
  by (cases sl; cases m) auto

lemma set_sl_ok [simp]: "sl_ok m (set_sl sl l s) = sl_ok m s"
  by (cases sl; cases m) auto

lemma set_sl_twice [simp]: "set_sl sl l (set_sl sl k s) = set_sl sl l s"
  by (cases sl; cases "sl_ok sl s") (simp_all add: list_update_beyond)

lemma set_sl_fields [simp]:
  "procs (set_sl sl l s) = procs s" "cur_proc (set_sl sl l s) = cur_proc s"
  "quiet (set_sl sl l s) = quiet s" "cpu_ok (set_sl sl l s) = cpu_ok s"
  "lock_free lk (set_sl sl l s) = lock_free lk s" "klog (set_sl sl l s) = klog s"
  "disk (set_sl sl l s) = disk s" "on_cpus (set_sl sl l s) = on_cpus s"
  by (cases sl; simp add: on_cpus_def)+

lemma set_sl_taken [simp]:
  "set_sl sl l (taken lk s) = taken lk (set_sl sl l s)" "get_sl sl (taken lk s) = get_sl sl s"
  "sl_ok sl (taken lk s) = sl_ok sl s"
  by (cases sl; simp)+

lemma get_sl_calm: "calm s t \<Longrightarrow> get_sl sl t = get_sl sl s" "calm s t \<Longrightarrow> sl_ok sl t = sl_ok sl s"
  by (cases sl; simp add: calm_fields)+

section \<open>What the operations do when no lock is held\<close>

lemma no_sleepers_wakeup1:
  assumes "\<forall>p \<in> set (procs s). \<not> (p_state p = SLEEPING \<and> p_chan p = Some ch)"
  shows "wakeup1 ch s = s"
proof -
  have "map (\<lambda>p. if p_state p = SLEEPING \<and> p_chan p = Some ch then p\<lparr>p_state := RUNNABLE\<rparr> else p) (procs s)
      = procs s"
    using assms by (intro map_idI) auto
  then show ?thesis by (simp only: wakeup1_def) simp
qed

lemma wakeup_ok [lock_simps]:
  assumes "cpu_ok s" "lock_free PtableLock s"
  shows "wakeup ch s = Ok () (wakeup1 ch s)"
  using assms by (simp add: wakeup_def wakeup1_def lock_simps)

lemma wakeup1_taken [simp]:
  "wakeup1 ch (taken lk s) = taken lk (wakeup1 ch s)"
  "cpu_ok (wakeup1 ch s) = cpu_ok s" "lock_free lk (wakeup1 ch s) = lock_free lk s"
  "quiet (wakeup1 ch s) = quiet s" "cur_proc (wakeup1 ch s) = cur_proc s"
  by (simp_all add: wakeup1_def)

text \<open>The lock in the hands of the current process.\<close>

definition my_pid :: "kstate \<Rightarrow> u32" where
  "my_pid s = p_pid (procs s ! the (cur_proc s))"

lemma acquiresleep_free [lock_simps]:
  assumes "quiet s" "cur_proc s = Some p" "sl_ok sl s" "\<not> sl_locked (get_sl sl s)"
  shows "acquiresleep sl s = Ok () (set_sl sl ((get_sl sl s)\<lparr>sl_locked := True, sl_pid := my_pid s\<rparr>) s)"
  using assms by (simp add: acquiresleep_def acquiresleep_test_def Let_def lock_simps get_set_sl my_pid_def)

lemma releasesleep_ok [lock_simps]:
  assumes "quiet s" "sl_ok sl s"
  shows "releasesleep sl s
    = Ok () (wakeup1 (sl_chan sl) (set_sl sl ((get_sl sl s)\<lparr>sl_locked := False, sl_pid := 0\<rparr>) s))"
proof -
  have "sl_lk sl \<noteq> PtableLock" by (cases sl) auto
  then show ?thesis
    using assms by (simp add: releasesleep_def Let_def lock_simps get_set_sl)
qed

lemma holdingsleep_ok [lock_simps]:
  assumes "quiet s" "cur_proc s = Some p"
  shows "holdingsleep sl s = Ok (sl_locked (get_sl sl s) \<and> sl_pid (get_sl sl s) = my_pid s) s"
  using assms by (simp add: holdingsleep_def lock_simps my_pid_def)

text \<open>A process that finds the lock busy sleeps, and the spin lock inside is free again.\<close>

lemma acquiresleep_busy:
  assumes "quiet s" "this_cpu s = Some c" "ncli (cpus s ! c) = 0" "cur_proc s = Some p" "p < length (procs s)"
    and "sl_locked (get_sl sl s)"
  shows "acquiresleep sl s = Switch (taken PtableLock
    (upd_proc p (\<lambda>q. q\<lparr>p_chan := Some (sl_chan sl), p_state := SLEEPING\<rparr>) s))"
proof -
  have "sl_lk sl \<noteq> PtableLock" by (cases sl) auto
  then show ?thesis
    using assms sleep_switches [of s "sl_lk sl" c p "sl_chan sl"]
    by (simp add: acquiresleep_def acquiresleep_test_def lock_simps)
qed

section \<open>No wakeup is lost\<close>

definition sl_obs :: "kstate \<Rightarrow> slockid \<Rightarrow> sleeplock \<times> bool" where
  "sl_obs s sl = (get_sl sl s, sl_ok sl s)"

definition sl_cond :: "chan \<Rightarrow> (slockid \<Rightarrow> sleeplock \<times> bool) \<Rightarrow> bool" where
  "sl_cond ch f \<longleftrightarrow> (\<forall>sl. ch = sl_chan sl \<longrightarrow> snd (f sl) \<longrightarrow> sl_locked (fst (f sl)))"

definition sl_inv :: "kstate \<Rightarrow> bool" where
  "sl_inv s \<longleftrightarrow> sleepers_ok sl_obs (range sl_chan) sl_cond s"

interpretation slk: monitor sl_obs "range sl_chan" sl_cond
proof unfold_locales
  fix s and ps
  have "sl_obs (s\<lparr>procs := ps\<rparr>) sl = sl_obs s sl" for sl by (cases sl) (simp_all add: sl_obs_def)
  then show "sl_obs (s\<lparr>procs := ps\<rparr>) = sl_obs s" by blast
next
  fix c s
  have "sl_obs (on_cpu c s) sl = sl_obs s sl" for sl by (cases sl) (simp_all add: sl_obs_def on_cpu_def)
  then show "sl_obs (on_cpu c s) = sl_obs s" by blast
qed (simp add: sl_obs_def get_sl_calm fun_eq_iff)

lemma sl_chan_inj: "sl_chan m = sl_chan sl \<longleftrightarrow> m = sl"
  by (cases m; cases sl) auto

lemma sl_cond_chan: "sl_cond (sl_chan sl) (sl_obs s) \<longleftrightarrow> (sl_ok sl s \<longrightarrow> sl_locked (get_sl sl s))"
  by (auto simp: sl_cond_def sl_obs_def sl_chan_inj)

lemma sl_inv_iff:
  "sl_inv s \<longleftrightarrow> (\<forall>sl p. sl_ok sl s \<longrightarrow> waits_on (sl_chan sl) s p \<longrightarrow> sl_locked (get_sl sl s))"
  by (auto simp: sl_inv_def sleepers_ok_def sl_cond_chan)

lemmas sl_inv_stays = slk.sleepers_stays [folded sl_inv_def]
  and sl_inv_OkD = slk.sleepers_OkD [folded sl_inv_def]

text \<open>
  Processors execute operations on sleep locks, and other code that puts no process to sleep on
  one, in any order.
\<close>

inductive sl_step :: "kstate \<Rightarrow> kstate \<Rightarrow> bool" where
  acq: "res_state (acquiresleep sl (on_cpu c s)) = Some t \<Longrightarrow> sl_step s t"
| acq_again: "res_state (acquiresleep_resume ie p start_ticks sl (on_cpu c s)) = Some t \<Longrightarrow> sl_step s t"
| rel: "res_state (releasesleep sl (on_cpu c s)) = Some t \<Longrightarrow> sl_step s t"
| nap: "res_state (sleep ch lk (on_cpu c s)) = Some t \<Longrightarrow> \<forall>sl. ch \<noteq> sl_chan sl \<Longrightarrow> sl_step s t"
| nap_over: "res_state (sleep_resume ie p start_ticks lk (on_cpu c s)) = Some t \<Longrightarrow> sl_step s t"
| yields: "res_state (yield (on_cpu c s)) = Some t \<Longrightarrow> sl_step s t"
| wakes: "res_state (wakeup ch (on_cpu c s)) = Some t \<Longrightarrow> sl_step s t"
| kills: "res_state (kill pid (on_cpu c s)) = Some t \<Longrightarrow> sl_step s t"

lemma set_sl_waits: "waits_on ch (set_sl sl l s) p = waits_on ch s p"
  by (simp add: waits_on_def)

lemma set_sl_id: "\<not> sl_ok sl s \<Longrightarrow> set_sl sl l s = s"
  by (cases sl) (simp_all add: list_update_beyond)

lemma sl_inv_set_locked:
  assumes "sl_inv s" "sl_locked l"
  shows "sl_inv (set_sl sl l s)"
proof (cases "sl_ok sl s")
  case True
  have "sl_locked (get_sl m (set_sl sl l s))"
    if "sl_ok m (set_sl sl l s)" "waits_on (sl_chan m) s p" for m p
    using that assms True by (cases "m = sl") (auto simp: sl_inv_iff get_set_sl get_set_sl_other)
  then show ?thesis by (auto simp: sl_inv_iff set_sl_waits)
qed (simp add: set_sl_id assms(1))

lemma acquiresleep_test_inv:
  assumes "res_state (acquiresleep_test sl s) = Some t" "sl_inv s"
  shows "sl_inv t"
proof (cases "sl_locked (get_sl sl s)")
  case True
  with assms(1) have "res_state (sleep (sl_chan sl) (Some (sl_lk sl)) s) = Some t"
    by (cases "sleep (sl_chan sl) (Some (sl_lk sl)) s") (auto simp: acquiresleep_test_def)
  from slk.sleepers_sleep(1) [OF this] assms(2) True show ?thesis
    by (simp add: sl_inv_def sl_cond_chan)
next
  case False
  let ?s = "set_sl sl ((get_sl sl s)\<lparr>sl_locked := True\<rparr>) s"
  from assms(1) have "res_state (bind (myproc ?s) (\<lambda>p s. case p of None \<Rightarrow> Undef
      | Some p \<Rightarrow> release (sl_lk sl) (set_sl sl ((get_sl sl s)\<lparr>sl_pid := p_pid (procs s ! p)\<rparr>) s))) = Some t"
    by (simp only: acquiresleep_test_def Let_def False if_False)
  then obtain p u where u: "myproc ?s = Ok (Some p) u"
    "res_state (release (sl_lk sl) (set_sl sl ((get_sl sl u)\<lparr>sl_pid := p_pid (procs u ! p)\<rparr>) u)) = Some t"
    by (rule res_state_bind) (auto simp: lock_no_switch split: option.splits)
  have c: "calm ?s u" using u(1) by (rule stays_OkD [OF myproc_calm])
  have "sl_inv ?s" using assms(2) by (rule sl_inv_set_locked) simp
  then have inv: "sl_inv u" by (rule sl_inv_OkD [OF slk.stays_calm [OF myproc_calm] u(1)])
  have "sl_inv (set_sl sl ((get_sl sl u)\<lparr>sl_pid := p_pid (procs u ! p)\<rparr>) u)"
  proof (cases "sl_ok sl s")
    case True
    with c show ?thesis by (intro sl_inv_set_locked [OF inv]) (simp add: get_sl_calm get_set_sl)
  qed (use c inv in \<open>simp add: set_sl_id get_sl_calm\<close>)
  then show ?thesis by (rule sl_inv_stays [OF slk.release_nw u(2)])
qed

lemma releasesleep_inv:
  assumes "res_state (releasesleep sl s) = Some t" "sl_inv s"
  shows "sl_inv t"
proof -
  let ?l = "\<lambda>s. (get_sl sl s)\<lparr>sl_locked := False\<rparr>"
  let ?f = "\<lambda>s. set_sl sl ((get_sl sl (set_sl sl (?l s) s))\<lparr>sl_pid := 0\<rparr>) s"
  from assms(1) obtain u v where u: "acquire (sl_lk sl) s = Ok () u"
    "wakeup (sl_chan sl) (?f u) = Ok () v" "res_state (release (sl_lk sl) v) = Some t"
    unfolding releasesleep_def Let_def
    by (auto simp: lock_no_switch wakeup_no_switch elim!: res_state_bind)
  have iu: "sl_inv u" using assms(2) by (rule sl_inv_OkD [OF slk.acquire_nw u(1)])
  have "sl_inv v"
    unfolding sl_inv_def
  proof (rule slk.sleepers_wakeup(1) [OF u(2)])
    fix c p
    assume "c \<in> range sl_chan" "c \<noteq> sl_chan sl" "waits_on c (?f u) p"
    then obtain m where m: "c = sl_chan m" "m \<noteq> sl" "waits_on (sl_chan m) u p" by (auto simp: set_sl_waits)
    then show "sl_cond c (sl_obs (?f u))"
      using iu by (auto simp: sl_cond_chan sl_inv_iff get_set_sl_other)
  qed
  then show ?thesis by (rule sl_inv_stays [OF slk.release_nw u(3)])
qed

lemma acquiresleep_inv:
  assumes "sl_inv s"
  shows "res_state (acquiresleep sl s) = Some t \<Longrightarrow> sl_inv t"
    "res_state (acquiresleep_resume ie p st sl s) = Some t \<Longrightarrow> sl_inv t"
proof -
  show "sl_inv t" if r: "res_state (acquiresleep sl s) = Some t"
  proof -
    from r obtain u where "acquire (sl_lk sl) s = Ok () u" "res_state (acquiresleep_test sl u) = Some t"
      unfolding acquiresleep_def by (rule res_state_bind) (auto simp: lock_no_switch)
    then show ?thesis using acquiresleep_test_inv sl_inv_OkD [OF slk.acquire_nw] assms by blast
  qed
  show "sl_inv t" if r: "res_state (acquiresleep_resume ie p st sl s) = Some t"
  proof -
    from r obtain u where "sleep_resume ie p st (sl_lk sl) s = Ok () u"
      "res_state (acquiresleep_test sl u) = Some t"
      unfolding acquiresleep_resume_def by (rule res_state_bind) (auto simp: sleep_resume_no_switch)
    then show ?thesis using acquiresleep_test_inv sl_inv_OkD [OF slk.sleep_resume_nw] assms by blast
  qed
qed

lemma sl_step_inv:
  assumes "sl_step s t" "sl_inv s"
  shows "sl_inv t"
proof -
  have i: "sl_inv (on_cpu c s)" for c using assms(2) by (simp add: sl_inv_def slk.sleepers_on_cpu)
  from assms(1) show ?thesis
  proof cases
    case (nap ch lk c)
    then have "ch \<notin> range sl_chan" by auto
    with slk.sleepers_sleep(1) [OF nap(1)] i show ?thesis by (simp add: sl_inv_def)
  next
    case acq
    then show ?thesis by (rule acquiresleep_inv(1) [OF i])
  next
    case acq_again
    then show ?thesis by (rule acquiresleep_inv(2) [OF i])
  next
    case rel
    then show ?thesis using i by (rule releasesleep_inv)
  qed (auto intro: sl_inv_stays [OF slk.sleep_resume_nw _ i] sl_inv_stays [OF slk.yield_nw _ i]
      sl_inv_stays [OF slk.wakeup_nw _ i] sl_inv_stays [OF slk.kill_nw _ i])
qed

lemma sl_reach_inv: "rtranclp sl_step s t \<Longrightarrow> sl_inv s \<Longrightarrow> sl_inv t"
  by (induction rule: rtranclp_induct) (auto intro: sl_step_inv)


definition busy_buf :: kstate where
  "busy_buf = one_cpu\<lparr>cpus := [(cpu0 0)\<lparr>cpu_proc := Some 0\<rparr>], procs := [proc0\<lparr>p_state := RUNNING\<rparr>],
     bufs := [buf0\<lparr>b_lock := \<lparr>sl_locked = True, sl_name = [], sl_pid = 9\<rparr>\<rparr>]\<rparr>"


end
