(* ===== verification/Bio.thy ===== *)
theory Bio
  imports Sleeplock
begin

text \<open>
  The buffer cache (\<open>bio.c\<close>) and the disk in memory (\<open>memide.c\<close>).

  The cache keeps its buffers on a doubly linked ring through \<open>bcache.head\<close>, most recently used
  first: \<open>ring\<close> says which list of buffers the pointers stand for, and the operations on pointers
  refine operations on that list. \<open>blk\<close> is the contents of a block as the rest of the kernel
  sees it, through the cache: \<open>bread\<close> gives it, and neither reading, nor recycling a buffer, nor
  releasing one changes it.
\<close>

section \<open>The disk\<close>

definition upd_buf :: "nat \<Rightarrow> (buf \<Rightarrow> buf) \<Rightarrow> kstate \<Rightarrow> kstate" where
  "upd_buf b f s = s\<lparr>bufs := (bufs s)[b := f (bufs s ! b)]\<rparr>"

definition mem_ideinit :: "u32 \<Rightarrow> (u32 \<Rightarrow> u8 list) \<Rightarrow> kstate \<Rightarrow> kstate" where
  "mem_ideinit fs_img_size memdisk s = s\<lparr>disk := memdisk, disksize := fs_img_size div of_nat BSIZE\<rparr>"

definition iderw :: "nat \<Rightarrow> kstate \<Rightarrow> (kstate, unit) res" where
  "iderw b s =
     bind (holdingsleep (SlBuf b) s) (\<lambda>h s.
       let k = bufs s ! b in
       if \<not> h then Panic ''iderw: buf not locked''
       else if b_valid k \<and> \<not> b_dirty k then Panic ''iderw: nothing to do''
       else if b_dev k \<noteq> 1 then Panic ''iderw: request not for disk 1''
       else if b_blockno k \<ge> disksize s then Panic ''iderw: block out of range''
       else
         let s = (if b_dirty k
                  then
                    let s = upd_buf b (\<lambda>k. k\<lparr>b_dirty := False\<rparr>) s
                    in s\<lparr>disk := (disk s)(b_blockno k := b_data k),
                         disk_trace := disk_trace s @ [(b_blockno k, b_data k)]\<rparr>
                  else upd_buf b (\<lambda>l. l\<lparr>b_data := disk s (b_blockno k)\<rparr>) s)
         in Ok () (upd_buf b (\<lambda>k. k\<lparr>b_valid := True\<rparr>) s))"

section \<open>The cache\<close>

text \<open>
  The pointers \<open>next\<close> and \<open>prev\<close> of the buffers and of \<open>head\<close>, which has index \<open>NBUF\<close>. \<open>link_first\<close>
  is the four assignments that put a buffer in front, \<open>unlink\<close> the two that take it out.
\<close>

definition unlink :: "nat \<Rightarrow> kstate \<Rightarrow> kstate" where
  "unlink b s =
     (let s = s\<lparr>b_prev := (b_prev s)(b_next s b := b_prev s b)\<rparr>
      in s\<lparr>b_next := (b_next s)(b_prev s b := b_next s b)\<rparr>)"

definition link_first :: "nat \<Rightarrow> kstate \<Rightarrow> kstate" where
  "link_first b s =
     (let s = s\<lparr>b_next := (b_next s)(b := b_next s NBUF)\<rparr>;
          s = s\<lparr>b_prev := (b_prev s)(b := NBUF)\<rparr>;
          s = s\<lparr>b_prev := (b_prev s)(b_next s NBUF := b)\<rparr>
      in s\<lparr>b_next := (b_next s)(NBUF := b)\<rparr>)"

text \<open>The body of the loop of \<open>binit\<close> initialises the lock between the assignments.\<close>

primrec binit_loop :: "nat list \<Rightarrow> kstate \<Rightarrow> kstate" where
  "binit_loop [] s = s"
| "binit_loop (b # bs) s =
     (let s = s\<lparr>b_next := (b_next s)(b := b_next s NBUF)\<rparr>;
          s = s\<lparr>b_prev := (b_prev s)(b := NBUF)\<rparr>;
          s = initsleeplock (SlBuf b) ''buffer'' s;
          s = s\<lparr>b_prev := (b_prev s)(b_next s NBUF := b)\<rparr>;
          s = s\<lparr>b_next := (b_next s)(NBUF := b)\<rparr>
      in binit_loop bs s)"

definition binit :: "kstate \<Rightarrow> kstate" where
  "binit s =
     (let s = initlock BcacheLock ''bcache'' s;
          s = s\<lparr>b_prev := (b_prev s)(NBUF := NBUF)\<rparr>;
          s = s\<lparr>b_next := (b_next s)(NBUF := NBUF)\<rparr>
      in binit_loop [0..<NBUF] s)"

text \<open>
  A loop along the ring from \<open>b\<close> back to the head, looking for a buffer that satisfies \<open>P\<close>. The ring
  has \<open>NBUF\<close> buffers, so that \<open>NBUF + 1\<close> steps reach the head; \<open>None\<close> stands for a ring on which the
  loop would not end.
\<close>

primrec ring_walk :: "nat \<Rightarrow> (nat \<Rightarrow> nat) \<Rightarrow> (nat \<Rightarrow> bool) \<Rightarrow> nat \<Rightarrow> nat option option" where
  "ring_walk 0 nx P b = None"
| "ring_walk (Suc n) nx P b =
     (if b = NBUF then Some None else if P b then Some (Some b) else ring_walk n nx P (nx b))"

definition bget :: "u32 \<Rightarrow> u32 \<Rightarrow> kstate \<Rightarrow> (kstate, nat) res" where
  "bget dev blockno s =
     bind (acquire BcacheLock s) (\<lambda>_ s.
       case ring_walk (NBUF + 1) (b_next s)
              (\<lambda>b. b_dev (bufs s ! b) = dev \<and> b_blockno (bufs s ! b) = blockno) (b_next s NBUF) of
         None \<Rightarrow> Spin
       | Some (Some b) \<Rightarrow>
           let s = upd_buf b (\<lambda>k. k\<lparr>b_refcnt := b_refcnt k + 1\<rparr>) s in
           bind (release BcacheLock s) (\<lambda>_ s.
           bind (acquiresleep (SlBuf b) s) (\<lambda>_ s. Ok b s))
       | Some None \<Rightarrow>
           (case ring_walk (NBUF + 1) (b_prev s)
                   (\<lambda>b. b_refcnt (bufs s ! b) = 0 \<and> \<not> b_dirty (bufs s ! b)) (b_prev s NBUF) of
              None \<Rightarrow> Spin
            | Some None \<Rightarrow> Panic ''bget: no buffers''
            | Some (Some b) \<Rightarrow>
                let s = upd_buf b (\<lambda>k. k\<lparr>b_dev := dev, b_blockno := blockno,
                          b_valid := False, b_dirty := False, b_refcnt := 1\<rparr>) s in
                bind (release BcacheLock s) (\<lambda>_ s.
                bind (acquiresleep (SlBuf b) s) (\<lambda>_ s. Ok b s))))"

definition bread :: "u32 \<Rightarrow> u32 \<Rightarrow> kstate \<Rightarrow> (kstate, nat) res" where
  "bread dev blockno s =
     bind (bget dev blockno s) (\<lambda>b s.
     bind (if \<not> b_valid (bufs s ! b) then iderw b s else Ok () s) (\<lambda>_ s. Ok b s))"

definition bwrite :: "nat \<Rightarrow> kstate \<Rightarrow> (kstate, unit) res" where
  "bwrite b s =
     bind (holdingsleep (SlBuf b) s) (\<lambda>h s.
       if \<not> h then Panic ''bwrite''
       else iderw b (upd_buf b (\<lambda>k. k\<lparr>b_dirty := True\<rparr>) s))"

definition brelse :: "nat \<Rightarrow> kstate \<Rightarrow> (kstate, unit) res" where
  "brelse b s =
     bind (holdingsleep (SlBuf b) s) (\<lambda>h s.
       if \<not> h then Panic ''brelse''
       else
         bind (releasesleep (SlBuf b) s) (\<lambda>_ s.
         bind (acquire BcacheLock s) (\<lambda>_ s.
           let s = upd_buf b (\<lambda>k. k\<lparr>b_refcnt := b_refcnt k - 1\<rparr>) s;
               s = (if b_refcnt (bufs s ! b) = 0 then link_first b (unlink b s) else s)
           in release BcacheLock s)))"

section \<open>The ring of buffers\<close>

fun dll :: "(nat \<Rightarrow> nat) \<Rightarrow> (nat \<Rightarrow> nat) \<Rightarrow> nat list \<Rightarrow> bool" where
  "dll nx pv (a # b # l) \<longleftrightarrow> nx a = b \<and> pv b = a \<and> dll nx pv (b # l)"
| "dll nx pv l \<longleftrightarrow> True"

lemma dll_append: "dll nx pv (l @ b # r) \<longleftrightarrow> dll nx pv (l @ [b]) \<and> dll nx pv (b # r)"
proof (induction l)
  case Nil
  show ?case by simp
next
  case (Cons a l)
  then show ?case by (cases l) auto
qed

lemma dll_cong:
  assumes "\<And>a. a \<in> set (butlast l) \<Longrightarrow> nx' a = nx a" "\<And>a. a \<in> set (tl l) \<Longrightarrow> pv' a = pv a"
  shows "dll nx' pv' l = dll nx pv l"
  using assms
proof (induction nx pv l rule: dll.induct)
  case (1 nx pv a b l)
  have "dll nx' pv' (b # l) = dll nx pv (b # l)"
    using "1.prems" by (intro "1.IH") simp_all
  with "1.prems" show ?case by auto
qed auto

text \<open>The buffers on the ring, from the most to the least recently used.\<close>

definition ring :: "kstate \<Rightarrow> nat list \<Rightarrow> bool" where
  "ring s xs \<longleftrightarrow> distinct xs \<and> NBUF \<notin> set xs \<and> dll (b_next s) (b_prev s) (NBUF # xs @ [NBUF])"

lemma dll_unlink:
  assumes "dll nx pv (A @ p # b # n # R)"
    and "p \<notin> set A" "p \<notin> set (butlast (n # R))" "n \<notin> set (tl (A @ [p]))" "n \<notin> set R"
  shows "dll (nx(p := n)) (pv(n := p)) (A @ p # n # R)"
proof -
  have "dll nx pv (A @ [p])" "dll nx pv (n # R)"
    using assms(1) dll_append [of nx pv A p "b # n # R"] by auto
  then have "dll (nx(p := n)) (pv(n := p)) (A @ [p])" "dll (nx(p := n)) (pv(n := p)) (n # R)"
    using assms(2-5) by (subst dll_cong; auto)+
  then show ?thesis
    using dll_append [of "nx(p := n)" "pv(n := p)" A p "n # R"] by simp
qed

lemma dll_push:
  assumes "dll nx pv (h # f # R)" "b \<notin> set (f # R)" "b \<noteq> h" "h \<notin> set (butlast (f # R))" "f \<notin> set R"
  shows "dll (nx(b := f, h := b)) (pv(b := h, f := b)) (h # b # f # R)"
proof -
  have "dll (nx(b := f, h := b)) (pv(b := h, f := b)) (f # R) = dll nx pv (f # R)"
    using assms(2-5) by (intro dll_cong) (auto dest: in_set_butlastD split: if_splits)
  with assms show ?thesis by auto
qed

lemma ring_unlink:
  assumes "ring s (ys @ b # zs)"
  shows "ring (unlink b s) (ys @ zs)"
proof -
  obtain A p where A: "NBUF # ys = A @ [p]" by (cases "NBUF # ys" rule: rev_cases) auto
  obtain n R where n: "zs @ [NBUF] = n # R" by (cases zs) auto
  have dist: "distinct (NBUF # ys @ b # zs)" using assms by (simp add: ring_def)
  have d: "dll (b_next s) (b_prev s) (A @ p # b # n # R)"
    using assms unfolding ring_def by (metis A n append.assoc append_Cons append_Nil)
  then have b: "b_prev s b = p" "b_next s b = n"
    using dll_append [of "b_next s" "b_prev s" A p "b # n # R"] by auto
  have dA: "distinct (A @ [p])" "distinct (n # R)"
    unfolding A [symmetric] n [symmetric] using dist by auto
  have mem: "p \<in> set (NBUF # ys)" "n \<in> set (zs @ [NBUF])" unfolding A n by auto
  have "p \<notin> set (butlast (n # R))"
    unfolding n [symmetric] using mem(1) dist by auto
  moreover have "n \<notin> set (tl (A @ [p]))"
    unfolding A [symmetric] using mem(2) dist by auto
  ultimately have "dll ((b_next s)(p := n)) ((b_prev s)(n := p)) (A @ p # n # R)"
    using dA by (intro dll_unlink [OF d]) auto
  then have "dll ((b_next s)(p := n)) ((b_prev s)(n := p)) (NBUF # ys @ zs @ [NBUF])"
    by (metis A n append.assoc append_Cons append_Nil)
  moreover have "b \<noteq> n" using mem(2) dist by auto
  ultimately show ?thesis
    using dist b by (simp add: ring_def unlink_def Let_def)
qed

lemma ring_link_first:
  assumes "ring s xs" "b \<notin> set xs" "b \<noteq> NBUF"
  shows "ring (link_first b s) (b # xs)"
proof -
  obtain f R where f: "xs @ [NBUF] = f # R" by (cases xs) auto
  have d: "dll (b_next s) (b_prev s) (NBUF # f # R)" using assms(1) f by (simp add: ring_def)
  have "distinct (f # R)" "NBUF \<notin> set (butlast (f # R))" "b \<notin> set (f # R)"
    unfolding f [symmetric] using assms by (auto simp: ring_def)
  then have "dll ((b_next s)(b := f, NBUF := b)) ((b_prev s)(b := NBUF, f := b)) (NBUF # b # f # R)"
    using assms(3) by (intro dll_push [OF d]) auto
  moreover have "b_next s NBUF = f" using d by simp
  ultimately show ?thesis
    using assms f by (simp add: ring_def link_first_def Let_def)
qed

lemma ring_cong: "b_next s = b_next t \<Longrightarrow> b_prev s = b_prev t \<Longrightarrow> ring s xs = ring t xs"
  by (simp add: ring_def)

lemma ring_walk_next:
  assumes "dll nx pv (a # xs @ [NBUF])" "NBUF \<notin> set xs" "length xs < n"
  shows "ring_walk n nx P (nx a) = Some (List.find P xs)"
  using assms
proof (induction xs arbitrary: a n)
  case Nil
  then show ?case by (cases n) auto
next
  case (Cons x xs)
  then show ?case by (cases n) auto
qed

lemma dll_rev: "dll nx pv l = dll pv nx (rev l)"
proof (induction nx pv l rule: dll.induct)
  case (1 nx pv a b l)
  have "dll pv nx (rev (a # b # l)) = (dll pv nx (rev l @ [b]) \<and> dll pv nx [b, a])"
    using dll_append [of pv nx "rev l" b "[a]"] by simp
  with 1 show ?case by auto
qed auto

lemma ring_walks:
  assumes "ring s xs" "length xs \<le> NBUF"
  shows "ring_walk (NBUF + 1) (b_next s) P (b_next s NBUF) = Some (List.find P xs)"
    and "ring_walk (NBUF + 1) (b_prev s) P (b_prev s NBUF) = Some (List.find P (rev xs))"
proof -
  show "ring_walk (NBUF + 1) (b_next s) P (b_next s NBUF) = Some (List.find P xs)"
    using assms by (intro ring_walk_next [where pv = "b_prev s"]) (auto simp: ring_def)
  have "dll (b_prev s) (b_next s) (NBUF # rev xs @ [NBUF])"
    using assms(1) dll_rev [of "b_next s" "b_prev s" "NBUF # xs @ [NBUF]"] by (simp add: ring_def)
  with assms show "ring_walk (NBUF + 1) (b_prev s) P (b_prev s NBUF) = Some (List.find P (rev xs))"
    by (intro ring_walk_next [where pv = "b_next s"]) (auto simp: ring_def)
qed

lemma binit_loop_ring:
  "ring s xs \<Longrightarrow> distinct (bs @ xs) \<Longrightarrow> NBUF \<notin> set bs \<Longrightarrow> ring (binit_loop bs s) (rev bs @ xs)"
proof (induction bs arbitrary: s xs)
  case (Cons b bs)
  let ?s = "s\<lparr>b_next := (b_next s)(b := b_next s NBUF), b_prev := (b_prev s)(b := NBUF)\<rparr>"
  let ?t = "initsleeplock (SlBuf b) ''buffer'' ?s"
  let ?u = "?t\<lparr>b_prev := (b_prev ?t)(b_next ?t NBUF := b), b_next := (b_next ?t)(NBUF := b)\<rparr>"
  have "b_next ?t = b_next ?s" "b_prev ?t = b_prev ?s"
    by (simp_all add: initsleeplock_def initlock_def Let_def)
  then have "b_next ?u = b_next (link_first b s)" "b_prev ?u = b_prev (link_first b s)"
    by (simp_all add: link_first_def Let_def)
  moreover have "ring (link_first b s) (b # xs)"
    using Cons.prems by (intro ring_link_first) auto
  ultimately have "ring ?u (b # xs)" using ring_cong by blast
  then have "ring (binit_loop bs ?u) (rev bs @ b # xs)"
    using Cons.prems by (intro Cons.IH) auto
  then show ?case by (simp add: Let_def)
qed simp

lemma binit_ring: "ring (binit s) (rev [0..<NBUF])"
proof -
  let ?s = "(initlock BcacheLock ''bcache'' s)\<lparr>b_prev := (b_prev s)(NBUF := NBUF), b_next := (b_next s)(NBUF := NBUF)\<rparr>"
  have "ring ?s []" by (simp add: ring_def)
  then have "ring (binit_loop [0..<NBUF] ?s) (rev [0..<NBUF] @ [])"
    by (rule binit_loop_ring) simp_all
  then show ?thesis by (simp only: binit_def Let_def initlock_def append_Nil2) simp
qed

section \<open>The contents of blocks\<close>

definition holds_block :: "kstate \<Rightarrow> u32 \<Rightarrow> nat \<Rightarrow> bool" where
  "holds_block s b i \<longleftrightarrow> b_dev (bufs s ! i) = 1 \<and> b_blockno (bufs s ! i) = b"

definition blk :: "kstate \<Rightarrow> u32 \<Rightarrow> u8 list" where
  "blk s b = (case List.find (\<lambda>i. holds_block s b i \<and> b_valid (bufs s ! i)) [0..<NBUF] of
     None \<Rightarrow> disk s b | Some i \<Rightarrow> b_data (bufs s ! i))"

text \<open>
  The current process is the only one in the file system: no lock is held, and nobody sleeps on a
  buffer, an inode or the log.
\<close>

definition fs_chan :: "chan \<Rightarrow> bool" where
  "fs_chan ch \<longleftrightarrow> (case ch of ChBufLock i \<Rightarrow> True | ChInodeLock i \<Rightarrow> True | ChLog \<Rightarrow> True | _ \<Rightarrow> False)"

definition alone :: "kstate \<Rightarrow> bool" where
  "alone s \<longleftrightarrow> quiet s \<and> cur_proc s \<noteq> None
     \<and> (\<forall>q \<in> set (procs s). p_state q = SLEEPING \<longrightarrow> (\<forall>ch. p_chan q = Some ch \<longrightarrow> \<not> fs_chan ch))"

text \<open>
  Every buffer of the cache is sound: \<open>H\<close> are the ones the current process holds, the others are
  unused, and unless it awaits a commit (\<open>b_dirty\<close>) an unused buffer that is valid agrees with the disk.
\<close>

definition buf_ok :: "kstate \<Rightarrow> nat set \<Rightarrow> nat \<Rightarrow> bool" where
  "buf_ok s H i \<longleftrightarrow> (let k = bufs s ! i in
     length (b_data k) = BSIZE \<and> (b_dirty k \<longrightarrow> b_valid k \<and> b_dev k = 1)
     \<and> (if i \<in> H
        then b_refcnt k = 1 \<and> sl_locked (b_lock k) \<and> sl_pid (b_lock k) = my_pid s
          \<and> b_valid k \<and> b_dev k = 1 \<and> b_blockno k < disksize s
        else b_refcnt k = 0 \<and> \<not> sl_locked (b_lock k)
          \<and> (b_valid k \<longrightarrow> \<not> b_dirty k \<longrightarrow> b_dev k = 1 \<longrightarrow> b_data k = disk s (b_blockno k))))"

definition one_each :: "kstate \<Rightarrow> bool" where
  "one_each s \<longleftrightarrow> (\<forall>i < NBUF. \<forall>j < NBUF. b_dev (bufs s ! i) = 1 \<longrightarrow> b_dev (bufs s ! j) = 1
     \<longrightarrow> b_blockno (bufs s ! i) = b_blockno (bufs s ! j) \<longrightarrow> i = j)"

definition bc :: "kstate \<Rightarrow> nat set \<Rightarrow> bool" where
  "bc s H \<longleftrightarrow> alone s \<and> length (bufs s) = NBUF \<and> H \<subseteq> {..<NBUF}
     \<and> (\<exists>xs. ring s xs \<and> set xs = {..<NBUF}) \<and> (\<forall>i < NBUF. buf_ok s H i) \<and> one_each s
     \<and> (\<forall>b. length (disk s b) = BSIZE)"

definition dirty :: "kstate \<Rightarrow> nat set" where
  "dirty s = {i. i < NBUF \<and> b_dirty (bufs s ! i)}"

text \<open>Only the cache and the disk differ.\<close>

definition io_only :: "kstate \<Rightarrow> kstate \<Rightarrow> bool" where
  "io_only s t \<longleftrightarrow> (\<exists>d tr bs nx pv. t = s\<lparr>disk := d, disk_trace := tr, bufs := bs, b_next := nx, b_prev := pv\<rparr>)"

lemma bcD:
  assumes "bc s H"
  shows "alone s" "length (bufs s) = NBUF" "H \<subseteq> {..<NBUF}" "\<And>i. i < NBUF \<Longrightarrow> buf_ok s H i" "one_each s"
    "length (disk s b) = BSIZE" "finite H"
  using assms finite_subset [of H "{..<NBUF}"] by (auto simp: bc_def)

lemma alone_wakeup1: "alone s \<Longrightarrow> fs_chan ch \<Longrightarrow> wakeup1 ch s = s"
  by (rule no_sleepers_wakeup1) (auto simp: alone_def)

lemma alone_bufs [simp]: "alone (s\<lparr>bufs := bs\<rparr>) = alone s" "my_pid (s\<lparr>bufs := bs\<rparr>) = my_pid s"
  by (simp_all add: alone_def my_pid_def)

lemma alone_links [simp]:
  "alone (s\<lparr>b_next := nx\<rparr>) = alone s" "alone (s\<lparr>b_prev := nx\<rparr>) = alone s"
  "my_pid (s\<lparr>b_next := nx\<rparr>) = my_pid s" "my_pid (s\<lparr>b_prev := nx\<rparr>) = my_pid s"
  by (simp_all add: alone_def my_pid_def)

lemma ring_bufs [simp]: "ring (s\<lparr>bufs := bs\<rparr>) = ring s"
  by (simp add: ring_def fun_eq_iff)

lemma io_onlyI: "t = s\<lparr>disk := d, disk_trace := tr, bufs := bs, b_next := nx, b_prev := pv\<rparr> \<Longrightarrow> io_only s t"
  unfolding io_only_def by blast

lemma io_onlyE:
  assumes "io_only s t"
  obtains d tr bs nx pv where "t = s\<lparr>disk := d, disk_trace := tr, bufs := bs, b_next := nx, b_prev := pv\<rparr>"
  using assms unfolding io_only_def by blast

lemma io_only_refl [simp]: "io_only s s"
  by (rule io_onlyI [where d = "disk s" and tr = "disk_trace s" and bs = "bufs s" and nx = "b_next s" and pv = "b_prev s"])
    simp

lemma io_only_trans [trans]: "io_only s t \<Longrightarrow> io_only t u \<Longrightarrow> io_only s u"
proof (elim io_onlyE)
  fix d tr bs nx pv d' tr' bs' nx' pv'
  assume "t = s\<lparr>disk := d, disk_trace := tr, bufs := bs, b_next := nx, b_prev := pv\<rparr>"
    "u = t\<lparr>disk := d', disk_trace := tr', bufs := bs', b_next := nx', b_prev := pv'\<rparr>"
  then show "io_only s u"
    by (intro io_onlyI [where d = d' and tr = tr' and bs = bs' and nx = nx' and pv = pv']) simp
qed

lemma io_only_fields:
  assumes "io_only s t"
  shows "klog t = klog s" "disksize t = disksize s" "procs t = procs s" "inodes t = inodes s" "ksb t = ksb s"
    "quiet t = quiet s" "cur_proc t = cur_proc s" "ftable t = ftable s" "mem t = mem s"
  using assms by (auto elim!: io_onlyE)

interpretation io: frame io_only
  by unfold_locales (simp, rule io_only_trans)

lemma find_unique:
  assumes "x \<in> set xs" "P x" "\<And>y. y \<in> set xs \<Longrightarrow> P y \<Longrightarrow> y = x"
  shows "List.find P xs = Some x"
proof (cases "List.find P xs")
  case None
  with assms(1,2) show ?thesis by (auto simp: find_None_iff)
next
  case (Some y)
  then have "y \<in> set xs" "P y" by (auto simp: find_Some_iff)
  with Some assms(3) show ?thesis by blast
qed

lemma blk_held:
  assumes "one_each s" "i < NBUF" "holds_block s b i" "b_valid (bufs s ! i)"
  shows "blk s b = b_data (bufs s ! i)"
proof -
  have "List.find (\<lambda>i. holds_block s b i \<and> b_valid (bufs s ! i)) [0..<NBUF] = Some i"
    using assms by (intro find_unique) (auto simp: one_each_def holds_block_def)
  then show ?thesis by (simp add: blk_def)
qed

lemma blk_disk:
  assumes "\<And>i. i < NBUF \<Longrightarrow> holds_block s b i \<Longrightarrow> b_valid (bufs s ! i) \<Longrightarrow> b_data (bufs s ! i) = disk s b"
  shows "blk s b = disk s b"
  using assms by (auto simp: blk_def find_Some_iff split: option.splits)

section \<open>Getting a buffer\<close>

text \<open>The state after the current process took buffer \<open>i\<close>, and after it recycled it for block \<open>b\<close>.\<close>

definition hold :: "nat \<Rightarrow> kstate \<Rightarrow> kstate" where
  "hold i s = upd_buf i (\<lambda>k. k\<lparr>b_refcnt := 1, b_lock := (b_lock k)\<lparr>sl_locked := True, sl_pid := my_pid s\<rparr>\<rparr>) s"

definition recycle :: "nat \<Rightarrow> u32 \<Rightarrow> kstate \<Rightarrow> kstate" where
  "recycle i b s = upd_buf i (\<lambda>k. k\<lparr>b_dev := 1, b_blockno := b, b_valid := False, b_dirty := False, b_refcnt := 1\<rparr>) s"

lemma upd_buf_cong: "f (bufs s ! i) = g (bufs s ! i) \<Longrightarrow> upd_buf i f s = upd_buf i g s"
  by (simp add: upd_buf_def)

lemma upd_buf_upd_buf: "i < length (bufs s) \<Longrightarrow> upd_buf i f (upd_buf i g s) = upd_buf i (\<lambda>k. f (g k)) s"
  by (simp add: upd_buf_def)

lemma upd_buf_fields [simp]:
  "length (bufs (upd_buf i f s)) = length (bufs s)" "disk (upd_buf i f s) = disk s"
  "disksize (upd_buf i f s) = disksize s" "quiet (upd_buf i f s) = quiet s" "cur_proc (upd_buf i f s) = cur_proc s"
  "my_pid (upd_buf i f s) = my_pid s" "alone (upd_buf i f s) = alone s" "klog (upd_buf i f s) = klog s"
  "b_next (upd_buf i f s) = b_next s" "b_prev (upd_buf i f s) = b_prev s"
  "procs (upd_buf i f s) = procs s" "inodes (upd_buf i f s) = inodes s" "ksb (upd_buf i f s) = ksb s"
  "disk_trace (upd_buf i f s) = disk_trace s"
  by (simp_all add: upd_buf_def)

lemma upd_buf_nth: "i < length (bufs s) \<Longrightarrow> bufs (upd_buf i f s) ! i = f (bufs s ! i)"
  "j \<noteq> i \<Longrightarrow> bufs (upd_buf i f s) ! j = bufs s ! j"
  by (simp_all add: upd_buf_def)

lemma bget_hit:
  assumes "bc s H" "i < NBUF" "holds_block s b i" "i \<notin> H"
  shows "bget 1 b s = Ok i (hold i s)"
proof -
  from assms(1) obtain xs where xs: "ring s xs" "set xs = {..<NBUF}" by (auto simp: bc_def)
  have d: "distinct xs" using xs(1) by (simp add: ring_def)
  then have "length xs = NBUF" using xs(2) distinct_card [of xs] by simp
  note w = ring_walks(1) [OF xs(1)] this
  note bc = bcD [OF assms(1)]
  have "List.find (\<lambda>b'. b_dev (bufs s ! b') = 1 \<and> b_blockno (bufs s ! b') = b) xs = Some i"
    using assms(2,3) bc(5) xs(2) by (intro find_unique) (auto simp: holds_block_def one_each_def)
  moreover have "b_refcnt (bufs s ! i) = 0" "\<not> sl_locked (b_lock (bufs s ! i))"
    using bc(4) [OF assms(2)] assms(4) by (auto simp: buf_ok_def Let_def)
  moreover from bc(1) obtain p where "quiet s" "cur_proc s = Some p" by (auto simp: alone_def)
  ultimately show ?thesis
    using w bc(2) assms(2)
    by (simp add: bget_def hold_def lock_simps upd_buf_def)
qed

lemma bget_miss:
  assumes "bc s H" "\<And>i. i < NBUF \<Longrightarrow> \<not> holds_block s b i" "card H + card (dirty s) < NBUF"
  obtains i where "i < NBUF" "i \<notin> H" "\<not> b_dirty (bufs s ! i)" "bget 1 b s = Ok i (hold i (recycle i b s))"
proof -
  from assms(1) obtain xs where xs: "ring s xs" "set xs = {..<NBUF}" by (auto simp: bc_def)
  then have len: "length xs \<le> NBUF" using distinct_card [of xs] by (simp add: ring_def)
  note bc = bcD [OF assms(1)]
  have "finite (dirty s)" by (simp add: dirty_def)
  then have "card (H \<union> dirty s) < card {..<NBUF}"
    using card_Un_le [of H "dirty s"] assms(3) by simp
  then obtain j where "j < NBUF" "j \<notin> H" "j \<notin> dirty s"
    using card_mono [of "H \<union> dirty s" "{..<NBUF}"] bc(7) \<open>finite (dirty s)\<close> by fastforce
  then have "\<not> (\<forall>x \<in> set (rev xs). \<not> (b_refcnt (bufs s ! x) = 0 \<and> \<not> b_dirty (bufs s ! x)))"
    using xs(2) bc(4) [of j] by (auto simp: dirty_def buf_ok_def Let_def)
  then obtain i where i: "List.find (\<lambda>i. b_refcnt (bufs s ! i) = 0 \<and> \<not> b_dirty (bufs s ! i)) (rev xs) = Some i"
    by (cases "List.find (\<lambda>i. b_refcnt (bufs s ! i) = 0 \<and> \<not> b_dirty (bufs s ! i)) (rev xs)")
      (auto simp: find_None_iff)
  then have i': "i \<in> set (rev xs)" "b_refcnt (bufs s ! i) = 0" "\<not> b_dirty (bufs s ! i)"
    by (auto simp: find_Some_iff simp del: set_rev)
  then have iN: "i < NBUF" using xs(2) by simp
  have "i \<notin> H" "\<not> sl_locked (b_lock (bufs s ! i))"
    using bc(4) [OF iN] i'(2) by (auto simp: buf_ok_def Let_def split: if_splits)
  moreover have "List.find (\<lambda>i. b_dev (bufs s ! i) = 1 \<and> b_blockno (bufs s ! i) = b) xs = None"
    using assms(2) xs(2) by (auto simp: find_None_iff holds_block_def)
  moreover from bc(1) obtain p where "quiet s" "cur_proc s = Some p" by (auto simp: alone_def)
  ultimately have "bget 1 b s = Ok i (hold i (recycle i b s))"
    using i bc(2) iN ring_walks [OF xs(1) len]
    by (simp add: bget_def hold_def recycle_def lock_simps upd_buf_def)
  with that iN i'(3) \<open>i \<notin> H\<close> show ?thesis by blast
qed

text \<open>Buffer \<open>i\<close> taken and filled with the contents of block \<open>b\<close>.\<close>

definition loaded :: "nat \<Rightarrow> u32 \<Rightarrow> kstate \<Rightarrow> kstate" where
  "loaded i b s = upd_buf i (\<lambda>k. k\<lparr>b_valid := True, b_dev := 1, b_blockno := b,
     b_lock := (b_lock k)\<lparr>sl_locked := True, sl_pid := my_pid s\<rparr>, b_refcnt := 1, b_data := blk s b\<rparr>) s"

lemma iderw_reads:
  assumes "quiet s" "cur_proc s = Some p" "i < length (bufs s)"
    and "sl_locked (b_lock (bufs s ! i))" "sl_pid (b_lock (bufs s ! i)) = my_pid s"
    and "\<not> b_valid (bufs s ! i)" "\<not> b_dirty (bufs s ! i)" "b_dev (bufs s ! i) = 1" "b_blockno (bufs s ! i) < disksize s"
  shows "iderw i s = Ok () (upd_buf i (\<lambda>k. k\<lparr>b_data := disk s (b_blockno k), b_valid := True\<rparr>) s)"
proof -
  have "holdingsleep (SlBuf i) s = Ok True s"
    using assms(4,5) holdingsleep_ok [OF assms(1,2), of "SlBuf i"] by simp
  then show ?thesis
    using assms(3,6-9) by (simp add: iderw_def upd_buf_def linorder_not_le Let_def)
qed

definition free_for :: "kstate \<Rightarrow> nat set \<Rightarrow> u32 \<Rightarrow> nat \<Rightarrow> bool" where
  "free_for s H b i \<longleftrightarrow> i < NBUF \<and> i \<notin> H
     \<and> (holds_block s b i \<or> (\<forall>j < NBUF. \<not> holds_block s b j) \<and> \<not> b_dirty (bufs s ! i))"

lemma bread_eq:
  assumes "bc s H" "b < disksize s" "\<And>i. i \<in> H \<Longrightarrow> \<not> holds_block s b i"
    and "(\<exists>i < NBUF. holds_block s b i) \<or> card H + card (dirty s) < NBUF"
  obtains i where "free_for s H b i" "bread 1 b s = Ok i (loaded i b s)"
proof -
  note bc = bcD [OF assms(1)]
  from bc(1) obtain p where q: "quiet s" "cur_proc s = Some p" by (auto simp: alone_def)
  show ?thesis
  proof (cases "\<exists>i < NBUF. holds_block s b i")
    case True
    then obtain i where i: "i < NBUF" "holds_block s b i" by blast
    then have iH: "i \<notin> H" using assms(3) by blast
    note ok = bc(4) [OF i(1)]
    note hit = bget_hit [OF assms(1) i iH]
    have "bread 1 b s = Ok i (loaded i b s)"
    proof (cases "b_valid (bufs s ! i)")
      case True
      have "blk s b = b_data (bufs s ! i)" using bc(5) i True by (rule blk_held)
      with True i(2) have "hold i s = loaded i b s"
        unfolding hold_def loaded_def
        by (intro upd_buf_cong buf.equality) (simp_all add: holds_block_def)
      moreover have "b_valid (bufs (hold i s) ! i)" using True i bc(2) by (simp add: hold_def upd_buf_nth)
      ultimately show ?thesis using hit by (simp add: bread_def)
    next
      case False
      have "blk s b = disk s b"
        using False i bc(5) by (intro blk_disk) (auto simp: one_each_def holds_block_def)
      moreover have "\<not> b_dirty (bufs s ! i)" using ok False by (auto simp: buf_ok_def Let_def)
      moreover from this have "iderw i (hold i s)
          = Ok () (upd_buf i (\<lambda>k. k\<lparr>b_data := disk s (b_blockno k), b_valid := True\<rparr>) (hold i s))"
        using False i bc(2) q assms(2) iderw_reads [of "hold i s" p i]
        by (simp add: hold_def upd_buf_nth holds_block_def)
      moreover have "upd_buf i (\<lambda>k. k\<lparr>b_data := disk s (b_blockno k), b_valid := True\<rparr>) (hold i s) = loaded i b s"
        unfolding hold_def loaded_def using i bc(2) \<open>blk s b = disk s b\<close>
        by (subst upd_buf_upd_buf) (simp, intro upd_buf_cong buf.equality, simp_all add: holds_block_def)
      ultimately show ?thesis
        using False hit i bc(2) by (simp add: bread_def hold_def upd_buf_nth)
    qed
    with that i iH show ?thesis by (auto simp: free_for_def)
  next
    case False
    then obtain i where i: "i < NBUF" "i \<notin> H" "\<not> b_dirty (bufs s ! i)"
      and get: "bget 1 b s = Ok i (hold i (recycle i b s))"
      using bget_miss [OF assms(1)] assms(4) by blast
    have "blk s b = disk s b" using False by (intro blk_disk) auto
    let ?s = "hold i (recycle i b s)"
    have "iderw i ?s = Ok () (upd_buf i (\<lambda>k. k\<lparr>b_data := disk s (b_blockno k), b_valid := True\<rparr>) ?s)"
      using i bc(2) q assms(2) iderw_reads [of ?s p i] by (simp add: hold_def recycle_def upd_buf_nth)
    moreover have "upd_buf i (\<lambda>k. k\<lparr>b_data := disk s (b_blockno k), b_valid := True\<rparr>) ?s = loaded i b s"
      unfolding hold_def recycle_def loaded_def using i bc(2) \<open>blk s b = disk s b\<close>
      by (simp add: upd_buf_upd_buf, intro upd_buf_cong buf.equality, simp_all)
    ultimately have "bread 1 b s = Ok i (loaded i b s)"
      using get i bc(2) by (simp add: bread_def hold_def recycle_def upd_buf_nth)
    with that i False show ?thesis by (auto simp: free_for_def)
  qed
qed

lemma loaded_nth:
  assumes "bc s H" "i < NBUF"
  shows "bufs (loaded i b s) ! i = (bufs s ! i)\<lparr>b_valid := True, b_dev := 1, b_blockno := b,
     b_lock := (b_lock (bufs s ! i))\<lparr>sl_locked := True, sl_pid := my_pid s\<rparr>, b_refcnt := 1, b_data := blk s b\<rparr>"
    and "j \<noteq> i \<Longrightarrow> bufs (loaded i b s) ! j = bufs s ! j"
  using assms bcD(2) [OF assms(1)] by (simp_all add: loaded_def upd_buf_nth)

lemma length_blk: "bc s H \<Longrightarrow> length (blk s b) = BSIZE"
  using bcD(4,6) by (auto simp: blk_def buf_ok_def Let_def find_Some_iff split: option.splits)

lemma loaded_one_each:
  assumes "bc s H" "free_for s H b i"
  shows "one_each (loaded i b s)"
proof -
  have i: "i < NBUF" using assms(2) by (simp add: free_for_def)
  note nth = loaded_nth [OF assms(1) i]
  have own: "j = i" if "j < NBUF" "holds_block s b j" for j
    using assms bcD(5) [OF assms(1)] that by (auto simp: free_for_def one_each_def holds_block_def)
  have other: "j = i" if "j < NBUF" "b_dev (bufs (loaded i b s) ! j) = 1"
    "b_blockno (bufs (loaded i b s) ! j) = b" for j
  proof (rule ccontr)
    assume "j \<noteq> i"
    with that nth(2) have "holds_block s b j" by (simp add: holds_block_def)
    with own that(1) \<open>j \<noteq> i\<close> show False by blast
  qed
  have ib: "b_blockno (bufs (loaded i b s) ! i) = b" by (simp add: nth(1))
  show ?thesis
    unfolding one_each_def
  proof (intro allI impI)
    fix j k
    assume *: "j < NBUF" "k < NBUF" "b_dev (bufs (loaded i b s) ! j) = 1" "b_dev (bufs (loaded i b s) ! k) = 1"
      "b_blockno (bufs (loaded i b s) ! j) = b_blockno (bufs (loaded i b s) ! k)"
    show "j = k"
    proof (cases "j = i \<or> k = i")
      case True
      then show ?thesis using * other [of j] other [of k] ib by auto
    next
      case False
      then show ?thesis using * bcD(5) [OF assms(1)] nth(2) by (simp add: one_each_def)
    qed
  qed
qed

lemma loaded_blk:
  assumes "bc s H" "free_for s H b i"
  shows "blk (loaded i b s) = blk s"
proof
  fix c
  have i: "i < NBUF" using assms(2) by (simp add: free_for_def)
  note nth = loaded_nth [OF assms(1) i] and bc = bcD [OF assms(1)]
  show "blk (loaded i b s) c = blk s c"
  proof (cases "c = b")
    case True
    have "blk (loaded i b s) b = b_data (bufs (loaded i b s) ! i)"
      using i nth(1) by (intro blk_held loaded_one_each [OF assms]) (simp_all add: holds_block_def)
    then show ?thesis using True nth(1) by simp
  next
    case False
    have nb: "\<not> holds_block (loaded i b s) c i" using nth(1) False by (auto simp: holds_block_def)
    show ?thesis
    proof (cases "\<exists>j < NBUF. j \<noteq> i \<and> holds_block s c j \<and> b_valid (bufs s ! j)")
      case True
      then obtain j where j: "j < NBUF" "j \<noteq> i" "holds_block s c j" "b_valid (bufs s ! j)" by blast
      then have "holds_block (loaded i b s) c j" using nth(2) by (simp add: holds_block_def)
      then have "blk (loaded i b s) c = b_data (bufs s ! j)"
        using j nth(2) loaded_one_each [OF assms] by (subst blk_held) auto
      then show ?thesis using j bc(5) by (simp add: blk_held)
    next
      case none: False
      have "blk (loaded i b s) c = disk (loaded i b s) c"
      proof (rule blk_disk)
        fix j
        assume j: "j < NBUF" "holds_block (loaded i b s) c j" "b_valid (bufs (loaded i b s) ! j)"
        then have "j \<noteq> i" using nb by blast
        with j none nth(2) show "b_data (bufs (loaded i b s) ! j) = disk (loaded i b s) c"
          by (auto simp: holds_block_def)
      qed
      moreover have "disk (loaded i b s) c = disk s c" by (simp add: loaded_def)
      moreover have "blk s c = disk s c"
      proof (rule blk_disk)
        fix j
        assume j: "j < NBUF" "holds_block s c j" "b_valid (bufs s ! j)"
        then have "j = i" using none by blast
        with j False assms(2) bc(4) [of i] show "b_data (bufs s ! j) = disk s c"
          by (auto simp: free_for_def holds_block_def buf_ok_def Let_def)
      qed
      ultimately show ?thesis by simp
    qed
  qed
qed

lemma loaded_bc:
  assumes "bc s H" "free_for s H b i" "b < disksize s"
  shows "bc (loaded i b s) (insert i H)"
proof -
  have i: "i < NBUF" using assms(2) by (simp add: free_for_def)
  note nth = loaded_nth [OF assms(1) i] and bc = bcD [OF assms(1)]
  have "buf_ok (loaded i b s) (insert i H) j" if "j < NBUF" for j
  proof (cases "j = i")
    case True
    then show ?thesis
      using assms(3) length_blk [OF assms(1)] nth(1) by (simp add: buf_ok_def Let_def) (simp add: loaded_def)
  next
    case False
    then show ?thesis
      using bc(4) [OF that] nth(2) by (simp add: buf_ok_def Let_def) (simp add: loaded_def)
  qed
  moreover have "ring (loaded i b s) = ring s" by (simp add: loaded_def upd_buf_def)
  ultimately show ?thesis
    using assms(1) i loaded_one_each [OF assms(1,2)] unfolding bc_def
    by (simp add: loaded_def)
qed

lemma loaded_dirty: "bc s H \<Longrightarrow> free_for s H b i \<Longrightarrow> dirty (loaded i b s) = dirty s"
proof -
  assume bc: "bc s H" and f: "free_for s H b i"
  then have i: "i < NBUF" by (simp add: free_for_def)
  have "b_dirty (bufs (loaded i b s) ! j) = b_dirty (bufs s ! j)" for j
    using loaded_nth [OF bc i] by (cases "j = i") simp_all
  then show ?thesis by (simp add: dirty_def)
qed

text \<open>A buffer that awaits a commit, or agrees with the disk.\<close>

definition agrees :: "kstate \<Rightarrow> nat \<Rightarrow> bool" where
  "agrees s i \<longleftrightarrow> b_dirty (bufs s ! i) \<or> b_data (bufs s ! i) = disk s (b_blockno (bufs s ! i))"

lemma loaded_agrees:
  assumes "bc s H" "free_for s H b i"
  shows "agrees (loaded i b s) i"
proof -
  have i: "i < NBUF" "i \<notin> H" using assms(2) by (auto simp: free_for_def)
  note nth = loaded_nth [OF assms(1) i(1)] and bc = bcD [OF assms(1)]
  have "b_dirty (bufs s ! i) \<or> blk s b = disk s b"
  proof (cases "holds_block s b i \<and> b_valid (bufs s ! i)")
    case True
    then show ?thesis
      using blk_held [OF bc(5) i(1)] bc(4) [OF i(1)] i(2) by (auto simp: buf_ok_def Let_def holds_block_def)
  next
    case False
    then have "\<not> (holds_block s b j \<and> b_valid (bufs s ! j))" if "j < NBUF" for j
      using assms(2) that bc(5) i(1) by (auto simp: free_for_def one_each_def holds_block_def)
    then show ?thesis using blk_disk [of s b] by blast
  qed
  then show ?thesis by (simp add: agrees_def nth(1)) (simp add: loaded_def)
qed

lemma bread_ok:
  assumes "bc s H" "b < disksize s" "\<And>i. i \<in> H \<Longrightarrow> \<not> holds_block s b i"
    and "(\<exists>i < NBUF. holds_block s b i) \<or> card H + card (dirty s) < NBUF"
  obtains i where "bread 1 b s = Ok i (loaded i b s)" "i \<notin> H" "i < NBUF" "bc (loaded i b s) (insert i H)"
    "blk (loaded i b s) = blk s" "dirty (loaded i b s) = dirty s" "agrees (loaded i b s) i"
    "b_blockno (bufs (loaded i b s) ! i) = b" "b_data (bufs (loaded i b s) ! i) = blk s b"
    "\<And>j. j \<noteq> i \<Longrightarrow> bufs (loaded i b s) ! j = bufs s ! j"
proof -
  from bread_eq [OF assms] obtain i where i: "free_for s H b i" "bread 1 b s = Ok i (loaded i b s)" by blast
  then have "i < NBUF" "i \<notin> H" by (auto simp: free_for_def)
  with i assms(1,2) that [of i] loaded_bc loaded_blk loaded_dirty loaded_agrees loaded_nth
  show ?thesis by simp
qed

section \<open>Giving a buffer back\<close>

definition released :: "nat \<Rightarrow> kstate \<Rightarrow> kstate" where
  "released i s = link_first i (unlink i (upd_buf i
     (\<lambda>k. k\<lparr>b_lock := (b_lock k)\<lparr>sl_locked := False, sl_pid := 0\<rparr>, b_refcnt := 0\<rparr>) s))"

lemma link_fields [simp]:
  "bufs (unlink i s) = bufs s" "bufs (link_first i s) = bufs s"
  "disk (unlink i s) = disk s" "disk (link_first i s) = disk s"
  "alone (unlink i s) = alone s" "alone (link_first i s) = alone s"
  "my_pid (unlink i s) = my_pid s" "my_pid (link_first i s) = my_pid s"
  "disksize (unlink i s) = disksize s" "disksize (link_first i s) = disksize s"
  by (simp_all add: unlink_def link_first_def Let_def)

lemma link_taken [simp]:
  "unlink i (taken lk s) = taken lk (unlink i s)" "link_first i (taken lk s) = taken lk (link_first i s)"
  "cpu_ok (unlink i s) = cpu_ok s" "cpu_ok (link_first i s) = cpu_ok s"
  "lock_free lk (unlink i s) = lock_free lk s" "lock_free lk (link_first i s) = lock_free lk s"
  by (simp_all add: unlink_def link_first_def Let_def)

lemma upd_buf_taken [simp]: "upd_buf i f (taken lk s) = taken lk (upd_buf i f s)"
  by (simp add: upd_buf_def)

lemma heldD:
  assumes "bc s H" "i \<in> H"
  shows "i < NBUF" "b_refcnt (bufs s ! i) = 1" "sl_locked (b_lock (bufs s ! i))"
    "sl_pid (b_lock (bufs s ! i)) = my_pid s" "b_valid (bufs s ! i)" "b_dev (bufs s ! i) = 1"
    "b_blockno (bufs s ! i) < disksize s" "length (b_data (bufs s ! i)) = BSIZE"
proof -
  show i: "i < NBUF" using bcD(3) [OF assms(1)] assms(2) by auto
  from bcD(4) [OF assms(1) i] assms(2)
  show "b_refcnt (bufs s ! i) = 1" "sl_locked (b_lock (bufs s ! i))" "length (b_data (bufs s ! i)) = BSIZE"
    "sl_pid (b_lock (bufs s ! i)) = my_pid s" "b_valid (bufs s ! i)" "b_dev (bufs s ! i) = 1"
    "b_blockno (bufs s ! i) < disksize s"
    by (auto simp: buf_ok_def Let_def)
qed

lemma holdingsleep_held:
  assumes "bc s H" "i \<in> H"
  shows "holdingsleep (SlBuf i) s = Ok True s"
proof -
  from bcD(1) [OF assms(1)] obtain p where "quiet s" "cur_proc s = Some p" by (auto simp: alone_def)
  from holdingsleep_ok [OF this, of "SlBuf i"] heldD [OF assms] show ?thesis by simp
qed

lemma brelse_eq:
  assumes "bc s H" "i \<in> H"
  shows "brelse i s = Ok () (released i s)"
proof -
  note h = heldD [OF assms] and bc = bcD [OF assms(1)]
  from bc(1) have q: "quiet s" by (simp add: alone_def)
  let ?f = "\<lambda>k. k\<lparr>b_lock := (b_lock k)\<lparr>sl_locked := False, sl_pid := 0\<rparr>\<rparr>"
  have "releasesleep (SlBuf i) s = Ok () (wakeup1 (ChBufLock i) (upd_buf i ?f s))"
    using releasesleep_ok [OF q, of "SlBuf i"] h(1) bc(2) by (simp add: upd_buf_def)
  also have "wakeup1 (ChBufLock i) (upd_buf i ?f s) = upd_buf i ?f s"
    using bc(1) by (intro alone_wakeup1) (simp_all add: fs_chan_def)
  finally have r: "releasesleep (SlBuf i) s = Ok () (upd_buf i ?f s)" .
  have u: "upd_buf i (\<lambda>k. k\<lparr>b_refcnt := b_refcnt k - 1\<rparr>) (upd_buf i ?f s)
      = upd_buf i (\<lambda>k. k\<lparr>b_lock := (b_lock k)\<lparr>sl_locked := False, sl_pid := 0\<rparr>, b_refcnt := 0\<rparr>) s"
    using h(1,2) bc(2) by (simp add: upd_buf_upd_buf) (intro upd_buf_cong, simp)
  show ?thesis
    using h(1,2) bc(2) q
    by (simp add: brelse_def holdingsleep_held [OF assms] r u lock_simps upd_buf_nth released_def)
qed

lemma blk_cong:
  assumes "disk t = disk s" "\<And>i. i < NBUF \<Longrightarrow> b_dev (bufs t ! i) = b_dev (bufs s ! i)
    \<and> b_blockno (bufs t ! i) = b_blockno (bufs s ! i) \<and> b_valid (bufs t ! i) = b_valid (bufs s ! i)
    \<and> b_data (bufs t ! i) = b_data (bufs s ! i)"
  shows "blk t = blk s"
proof
  fix b
  have f: "List.find (\<lambda>i. holds_block t b i \<and> b_valid (bufs t ! i)) [0..<NBUF]
      = List.find (\<lambda>i. holds_block s b i \<and> b_valid (bufs s ! i)) [0..<NBUF]"
    using assms(2) by (intro find_cong) (auto simp: holds_block_def)
  show "blk t b = blk s b"
  proof (cases "List.find (\<lambda>i. holds_block s b i \<and> b_valid (bufs s ! i)) [0..<NBUF]")
    case None
    with f assms(1) show ?thesis by (simp add: blk_def)
  next
    case (Some i)
    then have "i < NBUF" by (auto simp: find_Some_iff)
    with Some f assms(2) show ?thesis by (simp add: blk_def)
  qed
qed

lemma released_nth:
  assumes "bc s H" "i \<in> H"
  shows "bufs (released i s) ! i
      = (bufs s ! i)\<lparr>b_lock := (b_lock (bufs s ! i))\<lparr>sl_locked := False, sl_pid := 0\<rparr>, b_refcnt := 0\<rparr>"
    "j \<noteq> i \<Longrightarrow> bufs (released i s) ! j = bufs s ! j"
  using bcD(2) [OF assms(1)] heldD(1) [OF assms] by (simp_all add: released_def upd_buf_nth)

lemma released_blk:
  assumes "bc s H" "i \<in> H"
  shows "blk (released i s) = blk s" "dirty (released i s) = dirty s"
proof -
  note n = released_nth [OF assms]
  have e: "b_dev (bufs (released i s) ! j) = b_dev (bufs s ! j)
    \<and> b_blockno (bufs (released i s) ! j) = b_blockno (bufs s ! j) \<and> b_valid (bufs (released i s) ! j) = b_valid (bufs s ! j)
    \<and> b_data (bufs (released i s) ! j) = b_data (bufs s ! j) \<and> b_dirty (bufs (released i s) ! j) = b_dirty (bufs s ! j)" for j
    using n by (cases "j = i") simp_all
  then show "blk (released i s) = blk s" by (intro blk_cong) (simp_all add: released_def)
  show "dirty (released i s) = dirty s" using e by (simp add: dirty_def)
qed

lemma released_bc:
  assumes "bc s H" "i \<in> H"
    and "agrees s i"
  shows "bc (released i s) (H - {i})"
proof -
  note n = released_nth [OF assms(1,2)] and h = heldD [OF assms(1,2)] and bc = bcD [OF assms(1)]
  from assms(1) obtain xs where xs: "ring s xs" "set xs = {..<NBUF}" by (auto simp: bc_def)
  then obtain ys zs where yz: "xs = ys @ i # zs" using h(1) split_list [of i xs] by auto
  let ?u = "upd_buf i (\<lambda>k. k\<lparr>b_lock := (b_lock k)\<lparr>sl_locked := False, sl_pid := 0\<rparr>, b_refcnt := 0\<rparr>) s"
  have "ring ?u (ys @ i # zs)" using xs(1) yz by (simp add: ring_def)
  then have "ring (unlink i ?u) (ys @ zs)" by (rule ring_unlink)
  then have "ring (released i s) (i # ys @ zs)"
    unfolding released_def using xs(1) yz h(1) by (intro ring_link_first) (auto simp: ring_def)
  moreover have "set (i # ys @ zs) = {..<NBUF}" using xs(2) yz by auto
  moreover have "buf_ok (released i s) (H - {i}) j" if "j < NBUF" for j
  proof (cases "j = i")
    case True
    then show ?thesis
      using assms(3) h(5,6,8) n(1) by (simp add: buf_ok_def Let_def) (auto simp: released_def agrees_def)
  next
    case False
    then show ?thesis
      using bc(4) [OF that] n(2) by (simp add: buf_ok_def Let_def) (simp add: released_def)
  qed
  moreover have "one_each (released i s)"
  proof -
    have "b_dev (bufs (released i s) ! j) = b_dev (bufs s ! j)
      \<and> b_blockno (bufs (released i s) ! j) = b_blockno (bufs s ! j)" for j
      using n by (cases "j = i") simp_all
    with bc(5) show ?thesis by (simp add: one_each_def)
  qed
  ultimately show ?thesis
    using bc(1-3,6) unfolding bc_def by (auto simp: released_def)
qed

section \<open>Changing and writing a buffer\<close>

definition set_bdata :: "nat \<Rightarrow> u8 list \<Rightarrow> kstate \<Rightarrow> kstate" where
  "set_bdata i d s = upd_buf i (\<lambda>k. k\<lparr>b_data := d\<rparr>) s"

lemma held_bc_upd:
  assumes "bc s H" "i \<in> H" "length d = BSIZE"
  shows "bc (upd_buf i (\<lambda>k. k\<lparr>b_data := d, b_dirty := v\<rparr>) s) H"
proof -
  note h = heldD [OF assms(1,2)] and bc = bcD [OF assms(1)]
  let ?t = "upd_buf i (\<lambda>k. k\<lparr>b_data := d, b_dirty := v\<rparr>) s"
  have n: "bufs ?t ! i = (bufs s ! i)\<lparr>b_data := d, b_dirty := v\<rparr>" "j \<noteq> i \<Longrightarrow> bufs ?t ! j = bufs s ! j" for j
    using h(1) bc(2) by (simp_all add: upd_buf_nth)
  have "buf_ok ?t H j" if "j < NBUF" for j
    using h assms(2,3) bc(4) [OF that] n by (cases "j = i") (simp_all add: buf_ok_def Let_def)
  moreover have "one_each ?t"
  proof -
    have "b_dev (bufs ?t ! j) = b_dev (bufs s ! j) \<and> b_blockno (bufs ?t ! j) = b_blockno (bufs s ! j)" for j
      using n by (cases "j = i") simp_all
    with bc(5) show ?thesis by (simp add: one_each_def)
  qed
  moreover have "ring ?t = ring s" by (simp add: upd_buf_def)
  ultimately show ?thesis using assms(1) unfolding bc_def by simp
qed

lemma held_blk_upd:
  assumes "bc s H" "i \<in> H" "length d = BSIZE"
  shows "blk (upd_buf i (\<lambda>k. k\<lparr>b_data := d, b_dirty := v\<rparr>) s) = (blk s)(b_blockno (bufs s ! i) := d)"
proof
  fix c
  note h = heldD [OF assms(1,2)] and bc = bcD [OF assms(1)] and bc' = bcD [OF held_bc_upd [OF assms, of v]]
  let ?t = "upd_buf i (\<lambda>k. k\<lparr>b_data := d, b_dirty := v\<rparr>) s"
  have n: "bufs ?t ! i = (bufs s ! i)\<lparr>b_data := d, b_dirty := v\<rparr>" "j \<noteq> i \<Longrightarrow> bufs ?t ! j = bufs s ! j" for j
    using h(1) bc(2) by (simp_all add: upd_buf_nth)
  show "blk ?t c = ((blk s)(b_blockno (bufs s ! i) := d)) c"
  proof (cases "c = b_blockno (bufs s ! i)")
    case True
    then have "blk ?t c = b_data (bufs ?t ! i)"
      using h n(1) by (intro blk_held [OF bc'(5)]) (simp_all add: holds_block_def)
    with True n(1) show ?thesis by simp
  next
    case False
    have e: "(holds_block ?t c j \<and> b_valid (bufs ?t ! j)) = (holds_block s c j \<and> b_valid (bufs s ! j))" for j
      using n by (cases "j = i") (simp_all add: holds_block_def)
    have "j \<noteq> i" if "List.find (\<lambda>i. holds_block s c i \<and> b_valid (bufs s ! i)) [0..<NBUF] = Some j" for j
      using that False by (auto simp: find_Some_iff holds_block_def)
    with n(2) have "blk ?t c = blk s c" unfolding blk_def e by (auto split: option.splits)
    with False show ?thesis by simp
  qed
qed

lemma set_bdata_eq: "set_bdata i d s = upd_buf i (\<lambda>k. k\<lparr>b_data := d, b_dirty := b_dirty (bufs s ! i)\<rparr>) s"
  unfolding set_bdata_def by (rule upd_buf_cong) simp

lemma set_bdata_ok:
  assumes "bc s H" "i \<in> H" "length d = BSIZE"
  shows "bc (set_bdata i d s) H" "blk (set_bdata i d s) = (blk s)(b_blockno (bufs s ! i) := d)"
  unfolding set_bdata_eq by (rule held_bc_upd held_blk_upd; fact assms)+

text \<open>The state after \<open>bwrite\<close>: buffer and disk agree, and the write is the last one of the trace.\<close>

definition written :: "nat \<Rightarrow> kstate \<Rightarrow> kstate" where
  "written i s = (let k = bufs s ! i in
     (upd_buf i (\<lambda>k. k\<lparr>b_dirty := False\<rparr>) s)\<lparr>disk := (disk s)(b_blockno k := b_data k),
       disk_trace := disk_trace s @ [(b_blockno k, b_data k)]\<rparr>)"

lemma bwrite_eq:
  assumes "bc s H" "i \<in> H"
  shows "bwrite i s = Ok () (written i s)"
proof -
  note h = heldD [OF assms] and bc = bcD [OF assms(1)]
  let ?s = "upd_buf i (\<lambda>k. k\<lparr>b_data := b_data (bufs s ! i), b_dirty := True\<rparr>) s"
  have s: "upd_buf i (\<lambda>k. k\<lparr>b_dirty := True\<rparr>) s = ?s" by (rule upd_buf_cong) simp
  have "bc ?s H" using assms h(8) by (rule held_bc_upd)
  then have "holdingsleep (SlBuf i) ?s = Ok True ?s" using assms(2) by (rule holdingsleep_held)
  then have "iderw i ?s = Ok () (upd_buf i (\<lambda>k. k\<lparr>b_valid := True\<rparr>)
      ((upd_buf i (\<lambda>k. k\<lparr>b_dirty := False\<rparr>) ?s)\<lparr>disk := (disk s)(b_blockno (bufs s ! i) := b_data (bufs s ! i)),
       disk_trace := disk_trace s @ [(b_blockno (bufs s ! i), b_data (bufs s ! i))]\<rparr>))"
    using h bc(2) by (simp add: iderw_def upd_buf_nth Let_def linorder_not_le)
  also have "\<dots> = Ok () (written i s)"
  proof -
    have "(bufs s ! i)\<lparr>b_dirty := False, b_valid := True\<rparr> = (bufs s ! i)\<lparr>b_dirty := False\<rparr>"
      by (rule buf.equality) (simp_all add: h(5))
    then show ?thesis
      using h(1) bc(2) unfolding written_def Let_def res.inject
      by (intro conjI refl kstate.equality) (simp_all add: upd_buf_def)
  qed
  finally show ?thesis by (simp add: bwrite_def holdingsleep_held [OF assms] s)
qed

lemma written_ok:
  assumes "bc s H" "i \<in> H"
  shows "bc (written i s) H" "blk (written i s) = blk s"
    "bufs (written i s) ! i = (bufs s ! i)\<lparr>b_dirty := False\<rparr>" "j \<noteq> i \<Longrightarrow> bufs (written i s) ! j = bufs s ! j"
proof -
  note h = heldD [OF assms] and bc = bcD [OF assms(1)]
  show n: "bufs (written i s) ! i = (bufs s ! i)\<lparr>b_dirty := False\<rparr>" "j \<noteq> i \<Longrightarrow> bufs (written i s) ! j = bufs s ! j" for j
    using h(1) bc(2) by (simp_all add: written_def Let_def upd_buf_nth)
  have d: "disk (written i s) = (disk s)(b_blockno (bufs s ! i) := b_data (bufs s ! i))"
    "disksize (written i s) = disksize s" "my_pid (written i s) = my_pid s" "alone (written i s) = alone s"
    "ring (written i s) = ring s"
    by (simp_all add: written_def Let_def my_pid_def alone_def ring_def fun_eq_iff)
  have other: "b_blockno (bufs s ! j) \<noteq> b_blockno (bufs s ! i)" if "j < NBUF" "j \<noteq> i" "b_dev (bufs s ! j) = 1" for j
    using bc(5) h(1,6) that by (auto simp: one_each_def)
  have "buf_ok (written i s) H j" if "j < NBUF" for j
    using h assms(2) bc(4) [OF that] n other [OF that] d
    by (cases "j = i") (simp_all add: buf_ok_def Let_def)
  moreover have "b_dev (bufs (written i s) ! j) = b_dev (bufs s ! j) \<and> b_blockno (bufs (written i s) ! j) = b_blockno (bufs s ! j)
    \<and> b_valid (bufs (written i s) ! j) = b_valid (bufs s ! j) \<and> b_data (bufs (written i s) ! j) = b_data (bufs s ! j)" for j
    using n by (cases "j = i") simp_all
  note e = this
  moreover have "one_each (written i s)" using bc(5) e by (simp add: one_each_def)
  moreover have "length (bufs (written i s)) = NBUF" using bc(2) by (simp add: written_def Let_def)
  ultimately show "bc (written i s) H"
    using assms(1) h(8) d unfolding bc_def by simp
  show "blk (written i s) = blk s"
  proof
    fix c
    have f: "(holds_block (written i s) c j \<and> b_valid (bufs (written i s) ! j)) = (holds_block s c j \<and> b_valid (bufs s ! j))" for j
      using e by (simp add: holds_block_def)
    have "c \<noteq> b_blockno (bufs s ! i)" if "List.find (\<lambda>i. holds_block s c i \<and> b_valid (bufs s ! i)) [0..<NBUF] = None"
      using that h by (auto simp: find_None_iff holds_block_def)
    then show "blk (written i s) c = blk s c"
      unfolding blk_def f using e d by (auto split: option.splits)
  qed
qed

lemma io_only_upds [simp]:
  "io_only s (s\<lparr>disk := d\<rparr>)" "io_only s (s\<lparr>disk_trace := tr\<rparr>)" "io_only s (s\<lparr>bufs := bs\<rparr>)"
  "io_only s (s\<lparr>b_next := nx\<rparr>)" "io_only s (s\<lparr>b_prev := pv\<rparr>)"
proof -
  show "io_only s (s\<lparr>disk := d\<rparr>)"
    by (rule io_onlyI [where d = d and tr = "disk_trace s" and bs = "bufs s" and nx = "b_next s" and pv = "b_prev s"]) simp
  show "io_only s (s\<lparr>disk_trace := tr\<rparr>)"
    by (rule io_onlyI [where d = "disk s" and tr = tr and bs = "bufs s" and nx = "b_next s" and pv = "b_prev s"]) simp
  show "io_only s (s\<lparr>bufs := bs\<rparr>)"
    by (rule io_onlyI [where d = "disk s" and tr = "disk_trace s" and bs = bs and nx = "b_next s" and pv = "b_prev s"]) simp
  show "io_only s (s\<lparr>b_next := nx\<rparr>)"
    by (rule io_onlyI [where d = "disk s" and tr = "disk_trace s" and bs = "bufs s" and nx = nx and pv = "b_prev s"]) simp
  show "io_only s (s\<lparr>b_prev := pv\<rparr>)"
    by (rule io_onlyI [where d = "disk s" and tr = "disk_trace s" and bs = "bufs s" and nx = "b_next s" and pv = pv]) simp
qed

lemma io_only_upd_after:
  "io_only s t \<Longrightarrow> io_only s (t\<lparr>disk := d\<rparr>)" "io_only s t \<Longrightarrow> io_only s (t\<lparr>disk_trace := tr\<rparr>)"
  "io_only s t \<Longrightarrow> io_only s (t\<lparr>bufs := bs\<rparr>)"
  "io_only s t \<Longrightarrow> io_only s (t\<lparr>b_next := nx\<rparr>)" "io_only s t \<Longrightarrow> io_only s (t\<lparr>b_prev := pv\<rparr>)"
  by (erule io_only_trans, rule io_only_upds)+

lemma io_only_ops [simp]:
  "io_only s (upd_buf i f s)" "io_only s (loaded i b s)" "io_only s (released i s)"
  "io_only s (set_bdata i d s)" "io_only s (written i s)"
  unfolding upd_buf_def loaded_def released_def set_bdata_def written_def unlink_def link_first_def Let_def
  by (intro io_only_upd_after io_only_refl)+

section \<open>Copying one block to another\<close>

definition dirty_blocks :: "kstate \<Rightarrow> u32 set" where
  "dirty_blocks s = (\<lambda>i. b_blockno (bufs s ! i)) ` dirty s"

lemma loaded_dirty_blocks:
  assumes "bc s H" "free_for s H b i"
  shows "dirty_blocks (loaded i b s) = dirty_blocks s"
proof -
  have i: "i < NBUF" using assms(2) by (simp add: free_for_def)
  have "b_blockno (bufs (loaded i b s) ! j) = b_blockno (bufs s ! j)" if "j \<in> dirty s" for j
    using that assms(2) loaded_nth [OF assms(1) i] bcD(4) [OF assms(1), of j]
    by (cases "j = i") (auto simp: free_for_def dirty_def holds_block_def)
  then show ?thesis unfolding dirty_blocks_def loaded_dirty [OF assms] by (intro image_cong) auto
qed

lemma dirty_block_cached:
  assumes "bc s H" "b \<in> dirty_blocks s"
  shows "\<exists>i < NBUF. holds_block s b i"
  using assms bcD(4) [OF assms(1)] by (auto simp: dirty_blocks_def dirty_def holds_block_def buf_ok_def Let_def)

lemma card_dirty:
  assumes "bc s H"
  shows "card (dirty s) = card (dirty_blocks s)"
proof -
  have "inj_on (\<lambda>i. b_blockno (bufs s ! i)) (dirty s)"
    using bcD(4,5) [OF assms] by (auto simp: inj_on_def dirty_def one_each_def buf_ok_def Let_def)
  then show ?thesis by (simp add: dirty_blocks_def card_image)
qed

lemma released_dirty_blocks:
  assumes "bc s H" "i \<in> H"
  shows "dirty_blocks (released i s) = dirty_blocks s"
proof -
  have "b_blockno (bufs (released i s) ! k) = b_blockno (bufs s ! k)" for k
    using released_nth [OF assms] by (cases "k = i") simp_all
  then show ?thesis by (simp add: dirty_blocks_def released_blk(2) [OF assms])
qed

lemma set_bdata_dirty_blocks:
  assumes "bc s H" "i \<in> H"
  shows "dirty_blocks (set_bdata i d s) = dirty_blocks s"
proof -
  have "b_blockno (bufs (set_bdata i d s) ! k) = b_blockno (bufs s ! k)
      \<and> b_dirty (bufs (set_bdata i d s) ! k) = b_dirty (bufs s ! k)" for k
    using bcD(2) [OF assms(1)] heldD(1) [OF assms] by (cases "k = i") (simp_all add: set_bdata_def upd_buf_nth)
  then show ?thesis by (simp add: dirty_blocks_def dirty_def)
qed

lemma written_dirty_blocks:
  assumes "bc s H" "i \<in> H"
  shows "dirty_blocks (written i s) = dirty_blocks s - {b_blockno (bufs s ! i)}"
proof -
  note bc = bcD [OF assms(1)] and h = heldD [OF assms] and v = written_ok [OF assms]
  have n: "b_blockno (bufs (written i s) ! k) = b_blockno (bufs s ! k)
      \<and> b_dirty (bufs (written i s) ! k) = (k \<noteq> i \<and> b_dirty (bufs s ! k))" for k
    using v(3,4) by (cases "k = i") simp_all
  then have "dirty (written i s) = dirty s - {i}" by (auto simp: dirty_def)
  moreover have "b_blockno (bufs s ! k) \<noteq> b_blockno (bufs s ! i)" if "k \<in> dirty s" "k \<noteq> i" for k
    using that bc(4) [of k] bc(5) h(1,6) by (auto simp: dirty_def one_each_def buf_ok_def Let_def)
  ultimately show ?thesis unfolding dirty_blocks_def using n by auto
qed

text \<open>
  Buffers \<open>i\<close> and \<open>j\<close> are held; the contents of \<open>i\<close> are copied to \<open>j\<close> and written, and both are
  released: the body of the loops of \<open>write_log\<close> and \<open>install_trans\<close> behind the two \<open>bread\<close>s.
\<close>

definition copy_held :: "nat \<Rightarrow> nat \<Rightarrow> kstate \<Rightarrow> (kstate, unit) res" where
  "copy_held i j s =
     bind (bwrite j (set_bdata j (b_data (bufs s ! i)) s)) (\<lambda>_ s.
     bind (brelse i s) (\<lambda>_ s. brelse j s))"

text \<open>What a copy of block \<open>y\<close> to block \<open>x\<close> does.\<close>

definition copied :: "u32 \<Rightarrow> u32 \<Rightarrow> kstate \<Rightarrow> kstate \<Rightarrow> bool" where
  "copied x y s t \<longleftrightarrow> bc t {} \<and> io_only s t \<and> disk t = (disk s)(x := blk s y)
     \<and> disk_trace t = disk_trace s @ [(x, blk s y)] \<and> blk t = (blk s)(x := blk s y)
     \<and> dirty_blocks t = dirty_blocks s - {x}"

lemma copy_held_ok:
  assumes "bc s {i, j}" "i \<noteq> j" "agrees s i"
  shows "\<exists>t. copy_held i j s = Ok () t \<and> copied (b_blockno (bufs s ! j)) (b_blockno (bufs s ! i)) s t"
proof -
  let ?d = "b_data (bufs s ! i)" and ?x = "b_blockno (bufs s ! j)"
  have hi: "i \<in> {i, j}" "j \<in> {i, j}" by simp_all
  note h = heldD [OF assms(1) hi(1)] and g = heldD [OF assms(1) hi(2)] and bc = bcD [OF assms(1)]
  let ?u = "set_bdata j ?d s"
  note u = set_bdata_ok [OF assms(1) hi(2) h(8)]
  have un: "bufs ?u ! j = (bufs s ! j)\<lparr>b_data := ?d\<rparr>" "k \<noteq> j \<Longrightarrow> bufs ?u ! k = bufs s ! k" for k
    using g(1) bc(2) by (simp_all add: set_bdata_def upd_buf_nth)
  let ?v = "written j ?u"
  note w = bwrite_eq [OF u(1) hi(2)] and v = written_ok [OF u(1) hi(2)]
  have vd: "disk ?v = (disk s)(?x := ?d)" "disk_trace ?v = disk_trace s @ [(?x, ?d)]"
    by (simp_all add: written_def Let_def un(1)) (simp_all add: set_bdata_def)
  have one: "b_blockno (bufs s ! i) \<noteq> ?x" using bc(5) h g assms(2) by (auto simp: one_each_def)
  have ai: "agrees ?v i" using assms(2,3) v(4) [of i] un(2) [of i] one by (simp add: agrees_def vd)
  let ?w = "released i ?v"
  note rel = brelse_eq [OF v(1) hi(1)] released_blk [OF v(1) hi(1)] released_bc [OF v(1) hi(1) ai] released_nth [OF v(1) hi(1)]
  have hj: "{i, j} - {i} = {j}" using assms(2) by auto
  have bw: "bc ?w {j}" using rel(4) hj by simp
  have wj: "bufs ?w ! j = (bufs s ! j)\<lparr>b_data := ?d, b_dirty := False\<rparr>"
    using rel(6) [of j] assms(2) v(3) un(1) by simp
  have dw: "disk ?w = disk ?v" "disk_trace ?w = disk_trace ?v"
    by (simp_all add: released_def link_first_def unlink_def Let_def)
  have aj: "agrees ?w j" by (simp add: agrees_def wj dw vd)
  let ?t = "released j ?w"
  note rel' = brelse_eq [OF bw] released_blk [OF bw] released_bc [OF bw _ aj] released_nth [OF bw]
  have dt: "disk ?t = disk ?v" "disk_trace ?t = disk_trace ?v"
    by (simp_all add: released_def link_first_def unlink_def Let_def)
  have bi: "blk s (b_blockno (bufs s ! i)) = ?d"
    using h by (intro blk_held [OF bc(5)]) (auto simp: holds_block_def)
  have "io_only s ?t" using io_only_trans io_only_ops by meson
  moreover have "blk ?t = (blk s)(?x := ?d)" using rel'(2) rel(2) v(2) u(2) by simp
  moreover have "dirty_blocks ?t = dirty_blocks s - {?x}"
    using released_dirty_blocks [OF bw] released_dirty_blocks [OF v(1) hi(1)]
      written_dirty_blocks [OF u(1) hi(2)] set_bdata_dirty_blocks [OF assms(1) hi(2)] un(1) by simp
  moreover have "copy_held i j s = Ok () ?t"
    using w rel(1) rel'(1) by (simp add: copy_held_def)
  ultimately show ?thesis using rel'(4) by (auto simp: copied_def dt vd bi)
qed

text \<open>Two blocks read one after the other.\<close>

definition both_held :: "kstate \<Rightarrow> u32 \<Rightarrow> u32 \<Rightarrow> nat \<Rightarrow> nat \<Rightarrow> kstate \<Rightarrow> bool" where
  "both_held s x y i j t \<longleftrightarrow> bc t {i, j} \<and> i \<noteq> j \<and> agrees t i \<and> agrees t j \<and> b_blockno (bufs t ! i) = x
     \<and> b_blockno (bufs t ! j) = y \<and> blk t = blk s \<and> disk t = disk s \<and> disk_trace t = disk_trace s
     \<and> io_only s t \<and> dirty_blocks t = dirty_blocks s"

lemma bread_two:
  assumes "bc s {}" "x < disksize s" "y < disksize s" "x \<noteq> y" "card (dirty_blocks s) < NBUF"
    and "y \<in> dirty_blocks s \<or> card (dirty_blocks s) + 1 < NBUF"
  shows "\<exists>i u j t. bread 1 x s = Ok i u \<and> io_only s u \<and> bread 1 y u = Ok j t \<and> both_held s x y i j t"
proof -
  have "card (dirty s) < NBUF" using assms(1,5) by (simp add: card_dirty)
  with bread_eq [OF assms(1,2)] obtain i where i: "free_for s {} x i" "bread 1 x s = Ok i (loaded i x s)"
    by (metis card.empty empty_iff add_0)
  let ?u = "loaded i x s"
  have iN: "i < NBUF" using i(1) by (simp add: free_for_def)
  note bu = loaded_bc [OF assms(1) i(1) assms(2)] and nu = loaded_nth [OF assms(1) iN]
    and du = loaded_dirty_blocks [OF assms(1) i(1)]
  have d: "disk ?u = disk s" "disk_trace ?u = disk_trace s" "disksize ?u = disksize s" by (simp_all add: loaded_def)
  have "(\<exists>k < NBUF. holds_block ?u y k) \<or> card {i} + card (dirty ?u) < NBUF"
    using assms(6) dirty_block_cached [OF bu, of y] card_dirty [OF bu] du by auto
  moreover have "\<not> holds_block ?u y i" using nu(1) assms(4) by (simp add: holds_block_def)
  ultimately obtain j where j: "free_for ?u {i} y j" "bread 1 y ?u = Ok j (loaded j y ?u)"
    using bread_eq [OF bu, of y] assms(3) d(3) by auto
  let ?t = "loaded j y ?u"
  have jN: "j < NBUF" "j \<noteq> i" using j(1) by (auto simp: free_for_def)
  note nt = loaded_nth [OF bu jN(1)]
  have "disk ?t = disk s" "disk_trace ?t = disk_trace s" using d by (simp_all add: loaded_def)
  moreover have "agrees ?t i"
    using loaded_agrees [OF assms(1) i(1)] nt(2) [of i] jN(2) d(1) calculation(1) by (simp add: agrees_def)
  moreover have "bc ?t {i, j}"
    using loaded_bc [OF bu j(1)] assms(3) d(3) by (simp add: insert_commute)
  ultimately have "both_held s x y i j ?t"
    using loaded_agrees [OF bu j(1)] nt nu jN loaded_blk [OF bu j(1)] loaded_blk [OF assms(1) i(1)]
      loaded_dirty_blocks [OF bu j(1)] du io_only_trans [OF io_only_ops(2) io_only_ops(2)]
    by (simp add: both_held_def)
  with i(2) j(2) show ?thesis by auto
qed

text \<open>Copying \<open>y\<close> to \<open>x\<close>, reading \<open>x\<close> first or \<open>y\<close> first.\<close>

lemma both_held_copied: "both_held s x y i j u \<Longrightarrow> copied x y u t \<Longrightarrow> copied x y s t"
  "both_held s y x i j u \<Longrightarrow> copied x y u t \<Longrightarrow> copied x y s t"
  by (auto simp: both_held_def copied_def intro: io_only_trans)

lemma copy_to_first:
  assumes "bc s {}" "x < disksize s" "y < disksize s" "x \<noteq> y" "card (dirty_blocks s) < NBUF"
    and "y \<in> dirty_blocks s \<or> card (dirty_blocks s) + 1 < NBUF"
  shows "\<exists>i u j v t. bread 1 x s = Ok i u \<and> io_only s u \<and> bread 1 y u = Ok j v \<and> io_only s v
    \<and> copy_held j i v = Ok () t \<and> copied x y s t"
proof -
  from bread_two [OF assms] obtain i u j v where v: "bread 1 x s = Ok i u" "io_only s u" "bread 1 y u = Ok j v"
    "both_held s x y i j v" by blast
  then have "bc v {j, i}" "j \<noteq> i" "agrees v j" by (auto simp: both_held_def insert_commute)
  from copy_held_ok [OF this] v(4) obtain t where "copy_held j i v = Ok () t" "copied x y v t"
    by (auto simp: both_held_def)
  then show ?thesis using v both_held_copied(1) [OF v(4)] by (auto simp: both_held_def)
qed

lemma copy_to_second:
  assumes "bc s {}" "x < disksize s" "y < disksize s" "x \<noteq> y" "card (dirty_blocks s) < NBUF"
    and "x \<in> dirty_blocks s \<or> card (dirty_blocks s) + 1 < NBUF"
  shows "\<exists>i u j v t. bread 1 y s = Ok i u \<and> io_only s u \<and> bread 1 x u = Ok j v \<and> io_only s v
    \<and> copy_held i j v = Ok () t \<and> copied x y s t"
proof -
  from bread_two [OF assms(1,3,2) _ assms(5,6)] assms(4) obtain i u j v where
    v: "bread 1 y s = Ok i u" "io_only s u" "bread 1 x u = Ok j v" "both_held s y x i j v" by blast
  then have "bc v {i, j}" "i \<noteq> j" "agrees v i" by (auto simp: both_held_def)
  from copy_held_ok [OF this] v(4) obtain t where "copy_held i j v = Ok () t" "copied x y v t"
    by (auto simp: both_held_def)
  then show ?thesis using v both_held_copied(2) [OF v(4)] by (auto simp: both_held_def)
qed

section \<open>The cache at boot\<close>

text \<open>Buffers as C initialises them, and a process that runs alone.\<close>

definition fresh_cache :: "kstate \<Rightarrow> bool" where
  "fresh_cache s \<longleftrightarrow> alone s \<and> length (bufs s) = NBUF \<and> (\<forall>b. length (disk s b) = BSIZE)
     \<and> (\<forall>k \<in> set (bufs s). length (b_data k) = BSIZE \<and> \<not> b_valid k \<and> \<not> b_dirty k \<and> b_dev k = 0 \<and> b_refcnt k = 0)"

lemma initlock_alone:
  assumes "alone s"
  shows "alone (initlock lk name s)"
proof -
  have "quiet (initlock lk name s)"
    using assms cpu_ok_cong [of "initlock lk name s" s]
    unfolding quiet_def alone_def by (auto simp: initlock_def lock_free_def)
  moreover have "cur_proc (initlock lk name s) = cur_proc s"
    by (simp add: initlock_def cur_proc_def split: option.splits)
  ultimately show ?thesis using assms by (simp add: alone_def) (simp add: initlock_def)
qed

lemma set_sl_alone [simp]: "alone (set_sl (SlBuf b) l s) = alone s"
  by simp

lemma sleeplock_set: "l\<lparr>sl_name := n, sl_locked := k, sl_pid := p\<rparr> = \<lparr>sl_locked = k, sl_name = n, sl_pid = p\<rparr>"
  by (rule sleeplock.equality) simp_all

lemma binit_loop_fresh:
  assumes "fresh_cache s" "set bs \<subseteq> {..<NBUF}"
  shows "fresh_cache (binit_loop bs s)
    \<and> (\<forall>i < NBUF. (\<not> sl_locked (b_lock (bufs s ! i)) \<or> i \<in> set bs) \<longrightarrow> \<not> sl_locked (b_lock (bufs (binit_loop bs s) ! i)))
    \<and> disk (binit_loop bs s) = disk s \<and> disksize (binit_loop bs s) = disksize s \<and> klog (binit_loop bs s) = klog s"
  using assms
proof (induction bs arbitrary: s)
  case (Cons b bs)
  let ?s = "s\<lparr>b_next := (b_next s)(b := b_next s NBUF), b_prev := (b_prev s)(b := NBUF)\<rparr>"
  let ?t = "initsleeplock (SlBuf b) ''buffer'' ?s"
  let ?u = "?t\<lparr>b_prev := (b_prev ?t)(b_next ?t NBUF := b), b_next := (b_next ?t)(NBUF := b)\<rparr>"
  have bs: "bufs ?u = (bufs s)[b := (bufs s ! b)\<lparr>b_lock := \<lparr>sl_locked = False, sl_name = ''buffer'', sl_pid = 0\<rparr>\<rparr>]"
    using Cons.prems by (simp add: initsleeplock_def initlock_def Let_def fresh_cache_def sleeplock_set)
  have "alone ?t" using Cons.prems(1) initlock_alone [of ?s] by (simp add: fresh_cache_def initsleeplock_def Let_def)
  then have "alone ?u" by simp
  moreover have keep: "disk ?u = disk s" "disksize ?u = disksize s" "klog ?u = klog s"
    by (simp_all add: initsleeplock_def initlock_def Let_def)
  ultimately have f: "fresh_cache ?u"
    using Cons.prems unfolding fresh_cache_def bs keep
    by (auto dest!: set_update_subset_insert [THEN subsetD])
  have sl: "\<not> sl_locked (b_lock (bufs ?u ! i))" if "i < NBUF" "\<not> sl_locked (b_lock (bufs s ! i)) \<or> i = b" for i
    using that Cons.prems unfolding bs by (cases "i = b") (auto simp: fresh_cache_def)
  have eq: "binit_loop (b # bs) s = binit_loop bs ?u" by (simp add: Let_def)
  show ?case
    unfolding eq using Cons.IH [OF f] Cons.prems(2) sl keep by auto
qed simp

lemma binit_bc:
  assumes "fresh_cache s"
  shows "bc (binit s) {}" "dirty_blocks (binit s) = {}" "disk (binit s) = disk s" "disksize (binit s) = disksize s"
    "klog (binit s) = klog s"
proof -
  let ?s = "(initlock BcacheLock ''bcache'' s)\<lparr>b_prev := (b_prev s)(NBUF := NBUF), b_next := (b_next s)(NBUF := NBUF)\<rparr>"
  have eq: "binit s = binit_loop [0..<NBUF] ?s"
    by (simp only: binit_def Let_def initlock_def) simp
  have "fresh_cache ?s"
    using assms initlock_alone [of s] by (simp add: fresh_cache_def) (simp add: initlock_def)
  then have f: "fresh_cache (binit s) \<and> (\<forall>i < NBUF. \<not> sl_locked (b_lock (bufs (binit s) ! i)))
    \<and> disk (binit s) = disk ?s \<and> disksize (binit s) = disksize ?s \<and> klog (binit s) = klog ?s"
    unfolding eq using binit_loop_fresh [of ?s "[0..<NBUF]"] by (simp add: atLeast0LessThan)
  have fr: "fresh_cache (binit s)" using f by simp
  have b: "length (b_data k) = BSIZE \<and> \<not> b_valid k \<and> \<not> b_dirty k \<and> b_dev k = 0 \<and> b_refcnt k = 0 \<and> \<not> sl_locked (b_lock k)"
    if "i < NBUF" "k = bufs (binit s) ! i" for i k
    using that f by (auto simp: fresh_cache_def)
  show "bc (binit s) {}"
    using fr b binit_ring [of s] unfolding bc_def buf_ok_def one_each_def Let_def
    by (auto simp: fresh_cache_def intro!: exI [of _ "rev [0..<NBUF]"])
  show "dirty_blocks (binit s) = {}" using b by (auto simp: dirty_blocks_def dirty_def)
  show "disk (binit s) = disk s" "disksize (binit s) = disksize s" "klog (binit s) = klog s"
    using f by (simp_all add: initlock_def)
qed

section \<open>Refinement\<close>

text \<open>
  The contract of the cache without the log: the disk is a map \<open>m\<close> from block numbers to contents, of
  which the process holds the blocks of the buffers \<open>H\<close>.
\<close>

inductive bio_reach :: "kstate \<Rightarrow> kstate \<Rightarrow> nat set \<Rightarrow> (u32 \<Rightarrow> u8 list) \<Rightarrow> bool" for s0 where
  init: "bio_reach s0 (binit s0) {} (disk s0)"
| read: "bio_reach s0 s H m \<Longrightarrow> b < disksize s0 \<Longrightarrow> b \<notin> (\<lambda>i. b_blockno (bufs s ! i)) ` H \<Longrightarrow> bread 1 b s = Ok i t
    \<Longrightarrow> bio_reach s0 t (insert i H) m"
| modify: "bio_reach s0 s H m \<Longrightarrow> i \<in> H \<Longrightarrow> length d = BSIZE \<Longrightarrow> bwrite i (set_bdata i d s) = Ok () t
    \<Longrightarrow> bio_reach s0 t H (m(b_blockno (bufs s ! i) := d))"
| give: "bio_reach s0 s H m \<Longrightarrow> i \<in> H \<Longrightarrow> brelse i s = Ok () t \<Longrightarrow> bio_reach s0 t (H - {i}) m"

definition bio_inv :: "kstate \<Rightarrow> nat set \<Rightarrow> (u32 \<Rightarrow> u8 list) \<Rightarrow> bool" where
  "bio_inv s H m \<longleftrightarrow> bc s H \<and> dirty s = {} \<and> disk s = m
     \<and> (\<forall>i \<in> H. b_data (bufs s ! i) = m (b_blockno (bufs s ! i)))"

lemma bio_inv_blk:
  assumes "bio_inv s H m"
  shows "blk s = m"
proof
  fix b
  have *: "bc s H" "dirty s = {}" "disk s = m" "\<And>i. i \<in> H \<Longrightarrow> b_data (bufs s ! i) = m (b_blockno (bufs s ! i))"
    using assms by (auto simp: bio_inv_def)
  show "blk s b = m b"
  proof (cases "\<exists>i < NBUF. holds_block s b i \<and> b_valid (bufs s ! i)")
    case True
    then obtain i where i: "i < NBUF" "holds_block s b i" "b_valid (bufs s ! i)" by blast
    then have "\<not> b_dirty (bufs s ! i)" using *(2) by (auto simp: dirty_def)
    then have "b_data (bufs s ! i) = m b"
      using bcD(4) [OF *(1) i(1)] *(3) *(4) [of i] i by (cases "i \<in> H") (auto simp: buf_ok_def Let_def holds_block_def)
    then show ?thesis using blk_held [OF bcD(5) [OF *(1)] i] by simp
  next
    case False
    then show ?thesis using blk_disk [of s b] *(3) by blast
  qed
qed

text \<open>When every buffer is held, a block that is not cached has no buffer.\<close>

lemma bread_full:
  assumes "bc s H" "card H = NBUF" "\<And>i. i \<in> H \<Longrightarrow> \<not> holds_block s b i"
  shows "bread 1 b s = Panic ''bget: no buffers''"
proof -
  note bc = bcD [OF assms(1)]
  have H: "H = {..<NBUF}" using assms(2) bc(3) by (intro card_subset_eq) auto
  from assms(1) obtain xs where xs: "ring s xs" "set xs = {..<NBUF}" by (auto simp: bc_def)
  then have len: "length xs \<le> NBUF" using distinct_card [of xs] by (simp add: ring_def)
  have "List.find (\<lambda>i. b_dev (bufs s ! i) = 1 \<and> b_blockno (bufs s ! i) = b) xs = None"
    using assms(3) xs(2) H by (auto simp: find_None_iff holds_block_def)
  moreover have "List.find (\<lambda>i. b_refcnt (bufs s ! i) = 0 \<and> \<not> b_dirty (bufs s ! i)) (rev xs) = None"
    using heldD(2) [OF assms(1)] xs(2) H by (auto simp: find_None_iff)
  moreover have "quiet s" using bc(1) by (simp add: alone_def)
  ultimately show ?thesis
    using ring_walks [OF xs(1) len] by (simp add: bread_def bget_def lock_simps)
qed

lemma bio_read:
  assumes "bio_inv s H m" "b < disksize s" "b \<notin> (\<lambda>i. b_blockno (bufs s ! i)) ` H"
  shows "if card H < NBUF
    then \<exists>i t. bread 1 b s = Ok i t \<and> i \<notin> H \<and> bio_inv t (insert i H) m \<and> disksize t = disksize s
      \<and> b_blockno (bufs t ! i) = b \<and> b_data (bufs t ! i) = m b
    else bread 1 b s = Panic ''bget: no buffers''"
proof (cases "card H < NBUF")
  case True
  have *: "bc s H" "dirty s = {}" "disk s = m" "\<And>i. i \<in> H \<Longrightarrow> b_data (bufs s ! i) = m (b_blockno (bufs s ! i))"
    using assms(1) by (auto simp: bio_inv_def)
  have "\<And>i. i \<in> H \<Longrightarrow> \<not> holds_block s b i" using assms(3) by (auto simp: holds_block_def)
  moreover have "card H + card (dirty s) < NBUF" using True *(2) by simp
  ultimately obtain i where
    i: "bread 1 b s = Ok i (loaded i b s)" "i \<notin> H" "bc (loaded i b s) (insert i H)" "dirty (loaded i b s) = {}"
      "b_blockno (bufs (loaded i b s) ! i) = b" "b_data (bufs (loaded i b s) ! i) = blk s b"
      "\<And>j. j \<noteq> i \<Longrightarrow> bufs (loaded i b s) ! j = bufs s ! j"
    using bread_ok [OF *(1) assms(2)] *(2) by metis
  have l: "disk (loaded i b s) = disk s" "disksize (loaded i b s) = disksize s" by (simp_all add: loaded_def)
  have "j \<noteq> i" if "j \<in> H" for j using that i(2) by blast
  then have "bio_inv (loaded i b s) (insert i H) m"
    using i l *(3,4) bio_inv_blk [OF assms(1)] unfolding bio_inv_def by simp
  then show ?thesis using True i l bio_inv_blk [OF assms(1)] by auto
next
  case False
  have *: "bc s H" using assms(1) by (simp add: bio_inv_def)
  then have "card H \<le> NBUF" using bcD(3) card_mono [of "{..<NBUF}" H] by simp
  moreover have "\<not> holds_block s b i" if "i \<in> H" for i using assms(3) that by (auto simp: holds_block_def)
  ultimately show ?thesis using False bread_full [OF *, of b] by simp
qed

lemma bio_modify:
  assumes "bio_inv s H m" "i \<in> H" "length d = BSIZE"
  shows "\<exists>t. bwrite i (set_bdata i d s) = Ok () t \<and> bio_inv t H (m(b_blockno (bufs s ! i) := d)) \<and> disksize t = disksize s"
proof -
  let ?s = "set_bdata i d s"
  have *: "bc s H" "dirty s = {}" "disk s = m" "\<And>i. i \<in> H \<Longrightarrow> b_data (bufs s ! i) = m (b_blockno (bufs s ! i))"
    using assms(1) by (auto simp: bio_inv_def)
  note b = set_bdata_ok(1) [OF *(1) assms(2,3)]
  note w = written_ok [OF b assms(2)]
  have n: "bufs ?s ! i = (bufs s ! i)\<lparr>b_data := d\<rparr>" "j \<noteq> i \<Longrightarrow> bufs ?s ! j = bufs s ! j" for j
    using heldD(1) [OF *(1) assms(2)] bcD(2) [OF *(1)] by (simp_all add: set_bdata_def upd_buf_nth)
  have "dirty (written i ?s) = {}"
  proof -
    have "b_dirty (bufs (written i ?s) ! j) \<Longrightarrow> b_dirty (bufs s ! j)" for j
      using w(3,4) n by (cases "j = i") simp_all
    then show ?thesis using *(2) by (auto simp: dirty_def)
  qed
  moreover have "disk (written i ?s) = m(b_blockno (bufs s ! i) := d)" "disksize (written i ?s) = disksize s"
    using n *(3) by (simp_all add: written_def Let_def) (simp_all add: set_bdata_def)
  moreover have "b_data (bufs (written i ?s) ! j) = (m(b_blockno (bufs s ! i) := d)) (b_blockno (bufs (written i ?s) ! j))"
    if "j \<in> H" for j
  proof (cases "j = i")
    case False
    then have "b_blockno (bufs s ! j) \<noteq> b_blockno (bufs s ! i)"
      using bcD(5) [OF *(1)] heldD(1,6) [OF *(1)] that assms(2) by (auto simp: one_each_def)
    then show ?thesis using False w(4) n(2) *(4) [OF that] by simp
  qed (use w(3) n(1) in simp)
  ultimately show ?thesis
    using bwrite_eq [OF b assms(2)] w(1) by (simp add: bio_inv_def)
qed

lemma bio_give:
  assumes "bio_inv s H m" "i \<in> H"
  shows "\<exists>t. brelse i s = Ok () t \<and> bio_inv t (H - {i}) m \<and> disksize t = disksize s"
proof -
  have *: "bc s H" "dirty s = {}" "disk s = m" "\<And>i. i \<in> H \<Longrightarrow> b_data (bufs s ! i) = m (b_blockno (bufs s ! i))"
    using assms(1) by (auto simp: bio_inv_def)
  have "bc (released i s) (H - {i})"
    using *(3,4) assms(2) by (intro released_bc [OF *(1) assms(2)]) (simp add: agrees_def)
  then have "bio_inv (released i s) (H - {i}) m"
    using * released_blk(2) [OF *(1) assms(2)] released_nth(2) [OF *(1) assms(2)]
    unfolding bio_inv_def by (auto simp: released_def)
  moreover have "disksize (released i s) = disksize s" by (simp add: released_def)
  ultimately show ?thesis using brelse_eq [OF *(1) assms(2)] by blast
qed

lemma bio_reach_inv:
  assumes "fresh_cache s0" "bio_reach s0 s H m"
  shows "bio_inv s H m \<and> disksize s = disksize s0"
  using assms(2)
proof induction
  case init
  have "dirty (binit s0) = {}" using binit_bc(2) [OF assms(1)] by (simp add: dirty_blocks_def)
  then show ?case using binit_bc [OF assms(1)] by (simp add: bio_inv_def)
next
  case (read s H m b i t)
  then show ?case using bio_read [of s H m b] by (auto split: if_splits)
next
  case (modify s H m i d t)
  then show ?case using bio_modify [of s H m i d] by (auto simp: fun_upd_def)
next
  case (give s H m i t)
  then show ?case using bio_give [of s H m i] by auto
qed

text \<open>
  C10. The buffer cache refines a plain map from block numbers to block contents. From \<open>binit\<close> on,
  whatever blocks are read, changed and written, and released: held buffers are for different blocks
  and hold what the map says, the disk is the map, \<open>bread\<close> of a further block returns a buffer with
  its current contents (or panics exactly when all \<open>NBUF\<close> buffers are held), and writing and
  releasing a held buffer always succeed.
\<close>

theorem bcache_refines_disk:
  assumes "fresh_cache s0" "bio_reach s0 s H m"
  shows "inj_on (\<lambda>i. b_blockno (bufs s ! i)) H \<and> disk s = m
    \<and> (\<forall>i \<in> H. b_data (bufs s ! i) = m (b_blockno (bufs s ! i)))
    \<and> (\<forall>b. b < disksize s0 \<longrightarrow> b \<notin> (\<lambda>i. b_blockno (bufs s ! i)) ` H \<longrightarrow>
        (if card H < NBUF
         then \<exists>i t. bread 1 b s = Ok i t \<and> i \<notin> H \<and> b_blockno (bufs t ! i) = b \<and> b_data (bufs t ! i) = m b
         else bread 1 b s = Panic ''bget: no buffers''))
    \<and> (\<forall>i \<in> H. \<forall>d. length d = BSIZE \<longrightarrow>
        (\<exists>t. bwrite i (set_bdata i d s) = Ok () t \<and> disk t = m(b_blockno (bufs s ! i) := d)))
    \<and> (\<forall>i \<in> H. \<exists>t. brelse i s = Ok () t \<and> disk t = m)"
proof -
  have inv: "bio_inv s H m" "disksize s = disksize s0" using bio_reach_inv [OF assms] by auto
  then have "bc s H" "disk s = m" "\<And>i. i \<in> H \<Longrightarrow> b_data (bufs s ! i) = m (b_blockno (bufs s ! i))"
    by (auto simp: bio_inv_def)
  moreover from this(1) have "inj_on (\<lambda>i. b_blockno (bufs s ! i)) H"
    using heldD(1,6) bcD(5) by (auto simp: inj_on_def one_each_def)
  moreover note bio_read [OF inv(1)] bio_modify [OF inv(1)] bio_give [OF inv(1)]
  ultimately show ?thesis unfolding inv(2) [symmetric] bio_inv_def by (auto split: if_splits; blast?)
qed

text \<open>A machine with one processor, which runs the first process, and the disk \<open>D\<close>.\<close>

definition fs_boot :: "(u32 \<Rightarrow> u8 list) \<Rightarrow> kstate" where
  "fs_boot D = (kstate0 [0] D)\<lparr>cpus := [(cpu0 0)\<lparr>cpu_proc := Some 0\<rparr>],
     procs := (replicate NPROC proc0)[0 := proc0\<lparr>p_state := RUNNING, p_pid := 1\<rparr>]\<rparr>"

lemma fs_boot_fresh:
  assumes "\<And>b. length (D b) = BSIZE"
  shows "fresh_cache (fs_boot D)"
proof -
  have "quiet (fs_boot D)"
    by (simp add: fs_boot_def kstate0_def quiet_def cpu_ok_def this_cpu_def cpu0_def lock_free_def spinlock0_def)
  moreover have "cur_proc (fs_boot D) = Some 0"
    by (simp add: fs_boot_def kstate0_def cur_proc_def this_cpu_def cpu0_def)
  moreover have "\<forall>q \<in> set (procs (fs_boot D)). p_state q \<noteq> SLEEPING"
    by (auto simp: fs_boot_def kstate0_def proc0_def dest!: set_update_subset_insert [THEN subsetD])
  ultimately have "alone (fs_boot D)" by (simp add: alone_def)
  then show ?thesis using assms by (simp add: fresh_cache_def) (simp add: fs_boot_def kstate0_def buf0_def)
qed

theorem bcache_refines_disk_witness:
  "\<exists>i t. bread 1 7 (binit (fs_boot (\<lambda>_. replicate BSIZE 5))) = Ok i t \<and> b_data (bufs t ! i) = replicate BSIZE 5"
proof -
  have f: "fresh_cache (fs_boot (\<lambda>_. replicate BSIZE 5))" by (rule fs_boot_fresh) simp
  have "disk (fs_boot (\<lambda>_. replicate BSIZE 5)) 7 = replicate BSIZE 5" "7 < disksize (fs_boot (\<lambda>_. replicate BSIZE 5))"
    by (simp_all add: fs_boot_def kstate0_def)
  with bcache_refines_disk [OF f bio_reach.init] show ?thesis by simp metis
qed

end
