(* ===== verification/Log.thy ===== *)
theory Log
  imports Bio
begin

text \<open>
  The log (\<open>log.c\<close>, and \<open>readsb\<close> of \<open>fs.c\<close>): file system calls collect the blocks they change
  in a transaction, which \<open>commit\<close> writes to the log, marks as committed by writing the header,
  copies to the blocks' homes and erases. The theory holds the model of the log and computes the
  sequence of disk writes of a commit and of recovery; theory \<open>Txn\<close> has the operations that make up
  a transaction, theory \<open>Crash\<close> what a crash between two of the writes leaves.
\<close>

section \<open>On-disk structures\<close>

text \<open>The superblock in block 1 and the header of the log: a count, then block numbers.\<close>

definition get_superblock :: "u8 list \<Rightarrow> superblock" where
  "get_superblock d = \<lparr>sb_size = get32 d 0, sb_nblocks = get32 d 4, sb_ninodes = get32 d 8,
     sb_nlog = get32 d 12, sb_logstart = get32 d 16, sb_inodestart = get32 d 20, sb_bmapstart = get32 d 24\<rparr>"

definition readsb :: "u32 \<Rightarrow> kstate \<Rightarrow> (kstate, superblock) res" where
  "readsb dev s =
     bind (bread dev 1 s) (\<lambda>bp s.
       let sb = get_superblock (b_data (bufs s ! bp)) in
     bind (brelse bp s) (\<lambda>_ s. Ok sb s))"

definition upd_log :: "(klog \<Rightarrow> klog) \<Rightarrow> kstate \<Rightarrow> kstate" where
  "upd_log f s = s\<lparr>klog := f (klog s)\<rparr>"

section \<open>Commit and recovery\<close>

text \<open>The loops run over \<open>tail = 0, 1, \<dots>\<close>; an entry past the end of the array is undefined behaviour.\<close>

primrec install_loop :: "nat list \<Rightarrow> kstate \<Rightarrow> (kstate, unit) res" where
  "install_loop [] s = Ok () s"
| "install_loop (tail # ts) s =
     bind (bread (lg_dev (klog s)) (lg_start (klog s) + of_nat tail + 1) s) (\<lambda>lbuf s.
       if length (lh_block (klog s)) \<le> tail then Undef
       else
         bind (bread (lg_dev (klog s)) (lh_block (klog s) ! tail) s) (\<lambda>dbuf s.
         bind (bwrite dbuf (set_bdata dbuf (b_data (bufs s ! lbuf)) s)) (\<lambda>_ s.
         bind (brelse lbuf s) (\<lambda>_ s.
         bind (brelse dbuf s) (\<lambda>_ s. install_loop ts s)))))"

definition install_trans :: "kstate \<Rightarrow> (kstate, unit) res" where
  "install_trans s = install_loop [0..<nat (lh_n (klog s))] s"

definition read_head :: "kstate \<Rightarrow> (kstate, unit) res" where
  "read_head s =
     bind (bread (lg_dev (klog s)) (lg_start (klog s)) s) (\<lambda>buf s.
       let lh = b_data (bufs s ! buf);
           n = sint (get32 lh 0);
           s = upd_log (\<lambda>l. l\<lparr>lh_n := n\<rparr>) s
       in if int (length (lh_block (klog s))) < n then Undef
          else
            let s = upd_log (\<lambda>l. l\<lparr>lh_block := map (\<lambda>i. get32 lh (4 + 4 * i)) [0..<nat n]
                      @ drop (nat n) (lh_block l)\<rparr>) s
            in brelse buf s)"

text \<open>Storing \<open>hb->n\<close> and \<open>hb->block[0], \<dots>\<close> into the header block.\<close>

definition put_head :: "u8 list \<Rightarrow> int \<Rightarrow> u32 list \<Rightarrow> u8 list" where
  "put_head d n blocks = blit d 0 (concat (map put32 (of_int n # take (nat n) blocks)))"

definition write_head :: "kstate \<Rightarrow> (kstate, unit) res" where
  "write_head s =
     bind (bread (lg_dev (klog s)) (lg_start (klog s)) s) (\<lambda>buf s.
       if int (length (lh_block (klog s))) < lh_n (klog s) then Undef
       else
         let s = set_bdata buf (put_head (b_data (bufs s ! buf)) (lh_n (klog s)) (lh_block (klog s))) s
         in bind (bwrite buf s) (\<lambda>_ s. brelse buf s))"

definition recover_from_log :: "kstate \<Rightarrow> (kstate, unit) res" where
  "recover_from_log s =
     bind (read_head s) (\<lambda>_ s.
     bind (install_trans s) (\<lambda>_ s.
       write_head (upd_log (\<lambda>l. l\<lparr>lh_n := 0\<rparr>) s)))"

definition initlog :: "u32 \<Rightarrow> kstate \<Rightarrow> (kstate, unit) res" where
  "initlog dev s =
     (if BSIZE \<le> 4 + 4 * LOGSIZE then Panic ''initlog: too big logheader''
      else
        let s = initlock LogLock ''log'' s in
        bind (readsb dev s) (\<lambda>sb s.
          recover_from_log (upd_log (\<lambda>l. l\<lparr>lg_start := sb_logstart sb, lg_size := sint (sb_nlog sb),
            lg_dev := dev\<rparr>) s)))"

primrec write_log_loop :: "nat list \<Rightarrow> kstate \<Rightarrow> (kstate, unit) res" where
  "write_log_loop [] s = Ok () s"
| "write_log_loop (tail # ts) s =
     bind (bread (lg_dev (klog s)) (lg_start (klog s) + of_nat tail + 1) s) (\<lambda>to s.
       if length (lh_block (klog s)) \<le> tail then Undef
       else
         bind (bread (lg_dev (klog s)) (lh_block (klog s) ! tail) s) (\<lambda>from s.
         bind (bwrite to (set_bdata to (b_data (bufs s ! from)) s)) (\<lambda>_ s.
         bind (brelse from s) (\<lambda>_ s.
         bind (brelse to s) (\<lambda>_ s. write_log_loop ts s)))))"

definition write_log :: "kstate \<Rightarrow> (kstate, unit) res" where
  "write_log s = write_log_loop [0..<nat (lh_n (klog s))] s"

definition commit :: "kstate \<Rightarrow> (kstate, unit) res" where
  "commit s =
     (if 0 < lh_n (klog s) then
        bind (write_log s) (\<lambda>_ s.
        bind (write_head s) (\<lambda>_ s.
        bind (install_trans s) (\<lambda>_ s.
          write_head (upd_log (\<lambda>l. l\<lparr>lh_n := 0\<rparr>) s))))
      else Ok () s)"

section \<open>Operations\<close>

text \<open>One test of the loop of \<open>begin_op\<close>, with the log's lock held.\<close>

definition begin_op_test :: "kstate \<Rightarrow> (kstate, unit) res" where
  "begin_op_test s =
     (if lg_committing (klog s)
      then bind (sleep ChLog (Some LogLock) s) (\<lambda>_ s. Undef)
      else if lh_n (klog s) + (lg_outstanding (klog s) + 1) * MAXOPBLOCKS > int LOGSIZE
      then bind (sleep ChLog (Some LogLock) s) (\<lambda>_ s. Undef)
      else release LogLock (upd_log (\<lambda>l. l\<lparr>lg_outstanding := lg_outstanding l + 1\<rparr>) s))"

definition begin_op :: "kstate \<Rightarrow> (kstate, unit) res" where
  "begin_op s = bind (acquire LogLock s) (\<lambda>_ s. begin_op_test s)"

definition begin_op_resume :: "bool \<Rightarrow> nat \<Rightarrow> u32 \<Rightarrow> kstate \<Rightarrow> (kstate, unit) res" where
  "begin_op_resume ie p start_ticks s =
     bind (sleep_resume ie p start_ticks LogLock s) (\<lambda>_ s. begin_op_test s)"

definition end_op :: "kstate \<Rightarrow> (kstate, unit) res" where
  "end_op s =
     bind (acquire LogLock s) (\<lambda>_ s.
       let s = upd_log (\<lambda>l. l\<lparr>lg_outstanding := lg_outstanding l - 1\<rparr>) s in
       if lg_committing (klog s) then Panic ''log.committing''
       else if lg_outstanding (klog s) = 0 then
         let s = upd_log (\<lambda>l. l\<lparr>lg_committing := True\<rparr>) s in
         bind (release LogLock s) (\<lambda>_ s.
         bind (commit s) (\<lambda>_ s.
         bind (acquire LogLock s) (\<lambda>_ s.
           let s = upd_log (\<lambda>l. l\<lparr>lg_committing := False\<rparr>) s in
         bind (wakeup ChLog s) (\<lambda>_ s. release LogLock s))))
       else bind (wakeup ChLog s) (\<lambda>_ s. release LogLock s))"

text \<open>The loop of \<open>log_write\<close> stops at the entry for the block or behind the last entry.\<close>

definition log_slot :: "u32 \<Rightarrow> klog \<Rightarrow> nat" where
  "log_slot blockno l =
     (case scan (\<lambda>x. x = blockno) (take (nat (lh_n l)) (lh_block l)) of Some i \<Rightarrow> i | None \<Rightarrow> nat (lh_n l))"

definition log_write :: "nat \<Rightarrow> kstate \<Rightarrow> (kstate, unit) res" where
  "log_write b s =
     (if lh_n (klog s) \<ge> int LOGSIZE \<or> lh_n (klog s) \<ge> lg_size (klog s) - 1
      then Panic ''too big a transaction''
      else if lg_outstanding (klog s) < 1 then Panic ''log_write outside of trans''
      else
        bind (acquire LogLock s) (\<lambda>_ s.
          let blockno = b_blockno (bufs s ! b);
              i = log_slot blockno (klog s)
          in if length (lh_block (klog s)) \<le> i then Undef
             else
               let s = upd_log (\<lambda>l. l\<lparr>lh_block := (lh_block l)[i := blockno]\<rparr>) s;
                   s = (if int i = lh_n (klog s) then upd_log (\<lambda>l. l\<lparr>lh_n := lh_n l + 1\<rparr>) s else s);
                   s = upd_buf b (\<lambda>k. k\<lparr>b_dirty := True\<rparr>) s
               in release LogLock s))"

section \<open>Disk writes\<close>

definition apply_writes :: "(u32 \<times> u8 list) list \<Rightarrow> (u32 \<Rightarrow> u8 list) \<Rightarrow> u32 \<Rightarrow> u8 list" where
  "apply_writes ws D = fold (\<lambda>(b, d) D. D(b := d)) ws D"

lemma apply_writes_simps [simp]:
  "apply_writes [] D = D" "apply_writes ((b, d) # ws) D = apply_writes ws (D(b := d))"
  "apply_writes (vs @ ws) D = apply_writes ws (apply_writes vs D)"
  by (simp_all add: apply_writes_def)

lemma apply_writes_other: "b \<notin> fst ` set ws \<Longrightarrow> apply_writes ws D b = D b"
  by (induction ws arbitrary: D) auto

lemma apply_writes_map:
  "inj_on f (set ts) \<Longrightarrow> distinct ts \<Longrightarrow> i \<in> set ts \<Longrightarrow> apply_writes (map (\<lambda>i. (f i, g i)) ts) D (f i) = g i"
proof (induction ts arbitrary: D)
  case (Cons t ts)
  show ?case
  proof (cases "i = t")
    case True
    then have "f i \<notin> fst ` set (map (\<lambda>i. (f i, g i)) ts)" using Cons.prems by auto
    with True show ?thesis by (simp add: apply_writes_other)
  next
    case False
    with Cons show ?thesis by (simp add: inj_on_def)
  qed
qed simp

text \<open>A loop's result: it made the writes \<open>ws\<close>, through the cache, and afterwards no buffer is held.\<close>

definition wrote :: "(u32 \<times> u8 list) list \<Rightarrow> kstate \<Rightarrow> kstate \<Rightarrow> bool" where
  "wrote ws s t \<longleftrightarrow> bc t {} \<and> io_only s t \<and> disk t = apply_writes ws (disk s)
     \<and> disk_trace t = disk_trace s @ ws \<and> blk t = apply_writes ws (blk s)
     \<and> dirty_blocks t = dirty_blocks s - fst ` set ws"

lemma wrote_Nil: "bc s {} \<Longrightarrow> wrote [] s s"
  by (simp add: wrote_def)

lemma wrote_append: "wrote vs s t \<Longrightarrow> wrote ws t u \<Longrightarrow> wrote (vs @ ws) s u"
  by (auto simp: wrote_def intro: io_only_trans)

lemma copied_wrote: "copied x y s t \<Longrightarrow> wrote [(x, blk s y)] s t"
  by (auto simp: copied_def wrote_def)

text \<open>Block number \<open>i\<close> of the log, and the home of what it holds.\<close>

definition log_block :: "klog \<Rightarrow> nat \<Rightarrow> u32" where
  "log_block l i = lg_start l + of_nat i + 1"

definition log_entry :: "kstate \<Rightarrow> nat \<Rightarrow> bool" where
  "log_entry s i \<longleftrightarrow> i < length (lh_block (klog s)) \<and> log_block (klog s) i < disksize s
     \<and> lh_block (klog s) ! i < disksize s"

lemma write_log_loop_ok:
  assumes "bc s {}" "lg_dev (klog s) = 1" "\<And>i. i \<in> set ts \<Longrightarrow> log_entry s i" "card (dirty_blocks s) < NBUF"
    and "\<And>i. i \<in> set ts \<Longrightarrow> lh_block (klog s) ! i \<in> dirty_blocks s"
    and "\<And>i. i \<in> set ts \<Longrightarrow> log_block (klog s) i \<notin> dirty_blocks s"
  shows "\<exists>t. write_log_loop ts s = Ok () t \<and>
    wrote (map (\<lambda>i. (log_block (klog s) i, blk s (lh_block (klog s) ! i))) ts) s t"
  using assms
proof (induction ts arbitrary: s)
  case Nil
  then show ?case by (simp add: wrote_Nil)
next
  case (Cons i ts)
  let ?L = "log_block (klog s)" and ?B = "\<lambda>i. lh_block (klog s) ! i"
  have e: "log_entry s i" "?B i \<in> dirty_blocks s" "?L i \<notin> dirty_blocks s" using Cons.prems by auto
  then have ne: "?L i \<noteq> ?B i" by auto
  from copy_to_first [OF Cons.prems(1) _ _ ne Cons.prems(4)] e obtain a u b v t where
    t: "bread 1 (?L i) s = Ok a u" "io_only s u" "bread 1 (?B i) u = Ok b v" "io_only s v"
      "copy_held b a v = Ok () t" "copied (?L i) (?B i) s t"
    by (auto simp: log_entry_def)
  note k = io_only_fields(1) [OF t(2)] and w = copied_wrote [OF t(6)]
  have kt: "klog t = klog s" "disksize t = disksize s" "dirty_blocks t = dirty_blocks s" "bc t {}"
    "blk t = (blk s)(?L i := blk s (?B i))"
    using t(6) e(3) io_only_fields(1,2) by (auto simp: copied_def)
  have step: "write_log_loop (i # ts) s = write_log_loop ts t"
    using t(1,3,5) k e(1) Cons.prems(2)
    by (simp add: log_block_def log_entry_def copy_held_def) (simp flip: bind_assoc)
  have "\<exists>u. write_log_loop ts t = Ok () u \<and> wrote (map (\<lambda>i. (?L i, blk t (?B i))) ts) t u"
    using Cons.IH [of t] Cons.prems kt by (simp add: log_entry_def)
  moreover have "blk t (?B j) = blk s (?B j)" if "j \<in> set ts" for j
  proof -
    have "?B j \<in> dirty_blocks s" using Cons.prems(5) that by simp
    then have "?B j \<noteq> ?L i" using e(3) by auto
    then show ?thesis by (simp add: kt(5))
  qed
  ultimately show ?case
    unfolding step using wrote_append [OF w] by (auto cong: map_cong)
qed

lemma install_loop_ok:
  assumes "bc s {}" "lg_dev (klog s) = 1" "\<And>i. i \<in> set ts \<Longrightarrow> log_entry s i" "card (dirty_blocks s) < NBUF"
    and "(\<forall>i \<in> set ts. lh_block (klog s) ! i \<in> dirty_blocks s) \<or> card (dirty_blocks s) + 1 < NBUF"
    and "distinct ts" "inj_on (\<lambda>i. lh_block (klog s) ! i) (set ts)"
    and "\<And>i j. i \<in> set ts \<Longrightarrow> j \<in> set ts \<Longrightarrow> log_block (klog s) i \<noteq> lh_block (klog s) ! j"
  shows "\<exists>t. install_loop ts s = Ok () t \<and>
    wrote (map (\<lambda>i. (lh_block (klog s) ! i, blk s (log_block (klog s) i))) ts) s t"
  using assms
proof (induction ts arbitrary: s)
  case Nil
  then show ?case by (simp add: wrote_Nil)
next
  case (Cons i ts)
  let ?L = "log_block (klog s)" and ?B = "\<lambda>i. lh_block (klog s) ! i"
  have e: "log_entry s i" "?B i \<in> dirty_blocks s \<or> card (dirty_blocks s) + 1 < NBUF" "?B i \<noteq> ?L i"
    using Cons.prems(3,5) Cons.prems(8) [of i i] by auto
  from copy_to_second [OF Cons.prems(1) _ _ e(3) Cons.prems(4) e(2)] e(1) obtain a u b v t where
    t: "bread 1 (?L i) s = Ok a u" "io_only s u" "bread 1 (?B i) u = Ok b v" "io_only s v"
      "copy_held a b v = Ok () t" "copied (?B i) (?L i) s t"
    by (auto simp: log_entry_def)
  note k = io_only_fields(1) [OF t(2)] and w = copied_wrote [OF t(6)]
  have kt: "klog t = klog s" "disksize t = disksize s" "dirty_blocks t = dirty_blocks s - {?B i}" "bc t {}"
    "blk t = (blk s)(?B i := blk s (?L i))"
    using t(6) io_only_fields(1,2) by (auto simp: copied_def)
  have fin: "finite (dirty_blocks s)" by (simp add: dirty_blocks_def dirty_def)
  have step: "install_loop (i # ts) s = install_loop ts t"
    using t(1,3,5) k e(1) Cons.prems(2)
    by (simp add: log_block_def log_entry_def copy_held_def) (simp flip: bind_assoc)
  have "card (dirty_blocks t) \<le> card (dirty_blocks s)" using kt(3) fin by (simp add: card_Diff1_le)
  moreover have "?B j \<noteq> ?B i" if "j \<in> set ts" for j using Cons.prems(6,7) that by (auto simp: inj_on_def)
  ultimately have "\<exists>u. install_loop ts t = Ok () u \<and> wrote (map (\<lambda>i. (?B i, blk t (?L i))) ts) t u"
    using Cons.IH [of t] Cons.prems kt by (auto simp: log_entry_def)
  moreover have "blk t (?L j) = blk s (?L j)" if "j \<in> set ts" for j
    using Cons.prems(8) [of j i] that by (simp add: kt(5))
  ultimately show ?case
    unfolding step using wrote_append [OF w] by (auto cong: map_cong)
qed

text \<open>Reading a block, storing new contents, writing and releasing it.\<close>

lemma rewrite_block:
  assumes "bc s {}" "b < disksize s" "card (dirty_blocks s) < NBUF" "length (f (blk s b)) = BSIZE"
  shows "\<exists>i u v t. bread 1 b s = Ok i u \<and> io_only s u \<and> b_data (bufs u ! i) = blk s b
    \<and> bwrite i (set_bdata i (f (b_data (bufs u ! i))) u) = Ok () v \<and> brelse i v = Ok () t
    \<and> wrote [(b, f (blk s b))] s t"
proof -
  have "card (dirty s) < NBUF" using assms(1,3) by (simp add: card_dirty)
  with bread_eq [OF assms(1,2)] obtain i where i: "free_for s {} b i" "bread 1 b s = Ok i (loaded i b s)"
    by (metis card.empty empty_iff add_0)
  let ?u = "loaded i b s" and ?d = "f (blk s b)"
  have iN: "i < NBUF" "i \<in> {i}" using i(1) by (simp_all add: free_for_def)
  note bu = loaded_bc [OF assms(1) i(1) assms(2)] and nu = loaded_nth [OF assms(1) iN(1)]
  have dat: "b_data (bufs ?u ! i) = blk s b" "b_blockno (bufs ?u ! i) = b" by (simp_all add: nu)
  let ?v = "set_bdata i ?d ?u"
  note v = set_bdata_ok [OF bu iN(2) assms(4)]
  have vn: "bufs ?v ! i = (bufs ?u ! i)\<lparr>b_data := ?d\<rparr>" "j \<noteq> i \<Longrightarrow> bufs ?v ! j = bufs ?u ! j" for j
    using bcD(2) [OF bu] iN by (simp_all add: set_bdata_def upd_buf_nth)
  let ?w = "written i ?v"
  note w = bwrite_eq [OF v(1) iN(2)] written_ok [OF v(1) iN(2)]
  have dw: "disk ?w = (disk s)(b := ?d)" "disk_trace ?w = disk_trace s @ [(b, ?d)]"
    by (simp_all add: written_def Let_def vn(1) dat) (simp_all add: set_bdata_def loaded_def)
  have "agrees ?w i" by (simp add: agrees_def w(4) vn(1) dat dw)
  note r = brelse_eq [OF w(2) iN(2)] released_blk [OF w(2) iN(2)] released_bc [OF w(2) iN(2) this] released_nth [OF w(2) iN(2)]
  let ?t = "released i ?w"
  have "disk ?t = disk ?w" "disk_trace ?t = disk_trace ?w"
    by (simp_all add: released_def link_first_def unlink_def Let_def)
  moreover have "blk ?t = (blk s)(b := ?d)"
    using r(2) w(3) v(2) dat(2) loaded_blk [OF assms(1) i(1)] by simp
  moreover have "dirty_blocks ?t = dirty_blocks s - {b}"
    using released_dirty_blocks [OF w(2) iN(2)] written_dirty_blocks [OF v(1) iN(2)]
      set_bdata_dirty_blocks [OF bu iN(2)] loaded_dirty_blocks [OF assms(1) i(1)] vn(1) dat(2) by simp
  moreover have "io_only s ?t" using io_only_trans io_only_ops by meson
  ultimately have "wrote [(b, ?d)] s ?t" using r(4) dw by (simp add: wrote_def)
  then show ?thesis
    using i(2) w(1) r(1) dat(1) by (intro exI [of _ i] exI [of _ ?u] exI [of _ ?w] exI [of _ ?t]) simp
qed

section \<open>The header block\<close>

lemma get32_put32_append: "get32 (put32 w @ xs) 0 = w" "get32 (put32 w @ xs) (4 + k) = get32 xs k"
proof -
  have "get32 (put32 w @ xs) 0 = get32 (put32 w) 0" by (simp add: get32_def nth_append)
  then show "get32 (put32 w @ xs) 0 = w" by simp
  show "get32 (put32 w @ xs) (4 + k) = get32 xs k" by (simp add: get32_def nth_append add.commute)
qed

lemma get32_concat: "i < length ws \<Longrightarrow> get32 (concat (map put32 ws) @ r) (4 * i) = ws ! i"
proof (induction ws arbitrary: i)
  case (Cons w ws)
  then show ?case
    using get32_put32_append [of w "concat (map put32 ws) @ r"] by (cases i) simp_all
qed simp

lemma length_concat_put32: "length (concat (map put32 ws)) = 4 * length ws"
  by (induction ws) simp_all

lemma put_head:
  assumes "length d = BSIZE" "0 \<le> n" "n \<le> int (length blocks)" "length blocks \<le> LOGSIZE"
  shows "length (put_head d n blocks) = BSIZE" "sint (get32 (put_head d n blocks) 0) = n"
    "i < nat n \<Longrightarrow> get32 (put_head d n blocks) (4 + 4 * i) = blocks ! i"
proof -
  let ?ws = "of_int n # take (nat n) blocks :: u32 list"
  let ?r = "drop (length (concat (map put32 ?ws))) d"
  have p: "put_head d n blocks = concat (map put32 ?ws) @ ?r" by (simp add: put_head_def blit_def)
  have l: "length ?ws = Suc (nat n)" using assms(2,3) by simp
  show "length (put_head d n blocks) = BSIZE"
    using assms l unfolding p length_append length_concat_put32 length_drop by simp
  have "sint (of_int n :: u32) = n"
    using assms by (subst signed_of_int) (simp add: signed_take_bit_int_eq_self)
  then show "sint (get32 (put_head d n blocks) 0) = n"
    unfolding p using get32_concat [of 0 ?ws ?r] by simp
  show "get32 (put_head d n blocks) (4 + 4 * i) = blocks ! i" if "i < nat n"
    unfolding p using get32_concat [of "Suc i" ?ws ?r] l that by simp
qed

lemma blk_clean:
  assumes "bc s {}" "b \<notin> dirty_blocks s"
  shows "blk s b = disk s b"
proof (rule blk_disk)
  fix i
  assume i: "i < NBUF" "holds_block s b i" "b_valid (bufs s ! i)"
  then have "\<not> b_dirty (bufs s ! i)" using assms(2) by (auto simp: dirty_blocks_def dirty_def holds_block_def)
  with bcD(4) [OF assms(1) i(1)] i show "b_data (bufs s ! i) = disk s b"
    by (auto simp: buf_ok_def Let_def holds_block_def)
qed

lemma write_head_ok:
  assumes "bc s {}" "lg_dev (klog s) = 1" "lg_start (klog s) < disksize s" "card (dirty_blocks s) < NBUF"
    and "length (lh_block (klog s)) = LOGSIZE" "0 \<le> lh_n (klog s)" "lh_n (klog s) \<le> int LOGSIZE"
  shows "\<exists>t. write_head s = Ok () t \<and>
    wrote [(lg_start (klog s), put_head (blk s (lg_start (klog s))) (lh_n (klog s)) (lh_block (klog s)))] s t"
proof -
  let ?b = "lg_start (klog s)" and ?f = "\<lambda>d. put_head d (lh_n (klog s)) (lh_block (klog s))"
  have "length (?f (blk s ?b)) = BSIZE" using assms(5-7) length_blk [OF assms(1)] by (intro put_head(1)) simp_all
  from rewrite_block [OF assms(1,3,4), of ?f, OF this] obtain i u v t where
    t: "bread 1 ?b s = Ok i u" "io_only s u" "b_data (bufs u ! i) = blk s ?b"
      "bwrite i (set_bdata i (?f (b_data (bufs u ! i))) u) = Ok () v" "brelse i v = Ok () t"
      "wrote [(?b, ?f (blk s ?b))] s t"
    by blast
  then show ?thesis
    using assms(2,5-7) io_only_fields(1) [OF t(2)] by (simp add: write_head_def)
qed

text \<open>The log record is not part of the cache.\<close>

lemma upd_log_bc [simp]:
  "bc (upd_log f s) H = bc s H" "blk (upd_log f s) = blk s" "dirty_blocks (upd_log f s) = dirty_blocks s"
  "disk (upd_log f s) = disk s" "disk_trace (upd_log f s) = disk_trace s" "disksize (upd_log f s) = disksize s"
  "klog (upd_log f s) = f (klog s)" "bufs (upd_log f s) = bufs s" "agrees (upd_log f s) i = agrees s i"
proof -
  have e: "alone (upd_log f s) = alone s" "my_pid (upd_log f s) = my_pid s" "ring (upd_log f s) = ring s"
    by (simp_all add: upd_log_def alone_def my_pid_def ring_def fun_eq_iff)
  show "bc (upd_log f s) H = bc s H"
    using e by (simp add: bc_def buf_ok_def one_each_def upd_log_def)
  show "blk (upd_log f s) = blk s" by (rule blk_cong) (simp_all add: upd_log_def)
  show "dirty_blocks (upd_log f s) = dirty_blocks s"
    "disk (upd_log f s) = disk s" "disk_trace (upd_log f s) = disk_trace s" "disksize (upd_log f s) = disksize s"
    "klog (upd_log f s) = f (klog s)" "bufs (upd_log f s) = bufs s" "agrees (upd_log f s) i = agrees s i"
    by (simp_all add: dirty_blocks_def dirty_def upd_log_def agrees_def)
qed

lemma upd_log_upd_buf: "upd_log f (upd_buf i g s) = upd_buf i g (upd_log f s)"
  by (rule kstate.equality) (simp_all add: upd_log_def upd_buf_def)

lemma io_only_upd_log:
  assumes "io_only s t"
  shows "io_only (upd_log f s) (upd_log f t)"
proof -
  from assms obtain d tr bs nx pv where t: "t = s\<lparr>disk := d, disk_trace := tr, bufs := bs, b_next := nx, b_prev := pv\<rparr>"
    by (rule io_onlyE)
  show ?thesis
    by (rule io_onlyI [where d = d and tr = tr and bs = bs and nx = nx and pv = pv])
      (rule kstate.equality, simp_all add: t upd_log_def)
qed

lemma my_pid_upd_log [simp]: "my_pid (upd_log f s) = my_pid s"
  by (simp add: upd_log_def my_pid_def)

text \<open>Reading a block and releasing it, with a change of the log record in between.\<close>

definition looked :: "kstate \<Rightarrow> kstate \<Rightarrow> bool" where
  "looked s t \<longleftrightarrow> bc t {} \<and> io_only s t \<and> disk t = disk s \<and> disk_trace t = disk_trace s \<and> blk t = blk s
     \<and> dirty_blocks t = dirty_blocks s"

lemma look_block:
  assumes "bc s {}" "b < disksize s" "card (dirty_blocks s) < NBUF"
  shows "\<exists>i u. bread 1 b s = Ok i u \<and> io_only s u \<and> b_data (bufs u ! i) = blk s b
    \<and> (\<forall>f. \<exists>t. brelse i (upd_log f u) = Ok () t \<and> looked (upd_log f s) t)"
proof -
  have "card (dirty s) < NBUF" using assms(1,3) by (simp add: card_dirty)
  with bread_eq [OF assms(1,2)] obtain i where i: "free_for s {} b i" "bread 1 b s = Ok i (loaded i b s)"
    by (metis card.empty empty_iff add_0)
  let ?u = "loaded i b s"
  have iN: "i < NBUF" "i \<in> {i}" using i(1) by (simp_all add: free_for_def)
  note bu = loaded_bc [OF assms(1) i(1) assms(2)] and nu = loaded_nth [OF assms(1) iN(1)]
  have "\<exists>t. brelse i (upd_log f ?u) = Ok () t \<and> looked (upd_log f s) t" for f
  proof -
    have b: "bc (upd_log f ?u) {i}" "agrees (upd_log f ?u) i"
      using bu loaded_agrees [OF assms(1) i(1)] by simp_all
    note r = brelse_eq [OF b(1) iN(2)] released_blk [OF b(1) iN(2)] released_bc [OF b(1) iN(2) b(2)]
      released_dirty_blocks [OF b(1) iN(2)]
    have "upd_log f ?u = loaded i b (upd_log f s)"
      by (simp add: loaded_def upd_log_upd_buf)
    then have "io_only (upd_log f s) (released i (upd_log f ?u))"
      using io_only_trans [OF io_only_ops(2) io_only_ops(3)] by metis
    moreover have "disk (released i (upd_log f ?u)) = disk s" "disk_trace (released i (upd_log f ?u)) = disk_trace s"
      by (simp_all add: released_def link_first_def unlink_def Let_def) (simp_all add: loaded_def)
    ultimately have "looked (upd_log f s) (released i (upd_log f ?u))"
      using r(2-5) loaded_blk [OF assms(1) i(1)] loaded_dirty_blocks [OF assms(1) i(1)] by (simp add: looked_def)
    with r(1) show ?thesis by blast
  qed
  then show ?thesis
    using i(2) nu(1) by (intro exI [of _ i] exI [of _ ?u]) simp
qed

lemma upd_log_id: "upd_log (\<lambda>l. l) s = s"
  by (simp add: upd_log_def)

definition head_n :: "u8 list \<Rightarrow> int" where
  "head_n h = sint (get32 h 0)"

definition head_block :: "u8 list \<Rightarrow> nat \<Rightarrow> u32" where
  "head_block h i = get32 h (4 + 4 * i)"

lemma read_head_ok:
  assumes "bc s {}" "lg_dev (klog s) = 1" "lg_start (klog s) < disksize s" "card (dirty_blocks s) < NBUF"
    and "length (lh_block (klog s)) = LOGSIZE" "h = blk s (lg_start (klog s))" "head_n h \<le> int LOGSIZE"
  shows "\<exists>t. read_head s = Ok () t \<and> looked (upd_log (\<lambda>l. l\<lparr>lh_n := head_n h,
    lh_block := map (head_block h) [0..<nat (head_n h)] @ drop (nat (head_n h)) (lh_block l)\<rparr>) s) t"
proof -
  let ?b = "lg_start (klog s)"
  let ?f = "\<lambda>l. l\<lparr>lh_n := head_n h,
    lh_block := map (head_block h) [0..<nat (head_n h)] @ drop (nat (head_n h)) (lh_block l)\<rparr>"
  from look_block [OF assms(1,3,4)] obtain i u where u: "bread 1 ?b s = Ok i u" "io_only s u"
    "b_data (bufs u ! i) = h" "\<forall>f. \<exists>t. brelse i (upd_log f u) = Ok () t \<and> looked (upd_log f s) t"
    unfolding assms(6) by blast
  then obtain t where t: "brelse i (upd_log ?f u) = Ok () t" "looked (upd_log ?f s) t" by blast
  have k: "klog u = klog s" using u(2) by (rule io_only_fields)
  have "read_head s = brelse i (upd_log ?f u)"
    using assms(2,5,7) u(1,3) k
    by (simp add: read_head_def Let_def head_n_def head_block_def [abs_def] upd_log_def)
  with t show ?thesis by auto
qed

section \<open>Commit and recovery as sequences of writes\<close>

text \<open>The geometry of the log: it fits on the disk, and \<open>in_log\<close> are its blocks.\<close>

definition in_log :: "klog \<Rightarrow> u32 \<Rightarrow> bool" where
  "in_log l b \<longleftrightarrow> unat (lg_start l) \<le> unat b \<and> unat b < unat (lg_start l) + nat (lg_size l)"

definition geometry :: "kstate \<Rightarrow> bool" where
  "geometry s \<longleftrightarrow> lg_dev (klog s) = 1 \<and> length (lh_block (klog s)) = LOGSIZE \<and> 0 < lg_size (klog s)
     \<and> unat (lg_start (klog s)) + nat (lg_size (klog s)) \<le> unat (disksize s)"

definition entries_ok :: "kstate \<Rightarrow> bool" where
  "entries_ok s \<longleftrightarrow> 0 \<le> lh_n (klog s) \<and> lh_n (klog s) \<le> int LOGSIZE \<and> lh_n (klog s) < lg_size (klog s)
     \<and> distinct (take (nat (lh_n (klog s))) (lh_block (klog s)))
     \<and> (\<forall>b \<in> set (take (nat (lh_n (klog s))) (lh_block (klog s))). b < disksize s \<and> \<not> in_log (klog s) b)"

lemma log_geometry_upd [simp]:
  "in_log (l\<lparr>lh_n := n\<rparr>) = in_log l" "in_log (l\<lparr>lh_block := bl\<rparr>) = in_log l"
  "in_log (l\<lparr>lg_outstanding := k\<rparr>) = in_log l" "in_log (l\<lparr>lg_committing := c\<rparr>) = in_log l"
  "log_block (l\<lparr>lh_n := n\<rparr>) = log_block l" "log_block (l\<lparr>lh_block := bl\<rparr>) = log_block l"
  by (auto simp: in_log_def log_block_def fun_eq_iff)

lemma log_block_unat:
  assumes "geometry s" "int i + 1 < lg_size (klog s)"
  shows "unat (log_block (klog s) i) = unat (lg_start (klog s)) + i + 1"
    "in_log (klog s) (log_block (klog s) i)" "log_block (klog s) i < disksize s"
proof -
  have l: "unat (lg_start (klog s)) + i + 1 < unat (disksize s)"
    using assms by (auto simp: geometry_def)
  then have "unat (lg_start (klog s)) + i + 1 < 2 ^ 32" using unat32 [of "disksize s"] by simp
  then show u: "unat (log_block (klog s) i) = unat (lg_start (klog s)) + i + 1"
    by (simp add: log_block_def unat_word_ariths unat_of_nat)
  show "in_log (klog s) (log_block (klog s) i)" using assms(2) by (simp add: in_log_def u)
  show "log_block (klog s) i < disksize s" using l u by (simp add: word_less_nat_alt)
qed

lemma start_in_log: "geometry s \<Longrightarrow> in_log (klog s) (lg_start (klog s)) \<and> lg_start (klog s) < disksize s"
  by (auto simp: geometry_def in_log_def word_less_nat_alt)

lemma entriesD:
  assumes "geometry s" "entries_ok s" "i < nat (lh_n (klog s))"
  shows "log_entry s i" "\<not> in_log (klog s) (lh_block (klog s) ! i)" "in_log (klog s) (log_block (klog s) i)"
    "lh_block (klog s) ! i \<in> set (take (nat (lh_n (klog s))) (lh_block (klog s)))"
proof -
  have n: "nat (lh_n (klog s)) \<le> length (lh_block (klog s))" using assms(1,2) by (auto simp: geometry_def entries_ok_def)
  show mem: "lh_block (klog s) ! i \<in> set (take (nat (lh_n (klog s))) (lh_block (klog s)))"
    using n assms(3) by (metis length_take min.absorb2 nth_mem nth_take)
  have g: "int i + 1 < lg_size (klog s)" using assms(2,3) by (auto simp: entries_ok_def)
  show "\<not> in_log (klog s) (lh_block (klog s) ! i)" using mem assms(2) by (simp add: entries_ok_def)
  show "log_entry s i" "in_log (klog s) (log_block (klog s) i)"
    using mem assms(2,3) n log_block_unat [OF assms(1) g] by (auto simp: log_entry_def entries_ok_def)
qed

lemma inj_entries:
  assumes "geometry s" "entries_ok s"
  shows "inj_on (\<lambda>i. lh_block (klog s) ! i) (set [0..<nat (lh_n (klog s))])"
    "inj_on (log_block (klog s)) (set [0..<nat (lh_n (klog s))])"
proof -
  let ?n = "nat (lh_n (klog s))"
  have n: "?n \<le> length (lh_block (klog s))" using assms by (auto simp: geometry_def entries_ok_def)
  show "inj_on (\<lambda>i. lh_block (klog s) ! i) (set [0..<?n])"
  proof (rule inj_onI)
    fix i j
    assume *: "i \<in> set [0..<?n]" "j \<in> set [0..<?n]" "lh_block (klog s) ! i = lh_block (klog s) ! j"
    then have "take ?n (lh_block (klog s)) ! i = take ?n (lh_block (klog s)) ! j" by simp
    moreover have "distinct (take ?n (lh_block (klog s)))" using assms(2) by (simp add: entries_ok_def)
    ultimately show "i = j" using * n nth_eq_iff_index_eq [of "take ?n (lh_block (klog s))" i j] by simp
  qed
  show "inj_on (log_block (klog s)) (set [0..<?n])"
  proof (rule inj_onI)
    fix i j
    assume *: "i \<in> set [0..<?n]" "j \<in> set [0..<?n]" "log_block (klog s) i = log_block (klog s) j"
    then have "int i + 1 < lg_size (klog s)" "int j + 1 < lg_size (klog s)" using assms(2) by (auto simp: entries_ok_def)
    from this [THEN log_block_unat(1) [OF assms(1)]] arg_cong [OF *(3), of unat] show "i = j" by linarith
  qed
qed

text \<open>A transaction that is complete: the changed blocks are the ones in the log's list.\<close>

definition committable :: "kstate \<Rightarrow> bool" where
  "committable s \<longleftrightarrow> bc s {} \<and> geometry s \<and> entries_ok s \<and> 0 < lh_n (klog s) \<and> lh_n (klog s) < int NBUF
     \<and> dirty_blocks s = set (take (nat (lh_n (klog s))) (lh_block (klog s)))"

lemma committable_card:
  assumes "committable s"
  shows "card (dirty_blocks s) = nat (lh_n (klog s))" "card (dirty_blocks s) < NBUF"
proof -
  have "nat (lh_n (klog s)) \<le> length (lh_block (klog s))"
    using assms by (auto simp: committable_def geometry_def entries_ok_def)
  then show "card (dirty_blocks s) = nat (lh_n (klog s))"
    using assms by (simp add: committable_def entries_ok_def distinct_card)
  then show "card (dirty_blocks s) < NBUF" using assms by (auto simp: committable_def)
qed

lemma wrote_keeps:
  assumes "wrote ws s t"
  shows "bc t {}" "klog t = klog s" "disksize t = disksize s" "geometry t = geometry s" "entries_ok t = entries_ok s"
  using assms io_only_fields(1,2) [of s t] by (auto simp: wrote_def geometry_def entries_ok_def)

lemma wrote_log_only:
  assumes "wrote ws s t" "\<And>b. b \<in> fst ` set ws \<Longrightarrow> b \<notin> dirty_blocks s"
  shows "dirty_blocks t = dirty_blocks s"
  using assms by (auto simp: wrote_def)

lemma log_block_start: "geometry s \<Longrightarrow> int i + 1 < lg_size (klog s) \<Longrightarrow> log_block (klog s) i \<noteq> lg_start (klog s)"
  using log_block_unat(1) [of s i] by auto

text \<open>Up to the header: the blocks are in the log, and the header names their homes.\<close>

definition log_writes :: "kstate \<Rightarrow> (u32 \<times> u8 list) list" where
  "log_writes s = (let l = klog s in
     map (\<lambda>i. (log_block l i, blk s (lh_block l ! i))) [0..<nat (lh_n l)]
       @ [(lg_start l, put_head (blk s (lg_start l)) (lh_n l) (lh_block l))])"

lemma commit_log:
  assumes "committable s"
  shows "\<exists>t u. write_log s = Ok () t \<and> write_head t = Ok () u \<and> wrote (log_writes s) s u
    \<and> dirty_blocks u = dirty_blocks s"
proof -
  let ?l = "klog s" and ?n = "nat (lh_n (klog s))"
  let ?w = "map (\<lambda>i. (log_block ?l i, blk s (lh_block ?l ! i))) [0..<?n]"
  have g: "geometry s" and e: "entries_ok s" and bc: "bc s {}" and d: "dirty_blocks s = set (take ?n (lh_block ?l))"
    using assms by (auto simp: committable_def)
  note c = committable_card [OF assms] and ent = entriesD [OF g e] and st = start_in_log [OF g]
  have nd: "b \<notin> dirty_blocks s" if "in_log ?l b" for b using that e d by (auto simp: entries_ok_def)
  have dev: "lg_dev ?l = 1" "length (lh_block ?l) = LOGSIZE" using g by (simp_all add: geometry_def)
  obtain t where t: "write_log s = Ok () t" "wrote ?w s t"
    using write_log_loop_ok [OF bc dev(1), of "[0..<?n]"] ent d c(2) nd by (auto simp: write_log_def)
  note k = wrote_keeps [OF t(2)]
  have dt: "dirty_blocks t = dirty_blocks s" using ent(3) nd by (intro wrote_log_only [OF t(2)]) auto
  have "lg_start ?l \<notin> fst ` set ?w"
    using log_block_start [OF g] e by (force simp: entries_ok_def)
  from apply_writes_other [OF this, of "blk s"] have bs: "blk t (lg_start ?l) = blk s (lg_start ?l)"
    using t(2) by (simp add: wrote_def)
  obtain u where u: "write_head t = Ok () u"
    "wrote [(lg_start ?l, put_head (blk s (lg_start ?l)) (lh_n ?l) (lh_block ?l))] t u"
    using write_head_ok [OF k(1)] k dt c(2) dev st bs e by (auto simp: entries_ok_def)
  have "dirty_blocks u = dirty_blocks t" using st nd dt by (intro wrote_log_only [OF u(2)]) auto
  then show ?thesis
    using t(1) u(1) dt wrote_append [OF t(2) u(2)] by (auto simp: log_writes_def Let_def)
qed

lemma log_writes_blk:
  assumes "geometry s" "entries_ok s"
  shows "i < nat (lh_n (klog s)) \<Longrightarrow> apply_writes (log_writes s) D (log_block (klog s) i) = blk s (lh_block (klog s) ! i)"
    and "apply_writes (log_writes s) D (lg_start (klog s))
      = put_head (blk s (lg_start (klog s))) (lh_n (klog s)) (lh_block (klog s))"
    and "\<not> in_log (klog s) b \<Longrightarrow> apply_writes (log_writes s) D b = D b"
proof -
  note ent = entriesD [OF assms] and st = start_in_log [OF assms(1)]
  show "apply_writes (log_writes s) D (log_block (klog s) i) = blk s (lh_block (klog s) ! i)"
    if "i < nat (lh_n (klog s))"
  proof -
    have "int i + 1 < lg_size (klog s)" using that assms(2) by (auto simp: entries_ok_def)
    from log_block_start [OF assms(1) this] that inj_entries(2) [OF assms]
      apply_writes_map [of "log_block (klog s)" "[0..<nat (lh_n (klog s))]" i "\<lambda>i. blk s (lh_block (klog s) ! i)" D]
    show ?thesis by (simp add: log_writes_def Let_def)
  qed
  show "apply_writes (log_writes s) D (lg_start (klog s))
      = put_head (blk s (lg_start (klog s))) (lh_n (klog s)) (lh_block (klog s))"
    by (simp add: log_writes_def Let_def)
  show "apply_writes (log_writes s) D b = D b" if "\<not> in_log (klog s) b"
    using that ent(3) st by (intro apply_writes_other) (auto simp: log_writes_def Let_def)
qed

text \<open>Installing: from a state whose log holds the blocks named by the entries.\<close>

lemma install_ok:
  assumes "bc s {}" "geometry s" "entries_ok s" "card (dirty_blocks s) < NBUF"
    and "(\<forall>i < nat (lh_n (klog s)). lh_block (klog s) ! i \<in> dirty_blocks s) \<or> card (dirty_blocks s) + 1 < NBUF"
    and "dirty_blocks s \<subseteq> set (take (nat (lh_n (klog s))) (lh_block (klog s)))"
  shows "\<exists>t u. install_trans s = Ok () t \<and> write_head (upd_log (\<lambda>l. l\<lparr>lh_n := 0\<rparr>) t) = Ok () u
    \<and> wrote (map (\<lambda>i. (lh_block (klog s) ! i, blk s (log_block (klog s) i))) [0..<nat (lh_n (klog s))]
        @ [(lg_start (klog s), put_head (blk s (lg_start (klog s))) 0 (lh_block (klog s)))])
      (upd_log (\<lambda>l. l\<lparr>lh_n := 0\<rparr>) s) u \<and> dirty_blocks u = {}"
proof -
  let ?l = "klog s" and ?n = "nat (lh_n (klog s))" and ?z = "upd_log (\<lambda>l. l\<lparr>lh_n := 0\<rparr>)"
  let ?w = "map (\<lambda>i. (lh_block ?l ! i, blk s (log_block ?l i))) [0..<?n]"
  note ent = entriesD [OF assms(2,3)] and st = start_in_log [OF assms(2)]
  have dev: "lg_dev ?l = 1" "length (lh_block ?l) = LOGSIZE" using assms(2) by (simp_all add: geometry_def)
  have ne: "log_block ?l i \<noteq> lh_block ?l ! j" if "i < ?n" "j < ?n" for i j
    using ent(3) [OF that(1)] ent(2) [OF that(2)] by auto
  obtain t where t: "install_trans s = Ok () t" "wrote ?w s t"
    using install_loop_ok [OF assms(1) dev(1), of "[0..<?n]"] ent(1) assms(4,5) inj_entries(1) [OF assms(2,3)] ne
    by (auto simp: install_trans_def)
  note k = wrote_keeps [OF t(2)]
  have n: "?n \<le> length (lh_block ?l)" using assms(2,3) by (auto simp: geometry_def entries_ok_def)
  have "set (take ?n (lh_block ?l)) \<subseteq> fst ` set ?w"
    using n by (auto simp: in_set_conv_nth image_iff intro!: bexI)
  then have dt: "dirty_blocks t = {}" using t(2) assms(6) by (auto simp: wrote_def)
  have "lg_start ?l \<notin> fst ` set ?w" using ent(2) st by auto
  from apply_writes_other [OF this, of "blk s"] have bs: "blk t (lg_start ?l) = blk s (lg_start ?l)"
    using t(2) by (simp add: wrote_def)
  obtain u where u: "write_head (?z t) = Ok () u"
    "wrote [(lg_start ?l, put_head (blk s (lg_start ?l)) 0 (lh_block ?l))] (?z t) u"
    using write_head_ok [of "?z t"] k dt dev st bs by auto
  have "io_only (?z s) (?z t)" using t(2) by (intro io_only_upd_log) (simp add: wrote_def)
  then have "wrote ?w (?z s) (?z t)" using t(2) by (simp add: wrote_def)
  moreover have "dirty_blocks u = {}" using u(2) dt by (simp add: wrote_def)
  ultimately show ?thesis using t(1) u wrote_append by blast
qed

lemma wrote_upd_log: "wrote ws s t \<Longrightarrow> wrote ws (upd_log f s) (upd_log f t)"
  by (simp add: wrote_def io_only_upd_log)

text \<open>After the header: the homes, and the header that erases the transaction.\<close>

definition home_writes :: "kstate \<Rightarrow> (u32 \<times> u8 list) list" where
  "home_writes s = (let l = klog s in
     map (\<lambda>i. (lh_block l ! i, blk s (lh_block l ! i))) [0..<nat (lh_n l)]
       @ [(lg_start l, put_head (put_head (blk s (lg_start l)) (lh_n l) (lh_block l)) 0 (lh_block l))])"

lemma commit_ok:
  assumes "committable s"
  shows "\<exists>t. commit s = Ok () t \<and> dirty_blocks t = {}
    \<and> wrote (log_writes s @ home_writes s) (upd_log (\<lambda>l. l\<lparr>lh_n := 0\<rparr>) s) t"
proof -
  let ?l = "klog s" and ?z = "upd_log (\<lambda>l. l\<lparr>lh_n := 0\<rparr>)"
  have g: "geometry s" and e: "entries_ok s" and p: "0 < lh_n ?l"
    and d: "dirty_blocks s = set (take (nat (lh_n ?l)) (lh_block ?l))"
    using assms by (auto simp: committable_def)
  from commit_log [OF assms] obtain t u where u: "write_log s = Ok () t" "write_head t = Ok () u"
    "wrote (log_writes s) s u" "dirty_blocks u = dirty_blocks s" by blast
  note k = wrote_keeps [OF u(3)] and c = committable_card [OF assms]
  have b: "blk u = apply_writes (log_writes s) (blk s)" using u(3) by (simp add: wrote_def)
  from install_ok [OF k(1)] k u(4) g e c(2) d entriesD(4) [OF g e] obtain v w where
    v: "install_trans u = Ok () v" "write_head (?z v) = Ok () w" "dirty_blocks w = {}"
      "wrote (map (\<lambda>i. (lh_block ?l ! i, blk u (log_block ?l i))) [0..<nat (lh_n ?l)]
        @ [(lg_start ?l, put_head (blk u (lg_start ?l)) 0 (lh_block ?l))]) (?z u) w"
    by auto
  have "map (\<lambda>i. (lh_block ?l ! i, blk u (log_block ?l i))) [0..<nat (lh_n ?l)]
        @ [(lg_start ?l, put_head (blk u (lg_start ?l)) 0 (lh_block ?l))] = home_writes s"
    using log_writes_blk(1,2) [OF g e] by (simp add: home_writes_def Let_def b)
  then have "wrote (log_writes s @ home_writes s) (?z s) w"
    using v(4) wrote_append [OF wrote_upd_log [OF u(3)]] by metis
  then show ?thesis using u(1,2) v(1-3) p by (simp add: commit_def)
qed

text \<open>The disk after a commit.\<close>

lemma commit_disk:
  assumes "geometry s" "entries_ok s"
  defines "D \<equiv> apply_writes (log_writes s @ home_writes s) (disk s)"
  shows "D (lg_start (klog s)) = put_head (put_head (blk s (lg_start (klog s))) (lh_n (klog s)) (lh_block (klog s))) 0 (lh_block (klog s))"
    and "i < nat (lh_n (klog s)) \<Longrightarrow> D (lh_block (klog s) ! i) = blk s (lh_block (klog s) ! i)"
    and "\<not> in_log (klog s) b \<Longrightarrow> b \<notin> set (take (nat (lh_n (klog s))) (lh_block (klog s))) \<Longrightarrow> D b = disk s b"
proof -
  let ?n = "nat (lh_n (klog s))"
  let ?w = "map (\<lambda>i. (lh_block (klog s) ! i, blk s (lh_block (klog s) ! i))) [0..<?n]"
  note ent = entriesD [OF assms(1,2)] and st = start_in_log [OF assms(1)]
  show "D (lg_start (klog s)) = put_head (put_head (blk s (lg_start (klog s))) (lh_n (klog s)) (lh_block (klog s))) 0 (lh_block (klog s))"
    by (simp add: D_def home_writes_def Let_def)
  show "D (lh_block (klog s) ! i) = blk s (lh_block (klog s) ! i)" if "i < ?n"
    using that ent(2) [OF that] st inj_entries(1) [OF assms(1,2)]
      apply_writes_map [of "\<lambda>i. lh_block (klog s) ! i" "[0..<?n]" i "\<lambda>i. blk s (lh_block (klog s) ! i)"]
    by (auto simp: D_def home_writes_def Let_def)
  show "D b = disk s b" if "\<not> in_log (klog s) b" "b \<notin> set (take ?n (lh_block (klog s)))"
  proof -
    have "b \<notin> fst ` set (home_writes s)" using that st ent(4) by (auto simp: home_writes_def Let_def)
    then show ?thesis
      using log_writes_blk(3) [OF assms(1,2) that(1)] by (simp add: D_def apply_writes_other)
  qed
qed

text \<open>Recovery: what the header on the disk names is copied to its homes.\<close>

definition head_ok :: "kstate \<Rightarrow> bool" where
  "head_ok s \<longleftrightarrow> (let h = disk s (lg_start (klog s)); n = head_n h in
     0 \<le> n \<and> n \<le> int LOGSIZE \<and> n < lg_size (klog s) \<and> distinct (map (head_block h) [0..<nat n])
     \<and> (\<forall>i < nat n. head_block h i < disksize s \<and> \<not> in_log (klog s) (head_block h i)))"

lemma recover_ok:
  assumes "bc s {}" "dirty_blocks s = {}" "geometry s" "head_ok s"
  defines "h \<equiv> disk s (lg_start (klog s))"
  shows "\<exists>t bl. recover_from_log s = Ok () t \<and> bc t {} \<and> dirty_blocks t = {} \<and> geometry t \<and> lh_n (klog t) = 0
    \<and> disk t = apply_writes (map (\<lambda>i. (head_block h i, disk s (log_block (klog s) i))) [0..<nat (head_n h)]
      @ [(lg_start (klog s), put_head h 0 bl)]) (disk s)"
proof -
  let ?l = "klog s" and ?n = "nat (head_n h)" and ?z = "upd_log (\<lambda>l. l\<lparr>lh_n := 0\<rparr>)"
  let ?r = "upd_log (\<lambda>l. l\<lparr>lh_n := head_n h, lh_block := map (head_block h) [0..<?n] @ drop ?n (lh_block l)\<rparr>) s"
  have h: "0 \<le> head_n h" "head_n h \<le> int LOGSIZE" "head_n h < lg_size ?l" "distinct (map (head_block h) [0..<?n])"
    "\<And>i. i < ?n \<Longrightarrow> head_block h i < disksize s \<and> \<not> in_log ?l (head_block h i)"
    using assms(4) unfolding head_ok_def Let_def h_def by auto
  have bd: "blk s = disk s" using blk_clean [OF assms(1)] assms(2) by auto
  have len: "length (lh_block ?l) = LOGSIZE" "lg_dev ?l = 1" using assms(3) by (simp_all add: geometry_def)
  obtain t where t: "read_head s = Ok () t" "looked ?r t"
    using read_head_ok [OF assms(1) len(2) _ _ len(1), of h] start_in_log [OF assms(3)] assms(2) h(2)
    by (auto simp: bd h_def)
  have kt: "klog t = klog ?r" "disksize t = disksize s" "bc t {}" "dirty_blocks t = {}" "blk t = disk s" "disk t = disk s"
    using t(2) io_only_fields(1,2) [of ?r t] assms(2) bd by (auto simp: looked_def)
  have L: "log_block (klog t) = log_block ?l" "in_log (klog t) = in_log ?l"
    by (simp_all add: kt(1))
  have tk: "take ?n (lh_block (klog t)) = map (head_block h) [0..<?n]" by (simp add: kt(1))
  have g: "geometry t" using assms(3) h(1,2) by (simp add: geometry_def kt(1,2))
  have e: "entries_ok t" using h tk by (simp add: entries_ok_def kt(1,2) L)
  from install_ok [OF kt(3) g e] kt obtain u v where v: "install_trans t = Ok () u" "write_head (?z u) = Ok () v"
    "dirty_blocks v = {}"
    "wrote (map (\<lambda>i. (lh_block (klog t) ! i, disk s (log_block ?l i))) [0..<?n]
        @ [(lg_start ?l, put_head h 0 (lh_block (klog t)))]) (?z t) v"
    by (auto simp: L h_def)
  have m: "map (\<lambda>i. (lh_block (klog t) ! i, disk s (log_block ?l i))) [0..<?n]
      = map (\<lambda>i. (head_block h i, disk s (log_block ?l i))) [0..<?n]"
    by (intro map_cong) (auto simp: kt(1) nth_append)
  have "klog v = klog (?z t)" "geometry v" using wrote_keeps(2,4) [OF v(4)] g by (auto simp: geometry_def)
  then show ?thesis
    using t(1) v kt(6) unfolding m by (auto simp: recover_from_log_def wrote_def)
qed

end
