(* ===== verification/Txn.thy ===== *)
theory Txn
  imports Log
begin

text \<open>
  Transactions as the file system uses the log: \<open>begin_op\<close>, any number of blocks changed in the
  cache and handed to \<open>log_write\<close>, \<open>end_op\<close>. While a transaction is open, the blocks that differ
  between cache and disk are the ones listed in the log; the file system sees a plain map from
  block numbers to contents.
\<close>

section \<open>The invariant\<close>

definition logged :: "kstate \<Rightarrow> u32 set" where
  "logged s = set (take (nat (lh_n (klog s))) (lh_block (klog s)))"

definition txn :: "kstate \<Rightarrow> nat set \<Rightarrow> bool" where
  "txn s H \<longleftrightarrow> bc s H \<and> geometry s \<and> entries_ok s \<and> dirty_blocks s = logged s
     \<and> 0 < lg_outstanding (klog s) \<and> \<not> lg_committing (klog s)"

text \<open>Everything but the cache, the disk and the log is unchanged.\<close>

definition log_only :: "kstate \<Rightarrow> kstate \<Rightarrow> bool" where
  "log_only s t \<longleftrightarrow> (\<exists>l. io_only (upd_log (\<lambda>_. l) s) t)"

lemma upd_log_upd_log: "upd_log f (upd_log g s) = upd_log (\<lambda>l. f (g l)) s"
  by (simp add: upd_log_def)

lemma log_only_refl [simp]: "log_only s s"
  unfolding log_only_def by (rule exI [of _ "klog s"]) (simp add: upd_log_def)

lemma log_only_trans [trans]:
  assumes "log_only s t" "log_only t u"
  shows "log_only s u"
proof -
  from assms obtain l l' where l: "io_only (upd_log (\<lambda>_. l) s) t" "io_only (upd_log (\<lambda>_. l') t) u"
    by (auto simp: log_only_def)
  then have "io_only (upd_log (\<lambda>_. l') s) (upd_log (\<lambda>_. l') t)"
    using io_only_upd_log [OF l(1), of "\<lambda>_. l'"] by (simp add: upd_log_upd_log)
  then show ?thesis using l(2) io_only_trans by (auto simp: log_only_def)
qed

lemma io_log_only: "io_only s t \<Longrightarrow> log_only s t"
  unfolding log_only_def by (rule exI [of _ "klog s"]) (simp add: upd_log_def)

lemma upd_log_only [simp]: "log_only s (upd_log f s)"
  unfolding log_only_def by (rule exI [of _ "f (klog s)"]) (simp add: upd_log_def)

interpretation lo: frame log_only
  by unfold_locales (auto intro: log_only_trans)

section \<open>Logging a block\<close>

lemma dirty_blocks_mark:
  assumes "i < NBUF" "length (bufs s) = NBUF"
  shows "dirty_blocks (upd_buf i (\<lambda>k. k\<lparr>b_dirty := True\<rparr>) s) = insert (b_blockno (bufs s ! i)) (dirty_blocks s)"
proof -
  let ?t = "upd_buf i (\<lambda>k. k\<lparr>b_dirty := True\<rparr>) s"
  have "b_blockno (bufs ?t ! j) = b_blockno (bufs s ! j) \<and> b_dirty (bufs ?t ! j) = (j = i \<or> b_dirty (bufs s ! j))" for j
    using assms by (cases "j = i") (simp_all add: upd_buf_nth)
  then have "dirty ?t = insert i (dirty s)" "\<And>j. b_blockno (bufs ?t ! j) = b_blockno (bufs s ! j)"
    using assms(1) by (auto simp: dirty_def)
  then show ?thesis by (simp add: dirty_blocks_def)
qed

text \<open>The list of the log after \<open>log_write\<close> of block \<open>b\<close>.\<close>

definition log_add :: "u32 \<Rightarrow> klog \<Rightarrow> klog" where
  "log_add b l = (if b \<in> set (take (nat (lh_n l)) (lh_block l)) then l
     else l\<lparr>lh_block := (lh_block l)[nat (lh_n l) := b], lh_n := lh_n l + 1\<rparr>)"

lemma upd_log_cong: "f (klog s) = g (klog s) \<Longrightarrow> upd_log f s = upd_log g s"
  by (simp add: upd_log_def)

lemma upd_log_taken [simp]: "upd_log f (taken lk s) = taken lk (upd_log f s)" "quiet (upd_log f s) = quiet s"
    "lock_free lk (upd_log f s) = lock_free lk s" "cpu_ok (upd_log f s) = cpu_ok s"
  by (simp_all add: upd_log_def)

lemma log_write_eq:
  assumes "quiet s" "entries_ok s" "geometry s" "0 < lg_outstanding (klog s)" "lh_n (klog s) + 1 < lg_size (klog s)"
    and "lh_n (klog s) < int LOGSIZE"
  shows "log_write i s = Ok () (upd_buf i (\<lambda>k. k\<lparr>b_dirty := True\<rparr>) (upd_log (log_add (b_blockno (bufs s ! i))) s))"
proof -
  let ?l = "klog s" and ?b = "b_blockno (bufs s ! i)" and ?n = "nat (lh_n (klog s))"
  let ?j = "log_slot ?b ?l"
  have l: "length (lh_block ?l) = LOGSIZE" "0 \<le> lh_n ?l" using assms(2,3) by (auto simp: geometry_def entries_ok_def)
  let ?f = "\<lambda>l. if int ?j = lh_n ?l then l\<lparr>lh_block := (lh_block l)[?j := ?b], lh_n := lh_n l + 1\<rparr>
     else l\<lparr>lh_block := (lh_block l)[?j := ?b]\<rparr>"
  have j: "?j < LOGSIZE \<and> ?f ?l = log_add ?b ?l"
  proof (cases "scan (\<lambda>x. x = ?b) (take ?n (lh_block ?l))")
    case None
    then have "?b \<notin> set (take ?n (lh_block ?l))" by auto
    then have "log_add ?b ?l = ?l\<lparr>lh_block := (lh_block ?l)[?n := ?b], lh_n := lh_n ?l + 1\<rparr>" by (simp add: log_add_def)
    moreover have "?j = ?n" unfolding log_slot_def None by simp
    ultimately show ?thesis using l(2) assms(6) by simp
  next
    case (Some k)
    from scan_SomeD [OF this] have k: "k < ?n" "lh_block ?l ! k = ?b" "k < length (lh_block ?l)" by auto
    then have "?b \<in> set (take ?n (lh_block ?l))" by (auto simp: in_set_conv_nth intro!: exI [of _ k])
    moreover have "(lh_block ?l)[k := ?b] = lh_block ?l" using k by (metis list_update_id)
    ultimately show ?thesis using Some k l by (simp add: log_add_def log_slot_def)
  qed
  then have "upd_log ?f s = upd_log (log_add ?b) s" by (intro upd_log_cong) blast
  moreover have "log_write i s = Ok () (upd_buf i (\<lambda>k. k\<lparr>b_dirty := True\<rparr>) (upd_log ?f s))"
    using assms l(1) j by (simp add: log_write_def lock_simps Let_def upd_log_upd_log)
  ultimately show ?thesis by simp
qed

lemma log_add_fields [simp]:
  "lg_start (log_add b l) = lg_start l" "lg_size (log_add b l) = lg_size l" "lg_dev (log_add b l) = lg_dev l"
  "lg_outstanding (log_add b l) = lg_outstanding l" "lg_committing (log_add b l) = lg_committing l"
  "length (lh_block (log_add b l)) = length (lh_block l)" "in_log (log_add b l) = in_log l"
  by (auto simp: log_add_def in_log_def fun_eq_iff)

lemma log_add_entries:
  assumes "0 \<le> lh_n l" "nat (lh_n l) < length (lh_block l)"
  shows "take (nat (lh_n (log_add b l))) (lh_block (log_add b l))
      = (let xs = take (nat (lh_n l)) (lh_block l) in if b \<in> set xs then xs else xs @ [b])"
    and "lh_n l \<le> lh_n (log_add b l)" "lh_n (log_add b l) \<le> lh_n l + 1"
  using assms by (auto simp: log_add_def Let_def nat_add_distrib take_Suc_conv_app_nth)

lemma log_add_ok:
  assumes "geometry s" "entries_ok s" "lh_n (klog s) + 1 < lg_size (klog s)" "lh_n (klog s) < int LOGSIZE"
    and "b < disksize s" "\<not> in_log (klog s) b"
  shows "geometry (upd_log (log_add b) s)" "entries_ok (upd_log (log_add b) s)"
    "logged (upd_log (log_add b) s) = insert b (logged s)"
proof -
  let ?l = "klog s"
  have l: "0 \<le> lh_n ?l" "nat (lh_n ?l) < length (lh_block ?l)"
    using assms(1,2,4) by (auto simp: geometry_def entries_ok_def)
  note a = log_add_entries [OF l, of b]
  show "geometry (upd_log (log_add b) s)" using assms(1) by (simp add: geometry_def)
  show "entries_ok (upd_log (log_add b) s)"
    using assms(2-6) a l by (auto simp: entries_ok_def Let_def)
  show "logged (upd_log (log_add b) s) = insert b (logged s)"
    using a(1) by (auto simp: logged_def Let_def)
qed

section \<open>Transaction steps\<close>

text \<open>
  A step of a transaction that adds at most \<open>k\<close> entries to the log and leaves the held buffers \<open>H\<close>
  and the disk alone; and a state with room for \<open>k\<close> more entries, in the log and in the cache.
\<close>

definition txr :: "nat \<Rightarrow> nat set \<Rightarrow> kstate \<Rightarrow> kstate \<Rightarrow> bool" where
  "txr k H s t \<longleftrightarrow> log_only s t \<and> (\<forall>j \<in> H. bufs t ! j = bufs s ! j) \<and> disk t = disk s \<and> disk_trace t = disk_trace s
     \<and> lh_n (klog t) \<le> lh_n (klog s) + int k \<and> lg_start (klog t) = lg_start (klog s) \<and> lg_size (klog t) = lg_size (klog s)
     \<and> lg_outstanding (klog t) = lg_outstanding (klog s)"

definition room :: "nat \<Rightarrow> nat set \<Rightarrow> kstate \<Rightarrow> bool" where
  "room k H s \<longleftrightarrow> lh_n (klog s) + int k < lg_size (klog s) \<and> int (card H) + lh_n (klog s) + int k < int NBUF"

lemma txrD: "txr k H s t \<Longrightarrow> log_only s t" "txr k H s t \<Longrightarrow> in_log (klog t) = in_log (klog s)"
  by (auto simp: txr_def in_log_def fun_eq_iff)

lemma txr_refl [simp]: "txr k H s s"
  by (simp add: txr_def)

lemma txr_trans: "txr j H s t \<Longrightarrow> txr k H t u \<Longrightarrow> txr (j + k) H s u"
  by (auto simp: txr_def intro: log_only_trans)

lemma txr_trans0 [trans]: "txr 0 H s t \<Longrightarrow> txr k H t u \<Longrightarrow> txr k H s u" "txr k H s t \<Longrightarrow> txr 0 H t u \<Longrightarrow> txr k H s u"
  using txr_trans [of 0 H s t k u] txr_trans [of k H s t 0 u] by simp_all

lemma txr_mono: "txr j H s t \<Longrightarrow> j \<le> k \<Longrightarrow> G \<subseteq> H \<Longrightarrow> txr k G s t"
  by (auto simp: txr_def)

lemma room_txr: "room (j + k) H s \<Longrightarrow> txr j H s t \<Longrightarrow> room k H t"
  by (auto simp: txr_def room_def)

lemma room_mono: "room k H s \<Longrightarrow> j \<le> k \<Longrightarrow> room j H s"
  by (auto simp: room_def)

lemma room_hold: "room (Suc k) H s \<Longrightarrow> i \<notin> H \<Longrightarrow> finite H \<Longrightarrow> room k (insert i H) s"
  by (auto simp: room_def)

lemma txn_card:
  assumes "txn s H"
  shows "int (card (dirty s)) = lh_n (klog s)"
proof -
  have "nat (lh_n (klog s)) \<le> length (lh_block (klog s))" "0 \<le> lh_n (klog s)"
    using assms by (auto simp: txn_def geometry_def entries_ok_def)
  then show ?thesis
    using assms card_dirty [of s H] by (simp add: txn_def entries_ok_def distinct_card logged_def)
qed

lemma log_only_fields:
  assumes "log_only s t"
  shows "disksize t = disksize s" "inodes t = inodes s" "ksb t = ksb s" "procs t = procs s" "mem t = mem s" "ftable t = ftable s"
  using assms by (auto simp: log_only_def io_only_def upd_log_def)

lemma io_only_klog: "io_only s t \<Longrightarrow> klog t = klog s"
  by (auto simp: io_only_def)

lemma txn_io:
  assumes "txn s H" "io_only s t" "bc t G" "dirty_blocks t = dirty_blocks s"
  shows "txn t G"
  using assms io_only_klog [OF assms(2)] log_only_fields(1) [OF io_log_only [OF assms(2)]]
  by (simp add: txn_def geometry_def entries_ok_def logged_def)

text \<open>\<open>bread\<close> of a block that is not held.\<close>

lemma tx_bread:
  assumes "txn s H" "b < disksize s" "b \<notin> (\<lambda>i. b_blockno (bufs s ! i)) ` H" "room 0 H s"
  obtains i u where "bread 1 b s = Ok i u" "i \<notin> H" "i < NBUF" "txn u (insert i H)" "txr 0 H s u" "blk u = blk s" "agrees u i"
    "b_blockno (bufs u ! i) = b" "b_data (bufs u ! i) = blk s b"
proof -
  have bc: "bc s H" using assms(1) by (simp add: txn_def)
  have nh: "\<And>i. i \<in> H \<Longrightarrow> \<not> holds_block s b i" using assms(3) by (auto simp: holds_block_def)
  have "card H + card (dirty s) < NBUF" using assms(4) txn_card [OF assms(1)] by (simp add: room_def)
  then obtain i where i: "free_for s H b i" "bread 1 b s = Ok i (loaded i b s)"
    using bread_eq [OF bc assms(2) nh] by blast
  then have iN: "i < NBUF" "i \<notin> H" by (auto simp: free_for_def)
  let ?u = "loaded i b s"
  have io: "io_only s ?u" by simp
  note l = loaded_bc [OF bc i(1) assms(2)] loaded_blk [OF bc i(1)] loaded_agrees [OF bc i(1)] loaded_nth [OF bc iN(1)]
    loaded_dirty_blocks [OF bc i(1)]
  have t: "txn ?u (insert i H)" using assms(1) io l(1) l(6) by (rule txn_io)
  have "j \<noteq> i" if "j \<in> H" for j using that iN(2) by blast
  moreover have "disk ?u = disk s" "disk_trace ?u = disk_trace s" by (simp_all add: loaded_def)
  ultimately have "txr 0 H s ?u" using l(5) io_log_only [OF io] by (simp add: txr_def io_only_klog [OF io])
  then show ?thesis using that [of i ?u] i(2) iN t l by simp
qed

lemma tx_brelse:
  assumes "txn u (insert i H)" "i \<notin> H" "agrees u i"
  obtains v where "brelse i u = Ok () v" "txn v H" "txr 0 H u v" "blk v = blk u"
proof -
  have bc: "bc u (insert i H)" using assms(1) by (simp add: txn_def)
  let ?v = "released i u"
  have i: "i \<in> insert i H" by simp
  have io: "io_only u ?v" by simp
  have "bc ?v H" using released_bc [OF bc i assms(3)] assms(2) by simp
  then have t: "txn ?v H" using txn_io [OF assms(1) io] released_dirty_blocks [OF bc i] by blast
  have "j \<noteq> i" if "j \<in> H" for j using that assms(2) by blast
  moreover have "disk ?v = disk u" "disk_trace ?v = disk_trace u"
    by (simp_all add: released_def link_first_def unlink_def Let_def)
  ultimately have "txr 0 H u ?v"
    using released_nth(2) [OF bc i] io_log_only [OF io] by (simp add: txr_def io_only_klog [OF io])
  then show ?thesis using that brelse_eq [OF bc i] t released_blk(1) [OF bc i] by blast
qed

lemma tx_log_write:
  assumes "txn u H" "i \<in> H" "length d = BSIZE" "\<not> in_log (klog u) (b_blockno (bufs u ! i))" "room 1 {} u"
  obtains t where "log_write i (set_bdata i d u) = Ok () t" "txn t H" "txr 1 (H - {i}) u t"
    "blk t = (blk u)(b_blockno (bufs u ! i) := d)" "agrees t i" "bufs t ! i = (bufs u ! i)\<lparr>b_data := d, b_dirty := True\<rparr>"
proof -
  let ?b = "b_blockno (bufs u ! i)" and ?v = "set_bdata i d u"
  let ?t = "upd_buf i (\<lambda>k. k\<lparr>b_dirty := True\<rparr>) (upd_log (log_add ?b) ?v)"
  have u: "bc u H" "geometry u" "entries_ok u" "dirty_blocks u = logged u" "0 < lg_outstanding (klog u)"
    "\<not> lg_committing (klog u)"
    using assms(1) by (simp_all add: txn_def)
  note v = set_bdata_ok [OF u(1) assms(2,3)] and h = heldD [OF u(1) assms(2)]
  have kv: "klog ?v = klog u" "disksize ?v = disksize u" by (simp_all add: set_bdata_def)
  have nv: "bufs ?v ! i = (bufs u ! i)\<lparr>b_data := d\<rparr>" "j \<noteq> i \<Longrightarrow> bufs ?v ! j = bufs u ! j" for j
    using h(1) bcD(2) [OF u(1)] by (simp_all add: set_bdata_def upd_buf_nth)
  have nt: "bufs ?t ! i = (bufs u ! i)\<lparr>b_data := d, b_dirty := True\<rparr>" "j \<noteq> i \<Longrightarrow> bufs ?t ! j = bufs u ! j" for j
    using h(1) bcD(2) [OF v(1)] nv by (simp_all add: upd_buf_nth)
  have gv: "geometry ?v" "entries_ok ?v" "logged ?v = logged u"
    using u(2,3) by (simp_all add: geometry_def entries_ok_def logged_def kv)
  have rm: "lh_n (klog u) + 1 < lg_size (klog u)" "lh_n (klog u) < int LOGSIZE" using assms(5) by (simp_all add: room_def)
  have q: "quiet ?v" using bcD(1) [OF v(1)] by (simp add: alone_def)
  have w: "log_write i ?v = Ok () ?t"
    using log_write_eq [OF q gv(2,1)] u(5) rm nv(1) by (simp add: kv)
  note a = log_add_ok [OF gv(1,2), of ?b]
  have tu: "?t = upd_buf i (\<lambda>k. k\<lparr>b_data := b_data (bufs ?v ! i), b_dirty := True\<rparr>) (upd_log (log_add ?b) ?v)"
    by (rule upd_buf_cong) simp
  have bl: "bc (upd_log (log_add ?b) ?v) H" using v(1) by simp
  have "bc ?t H" unfolding tu using v(1) heldD(8) [OF v(1) assms(2)] by (intro held_bc_upd assms(2)) simp_all
  moreover have "blk ?t = (blk u)(?b := d)"
    unfolding tu using held_blk_upd [OF bl assms(2), of "b_data (bufs ?v ! i)"] nv(1) v(2) assms(3) by simp
  moreover have "dirty_blocks ?t = insert ?b (logged u)"
    using dirty_blocks_mark [of i "upd_log (log_add ?b) ?v"] h(1) bcD(2) [OF v(1)] nv(1)
      set_bdata_dirty_blocks [OF u(1) assms(2)] u(4) by simp
  moreover have "geometry ?t = geometry (upd_log (log_add ?b) ?v)" "entries_ok ?t = entries_ok (upd_log (log_add ?b) ?v)"
    "logged ?t = logged (upd_log (log_add ?b) ?v)" by (simp_all add: geometry_def entries_ok_def logged_def)
  ultimately have "txn ?t H"
    using a gv(3) rm h(7) assms(4) u(5,6) by (simp add: txn_def kv)
  moreover have "log_only u ?t"
  proof -
    have "io_only u ?v" "io_only (upd_log (log_add ?b) ?v) ?t" by simp_all
    then show ?thesis using io_log_only log_only_trans upd_log_only by blast
  qed
  then have "txr 1 (H - {i}) u ?t"
    using nt(2) log_add_entries(3) [of "klog u" ?b] rm u(2,3)
    by (auto simp: txr_def geometry_def entries_ok_def set_bdata_def)
  ultimately show ?thesis
    using that w nt(1) \<open>blk ?t = (blk u)(?b := d)\<close> by (simp add: agrees_def)
qed

section \<open>Beginning and ending\<close>

text \<open>No transaction is open, and the log is empty.\<close>

definition idle :: "kstate \<Rightarrow> bool" where
  "idle s \<longleftrightarrow> bc s {} \<and> geometry s \<and> dirty_blocks s = {} \<and> lh_n (klog s) = 0 \<and> lg_outstanding (klog s) = 0
     \<and> \<not> lg_committing (klog s)"

lemma begin_op_ok:
  assumes "idle s"
  obtains t where "begin_op s = Ok () t" "txn t {}" "lg_outstanding (klog t) = 1" "lh_n (klog t) = 0" "blk t = blk s"
    "t = upd_log (\<lambda>l. l\<lparr>lg_outstanding := 1\<rparr>) s"
proof -
  let ?t = "upd_log (\<lambda>l. l\<lparr>lg_outstanding := 1\<rparr>) s"
  have s: "bc s {}" "geometry s" "dirty_blocks s = {}" "lh_n (klog s) = 0" "lg_outstanding (klog s) = 0"
    "\<not> lg_committing (klog s)" using assms by (simp_all add: idle_def)
  have q: "quiet s" using bcD(1) [OF s(1)] by (simp add: alone_def)
  have "?t = upd_log (\<lambda>l. l\<lparr>lg_outstanding := lg_outstanding l + 1\<rparr>) s"
    by (rule upd_log_cong) (simp add: s)
  then have "begin_op s = Ok () ?t" using q s(4-6) by (simp add: begin_op_def begin_op_test_def lock_simps)
  moreover have "txn ?t {}" using s by (simp add: txn_def geometry_def entries_ok_def logged_def)
  ultimately show ?thesis using that s(4) by simp
qed

text \<open>The commit inside \<open>end_op\<close>: all changes are on the disk.\<close>

lemma commit_txn:
  assumes s: "bc s {}" "geometry s" "entries_ok s" "dirty_blocks s = logged s" and n: "lh_n (klog s) < int NBUF"
  obtains t where "commit s = Ok () t" "bc t {}" "dirty_blocks t = {}" "log_only s t"
    "klog t = (klog s)\<lparr>lh_n := 0\<rparr>" "\<And>b. \<not> in_log (klog s) b \<Longrightarrow> disk t b = blk s b"
proof (cases "0 < lh_n (klog s)")
  case True
  have c: "committable s" using s True n by (simp add: committable_def logged_def)
  from commit_ok [OF c] obtain t where t: "commit s = Ok () t" "dirty_blocks t = {}"
    "wrote (log_writes s @ home_writes s) (upd_log (\<lambda>l. l\<lparr>lh_n := 0\<rparr>) s) t" by blast
  have "disk t b = blk s b" if "\<not> in_log (klog s) b" for b
  proof (cases "b \<in> logged s")
    case True
    then obtain i where "i < nat (lh_n (klog s))" "b = lh_block (klog s) ! i"
      by (auto simp: logged_def in_set_conv_nth)
    then show ?thesis using commit_disk(2) [OF s(2,3)] t(3) by (simp add: wrote_def)
  next
    case False
    then show ?thesis
      using commit_disk(3) [OF s(2,3) that] t(3) blk_clean [OF s(1), of b] s(4) by (simp add: wrote_def logged_def)
  qed
  moreover have "io_only (upd_log (\<lambda>l. l\<lparr>lh_n := 0\<rparr>) s) t" using t(3) by (simp add: wrote_def)
  then have "log_only s t" "klog t = (klog s)\<lparr>lh_n := 0\<rparr>"
    using log_only_trans [OF upd_log_only io_log_only] io_only_klog by auto
  ultimately show ?thesis using that t by (simp add: wrote_def)
next
  case False
  have z: "lh_n (klog s) = 0" "dirty_blocks s = {}" using False s(3,4) by (simp_all add: entries_ok_def logged_def)
  then have "klog s = (klog s)\<lparr>lh_n := 0\<rparr>" by simp
  then show ?thesis
    using that [of s] s(1) z blk_clean [OF s(1)] by (simp add: commit_def)
qed

lemma end_op_ok:
  assumes "txn s {}" "lg_outstanding (klog s) = 1" "lh_n (klog s) < int NBUF"
  obtains t where "end_op s = Ok () t" "idle t" "log_only s t" "\<And>b. \<not> in_log (klog s) b \<Longrightarrow> disk t b = blk s b"
    "in_log (klog t) = in_log (klog s)"
proof -
  let ?f = "\<lambda>l. l\<lparr>lg_outstanding := 0, lg_committing := True\<rparr>"
  let ?s = "upd_log ?f s" and ?g = "\<lambda>l. l\<lparr>lg_committing := False\<rparr>"
  have s: "bc s {}" "geometry s" "\<not> lg_committing (klog s)" using assms(1) by (simp_all add: txn_def)
  have q: "quiet s" using bcD(1) [OF s(1)] by (simp add: alone_def)
  have "bc ?s {}" "geometry ?s" "entries_ok ?s" "dirty_blocks ?s = logged ?s" "lh_n (klog ?s) < int NBUF"
    using assms by (simp_all add: txn_def geometry_def entries_ok_def logged_def)
  then obtain t where t: "commit ?s = Ok () t" "bc t {}" "dirty_blocks t = {}" "log_only ?s t"
    "klog t = (klog ?s)\<lparr>lh_n := 0\<rparr>" "\<And>b. \<not> in_log (klog ?s) b \<Longrightarrow> disk t b = blk ?s b"
    using commit_txn by blast
  let ?t = "upd_log ?g t"
  have "?s = upd_log (\<lambda>l. l\<lparr>lg_committing := True\<rparr>) (upd_log (\<lambda>l. l\<lparr>lg_outstanding := lg_outstanding l - 1\<rparr>) s)"
    unfolding upd_log_upd_log by (rule upd_log_cong) (simp add: assms(2))
  moreover have qt: "quiet t" "alone ?t" using bcD(1) [OF t(2)] by (simp_all add: alone_def upd_log_def)
  moreover from this(2) have "wakeup1 ChLog ?t = ?t" by (rule alone_wakeup1) (simp add: fs_chan_def)
  ultimately have "end_op s = Ok () ?t"
    using q s(3) assms(2) t(1) by (simp add: end_op_def lock_simps Let_def)
  moreover have "log_only s ?t" using t(4) upd_log_only log_only_trans by blast
  moreover have "idle ?t"
    using t(2,3,5) log_only_fields(1) [OF t(4)] s(2) by (simp add: idle_def geometry_def)
  moreover have "in_log (klog ?s) = in_log (klog s)" "in_log (klog ?t) = in_log (klog s)"
    by (auto simp: t(5) in_log_def fun_eq_iff)
  ultimately show ?thesis using that [of ?t] t(6) by simp
qed

end
