(* ===== verification/Crash.thy ===== *)
theory Crash
  imports Txn
begin

text \<open>
  Crashes during a commit: the disk after the first \<open>k\<close> writes of \<open>commit\<close>, and what \<open>initlog\<close> makes
  of it at the next boot.
\<close>

section \<open>Crashes\<close>

text \<open>A machine that has just booted with the disk \<open>D\<close>, before \<open>binit\<close> and \<open>initlog\<close>.\<close>

definition rebooted :: "u32 \<Rightarrow> (u32 \<Rightarrow> u8 list) \<Rightarrow> kstate \<Rightarrow> bool" where
  "rebooted sz D s \<longleftrightarrow> fresh_cache s \<and> disk s = D \<and> disksize s = sz \<and> length (lh_block (klog s)) = LOGSIZE"

lemma initlock_bc:
  assumes "bc s {}"
  shows "bc (initlock lk name s) {}" "blk (initlock lk name s) = blk s" "dirty_blocks (initlock lk name s) = dirty_blocks s"
    "disk (initlock lk name s) = disk s" "disksize (initlock lk name s) = disksize s" "klog (initlock lk name s) = klog s"
proof -
  have "cur_proc (initlock lk name s) = cur_proc s" by (simp add: initlock_def cur_proc_def split: option.splits)
  then have "my_pid (initlock lk name s) = my_pid s" by (simp add: my_pid_def) (simp add: initlock_def)
  moreover have "ring (initlock lk name s) = ring s" by (simp add: initlock_def ring_def fun_eq_iff)
  ultimately show "bc (initlock lk name s) {}"
    using assms initlock_alone by (simp add: bc_def buf_ok_def one_each_def) (simp add: initlock_def)
  show "blk (initlock lk name s) = blk s" by (rule blk_cong) (simp_all add: initlock_def)
  show "dirty_blocks (initlock lk name s) = dirty_blocks s" "disk (initlock lk name s) = disk s"
    "disksize (initlock lk name s) = disksize s" "klog (initlock lk name s) = klog s"
    by (simp_all add: initlock_def dirty_blocks_def dirty_def)
qed

text \<open>The superblock on the disk describes the log.\<close>

definition sb_ok :: "u32 \<Rightarrow> int \<Rightarrow> (u32 \<Rightarrow> u8 list) \<Rightarrow> bool" where
  "sb_ok start sz D \<longleftrightarrow> sb_logstart (get_superblock (D 1)) = start \<and> sint (sb_nlog (get_superblock (D 1))) = sz"

lemma initlog_ok:
  assumes "rebooted sz D s" "sb_ok start n D" "1 < sz" "0 < n" "unat start + nat n \<le> unat sz"
  obtains u where "initlog 1 (binit s) = recover_from_log u" "bc u {}" "dirty_blocks u = {}" "geometry u" "disk u = D"
    "lg_start (klog u) = start" "lg_size (klog u) = n" "disksize u = sz"
proof -
  let ?b = "binit s" and ?s = "initlock LogLock ''log'' (binit s)"
  have r: "bc ?b {}" "dirty_blocks ?b = {}" "disk ?b = D" "disksize ?b = sz" "length (lh_block (klog ?b)) = LOGSIZE"
    using assms(1) binit_bc [of s] by (simp_all add: rebooted_def)
  note i = initlock_bc [OF r(1), of LogLock "''log''"]
  from look_block [OF i(1), of 1] i r assms(3) obtain b u where u: "bread 1 1 ?s = Ok b u" "io_only ?s u"
    "b_data (bufs u ! b) = blk ?b 1" "\<forall>f. \<exists>t. brelse b (upd_log f u) = Ok () t \<and> looked (upd_log f ?s) t"
    by auto
  then obtain t where t: "brelse b (upd_log (\<lambda>l. l) u) = Ok () t" "looked (upd_log (\<lambda>l. l) ?s) t" by blast
  have sb: "blk ?b 1 = D 1" using blk_clean [OF r(1)] r(2,3) by simp
  let ?sb = "get_superblock (D 1)"
  let ?u = "upd_log (\<lambda>l. l\<lparr>lg_start := sb_logstart ?sb, lg_size := sint (sb_nlog ?sb), lg_dev := 1\<rparr>) t"
  have "initlog 1 (binit s) = recover_from_log ?u"
    using u(1,3) t(1) sb by (simp add: initlog_def readsb_def upd_log_id)
  moreover have "klog t = klog ?b" "disksize t = sz" "bc t {}" "dirty_blocks t = {}" "disk t = D"
    using t(2) i r io_only_fields(1,2) [of ?s t] by (auto simp: looked_def upd_log_id)
  ultimately show ?thesis
    using that [of ?u] assms(2-5) r(5) by (simp add: geometry_def sb_ok_def)
qed

text \<open>The disk after the first \<open>k\<close> writes of a commit.\<close>

lemma crash_before:
  assumes "geometry s" "entries_ok s" "k \<le> nat (lh_n (klog s))"
  defines "D \<equiv> apply_writes (take k (log_writes s @ home_writes s)) (disk s)"
  shows "D (lg_start (klog s)) = disk s (lg_start (klog s))" "\<not> in_log (klog s) b \<Longrightarrow> D b = disk s b"
proof -
  let ?n = "nat (lh_n (klog s))"
  have w: "take k (log_writes s @ home_writes s) = map (\<lambda>i. (log_block (klog s) i, blk s (lh_block (klog s) ! i))) [0..<k]"
    using assms(3) by (simp add: log_writes_def Let_def take_map)
  have b: "log_block (klog s) i \<noteq> lg_start (klog s)" "in_log (klog s) (log_block (klog s) i)" if "i < k" for i
  proof -
    have i: "i < ?n" using that assms(3) by simp
    then have "int i + 1 < lg_size (klog s)" using assms(2) by (auto simp: entries_ok_def)
    then show "log_block (klog s) i \<noteq> lg_start (klog s)" "in_log (klog s) (log_block (klog s) i)"
      using log_block_start [OF assms(1)] entriesD(3) [OF assms(1,2) i] by auto
  qed
  show "D (lg_start (klog s)) = disk s (lg_start (klog s))"
    unfolding D_def w using b(1) by (intro apply_writes_other) force
  show "D b = disk s b" if "\<not> in_log (klog s) b"
    unfolding D_def w using b(2) that by (intro apply_writes_other) auto
qed

lemma crash_between:
  assumes "geometry s" "entries_ok s" "nat (lh_n (klog s)) < k" "k \<le> 2 * nat (lh_n (klog s)) + 1"
  defines "D \<equiv> apply_writes (take k (log_writes s @ home_writes s)) (disk s)"
  shows "D (lg_start (klog s)) = put_head (blk s (lg_start (klog s))) (lh_n (klog s)) (lh_block (klog s))"
    and "i < nat (lh_n (klog s)) \<Longrightarrow> D (log_block (klog s) i) = blk s (lh_block (klog s) ! i)"
    and "\<not> in_log (klog s) b \<Longrightarrow> b \<notin> set (take (nat (lh_n (klog s))) (lh_block (klog s))) \<Longrightarrow> D b = disk s b"
proof -
  let ?n = "nat (lh_n (klog s))" and ?j = "k - Suc (nat (lh_n (klog s)))"
  let ?w = "map (\<lambda>i. (lh_block (klog s) ! i, blk s (lh_block (klog s) ! i))) [0..<?j]"
  have len: "length (log_writes s) = Suc ?n" by (simp add: log_writes_def Let_def)
  have "take k (log_writes s @ home_writes s) = log_writes s @ take ?j (home_writes s)"
    using assms(3) len by simp
  also have "take ?j (home_writes s) = ?w"
    using assms(3,4) by (simp add: home_writes_def Let_def take_map)
  finally have D: "D b = (if b \<in> fst ` set ?w then D b else apply_writes (log_writes s) (disk s) b)" for b
    by (simp add: D_def apply_writes_other)
  have j: "i < ?j \<Longrightarrow> i < ?n" for i using assms(3,4) by simp
  note ent = entriesD [OF assms(1,2)] and lw = log_writes_blk [OF assms(1,2), where D = "disk s"]
  have nl: "b \<notin> fst ` set ?w" if "in_log (klog s) b" for b using that ent(2) j by auto
  show "D (lg_start (klog s)) = put_head (blk s (lg_start (klog s))) (lh_n (klog s)) (lh_block (klog s))"
    using D [of "lg_start (klog s)"] nl start_in_log [OF assms(1)] lw(2) by simp
  show "D (log_block (klog s) i) = blk s (lh_block (klog s) ! i)" if "i < ?n"
    using D [of "log_block (klog s) i"] nl ent(3) [OF that] lw(1) [OF that] by simp
  show "D b = disk s b" if "\<not> in_log (klog s) b" "b \<notin> set (take ?n (lh_block (klog s)))"
  proof -
    have "b \<notin> fst ` set ?w" using that(2) ent(4) j by auto
    then show ?thesis using D [of b] lw(3) [OF that(1)] by simp
  qed
qed

text \<open>Recovery from a disk whose header is empty, and from one whose header names blocks.\<close>

lemma head_n_zero: "length d = BSIZE \<Longrightarrow> head_n (put_head d 0 bl) = 0"
  using put_head(2) [of d 0 "[]"] by (simp add: put_head_def head_n_def)

lemma length_disk: "bc s {} \<Longrightarrow> dirty_blocks s = {} \<Longrightarrow> length (disk s b) = BSIZE"
  using blk_clean [of s b] length_blk [of s "{}" b] by simp

lemma recover_empty:
  assumes "bc u {}" "dirty_blocks u = {}" "geometry u" "head_n (disk u (lg_start (klog u))) = 0"
  shows "\<exists>t. recover_from_log u = Ok () t \<and> bc t {} \<and> head_n (disk t (lg_start (klog u))) = 0
    \<and> (\<forall>b. \<not> in_log (klog u) b \<longrightarrow> disk t b = disk u b)"
proof -
  have "head_ok u" using assms(3,4) by (simp add: head_ok_def geometry_def)
  from recover_ok [OF assms(1-3) this] obtain t bl where t: "recover_from_log u = Ok () t" "bc t {}"
    "disk t = (disk u)(lg_start (klog u) := put_head (disk u (lg_start (klog u))) 0 bl)"
    using assms(4) by auto
  then show ?thesis
    using head_n_zero length_disk [OF assms(1,2)] start_in_log [OF assms(3)] by auto
qed

lemma recover_full:
  assumes "bc u {}" "dirty_blocks u = {}" "geometry u" "head_ok u"
  defines "h \<equiv> disk u (lg_start (klog u))"
  shows "\<exists>t. recover_from_log u = Ok () t \<and> bc t {} \<and> head_n (disk t (lg_start (klog u))) = 0
    \<and> (\<forall>i < nat (head_n h). disk t (head_block h i) = disk u (log_block (klog u) i))
    \<and> (\<forall>b. \<not> in_log (klog u) b \<longrightarrow> b \<notin> head_block h ` {..<nat (head_n h)} \<longrightarrow> disk t b = disk u b)"
proof -
  let ?w = "map (\<lambda>i. (head_block h i, disk u (log_block (klog u) i))) [0..<nat (head_n h)]"
  have h: "distinct (map (head_block h) [0..<nat (head_n h)])"
    "\<And>i. i < nat (head_n h) \<Longrightarrow> \<not> in_log (klog u) (head_block h i)"
    using assms(4) unfolding head_ok_def Let_def h_def by auto
  from recover_ok [OF assms(1-4)] obtain t bl where t: "recover_from_log u = Ok () t" "bc t {}"
    "disk t = (apply_writes ?w (disk u))(lg_start (klog u) := put_head h 0 bl)"
    unfolding h_def by auto
  note st = start_in_log [OF assms(3)]
  have "head_n (put_head h 0 bl) = 0" using head_n_zero length_disk [OF assms(1,2)] by (simp add: h_def)
  moreover have "apply_writes ?w (disk u) (head_block h i) = disk u (log_block (klog u) i)" if "i < nat (head_n h)" for i
    using that h(1) apply_writes_map [of "head_block h" "[0..<nat (head_n h)]" i] by (simp add: distinct_map)
  moreover have "apply_writes ?w (disk u) b = disk u b" if "b \<notin> head_block h ` {..<nat (head_n h)}" for b
    using that by (intro apply_writes_other) auto
  moreover have "head_block h i \<noteq> lg_start (klog u)" if "i < nat (head_n h)" for i
    using h(2) [OF that] st by metis
  ultimately show ?thesis using t st by auto
qed

text \<open>What recovery makes of the disk after \<open>k\<close> writes of a commit.\<close>

lemma recover_between:
  assumes g: "geometry s" and e: "entries_ok s" and len: "length (blk s (lg_start (klog s))) = BSIZE"
    and d: "\<And>b. b \<notin> set (take (nat (lh_n (klog s))) (lh_block (klog s))) \<Longrightarrow> blk s b = disk s b"
    and u: "bc u {}" "dirty_blocks u = {}" "geometry u" "lg_start (klog u) = lg_start (klog s)"
      "lg_size (klog u) = lg_size (klog s)" "disksize u = disksize s"
      "disk u = apply_writes (take k (log_writes s @ home_writes s)) (disk s)"
    and k: "nat (lh_n (klog s)) < k" "k \<le> 2 * nat (lh_n (klog s)) + 1"
  shows "\<exists>t. recover_from_log u = Ok () t \<and> head_n (disk t (lg_start (klog s))) = 0
    \<and> (\<forall>b. \<not> in_log (klog s) b \<longrightarrow> disk t b = blk s b)"
proof -
  let ?l = "klog s" and ?n = "nat (lh_n (klog s))"
  let ?h = "disk u (lg_start (klog u))" and ?B = "set (take (nat (lh_n (klog s))) (lh_block (klog s)))"
  have lg: "in_log (klog u) = in_log ?l" "log_block (klog u) = log_block ?l"
    using u(4,5) by (auto simp: in_log_def log_block_def fun_eq_iff)
  have bl: "length (lh_block ?l) = LOGSIZE" "0 \<le> lh_n ?l" "lh_n ?l \<le> int LOGSIZE" "lh_n ?l < lg_size ?l"
    "distinct (take ?n (lh_block ?l))" "\<And>b. b \<in> ?B \<Longrightarrow> b < disksize s \<and> \<not> in_log ?l b"
    using g e by (auto simp: geometry_def entries_ok_def)
  note D = crash_between [OF g e k, folded u(7)]
  have h: "head_n ?h = lh_n ?l" "\<And>i. i < ?n \<Longrightarrow> head_block ?h i = lh_block ?l ! i"
    using put_head(2,3) [OF len bl(2)] bl(1,3) D(1) by (simp_all add: u(4) head_n_def head_block_def)
  have hm: "map (head_block ?h) [0..<?n] = take ?n (lh_block ?l)"
    using h(2) bl(1,3) by (intro nth_equalityI) auto
  then have hs: "head_block ?h ` {..<?n} = ?B"
    by (metis atLeast_upt list.set_map)
  have "head_ok u"
    using h bl(2-6) entriesD(4) [OF g e] unfolding head_ok_def Let_def u(4) [symmetric]
    by (simp add: hm lg u(5,6))
  from recover_full [OF u(1-3) this] obtain t where t: "recover_from_log u = Ok () t"
    "head_n (disk t (lg_start ?l)) = 0"
    "\<And>i. i < ?n \<Longrightarrow> disk t (lh_block ?l ! i) = disk u (log_block ?l i)"
    "\<And>b. \<not> in_log ?l b \<Longrightarrow> b \<notin> ?B \<Longrightarrow> disk t b = disk u b"
    using h hs by (auto simp: lg u(4))
  have "disk t b = blk s b" if "\<not> in_log ?l b" for b
  proof (cases "b \<in> ?B")
    case True
    then obtain i where "i < ?n" "b = lh_block ?l ! i" by (auto simp: in_set_conv_nth)
    then show ?thesis using t(3) D(2) by simp
  qed (use that t(4) D(3) d in simp)
  then show ?thesis using t(1,2) by blast
qed

lemma recovery_outcome:
  assumes "geometry s" "entries_ok s" "length (blk s (lg_start (klog s))) = BSIZE"
    and "\<And>b. b \<notin> set (take (nat (lh_n (klog s))) (lh_block (klog s))) \<Longrightarrow> blk s b = disk s b"
    and h: "head_n (disk s (lg_start (klog s))) = 0"
    and u: "bc u {}" "dirty_blocks u = {}" "geometry u" "lg_start (klog u) = lg_start (klog s)"
      "lg_size (klog u) = lg_size (klog s)" "disksize u = disksize s"
      "disk u = apply_writes (take k (log_writes s @ home_writes s)) (disk s)"
  shows "\<exists>t. recover_from_log u = Ok () t \<and> head_n (disk t (lg_start (klog s))) = 0
    \<and> (\<forall>b. \<not> in_log (klog s) b \<longrightarrow> disk t b = (if k \<le> nat (lh_n (klog s)) then disk s b else blk s b))"
proof -
  let ?l = "klog s" and ?n = "nat (lh_n (klog s))"
  have lg: "in_log (klog u) = in_log ?l" using u(4,5) by (auto simp: in_log_def fun_eq_iff)
  consider "k \<le> ?n" | "?n < k" "k \<le> 2 * ?n + 1" | "2 * ?n + 1 < k" by linarith
  then show ?thesis
  proof cases
    case 1
    note D = crash_before [OF assms(1,2) 1, folded u(7)]
    have "head_n (disk u (lg_start (klog u))) = 0" using D(1) h by (simp add: u(4))
    from recover_empty [OF u(1-3) this] D(2) 1 show ?thesis by (fastforce simp: lg u(4))
  next
    case 2
    then show ?thesis using recover_between [OF assms(1-4) u 2] by simp
  next
    case 3
    have "length (log_writes s @ home_writes s) = 2 * ?n + 2"
      by (simp add: log_writes_def home_writes_def Let_def)
    then have w: "disk u = apply_writes (log_writes s @ home_writes s) (disk s)" using u(7) 3 by simp
    note D = commit_disk [OF assms(1,2), folded w]
    have bl: "length (lh_block ?l) = LOGSIZE" "0 \<le> lh_n ?l" "lh_n ?l \<le> int LOGSIZE"
      using assms(1,2) by (auto simp: geometry_def entries_ok_def)
    have "disk u b = blk s b" if "\<not> in_log ?l b" for b
    proof (cases "b \<in> set (take ?n (lh_block ?l))")
      case True
      then obtain i where "i < ?n" "b = lh_block ?l ! i" by (auto simp: in_set_conv_nth)
      then show ?thesis using D(2) by simp
    qed (use that D(3) assms(4) in simp)
    moreover have "head_n (disk u (lg_start (klog u))) = 0"
      using D(1) put_head(1) [OF assms(3) bl(2)] bl(1,3) head_n_zero by (simp add: u(4))
    ultimately show ?thesis using recover_empty [OF u(1-3)] 3 by (fastforce simp: lg u(4))
  qed
qed

text \<open>
  C9. Commits are atomic across crashes. A transaction whose changed blocks are all listed in the log
  commits by a sequence \<open>ws\<close> of disk writes. If the machine stops after any number \<open>k\<close> of them and
  boots again, \<open>binit\<close> and \<open>initlog\<close> leave an empty log, and every block outside the log has its old
  contents when \<open>k\<close> writes did not include the header of the log, and its new contents otherwise:
  never some blocks old and others new.
\<close>

theorem commit_crash_atomic:
  assumes "committable s" "head_n (disk s (lg_start (klog s))) = 0"
    and "sb_ok (lg_start (klog s)) (lg_size (klog s)) (disk s)" "1 < disksize s" "\<not> in_log (klog s) 1" "1 \<notin> dirty_blocks s"
  shows "\<exists>t ws. commit s = Ok () t \<and> disk_trace t = disk_trace s @ ws \<and> length ws = 2 * nat (lh_n (klog s)) + 2
    \<and> disk t = apply_writes ws (disk s)
    \<and> (\<forall>k r. rebooted (disksize s) (apply_writes (take k ws) (disk s)) r \<longrightarrow>
        (\<exists>u. initlog 1 (binit r) = Ok () u \<and> head_n (disk u (lg_start (klog s))) = 0
          \<and> (\<forall>b. \<not> in_log (klog s) b \<longrightarrow>
              disk u b = (if k \<le> nat (lh_n (klog s)) then disk s b else blk s b))))"
proof -
  let ?l = "klog s" and ?n = "nat (lh_n (klog s))" and ?ws = "log_writes s @ home_writes s"
  have g: "geometry s" and e: "entries_ok s" and bc: "bc s {}"
    and d: "dirty_blocks s = set (take ?n (lh_block ?l))"
    using assms(1) by (auto simp: committable_def)
  from commit_ok [OF assms(1)] obtain t where t: "commit s = Ok () t" "disk_trace t = disk_trace s @ ?ws"
    "disk t = apply_writes ?ws (disk s)" by (auto simp: wrote_def)
  have len: "length ?ws = 2 * ?n + 2" by (simp add: log_writes_def home_writes_def Let_def)
  have clean: "blk s b = disk s b" if "b \<notin> set (take ?n (lh_block ?l))" for b
    using blk_clean [OF bc] that d by blast
  have one: "apply_writes (take k ?ws) (disk s) 1 = disk s 1" for k
  proof (rule apply_writes_other)
    have "log_block ?l i \<noteq> 1" "lh_block ?l ! i \<noteq> 1" if "i < ?n" for i
      using assms(5,6) entriesD(3,4) [OF g e that] d by auto
    then have "1 \<notin> fst ` set ?ws"
      using assms(5) start_in_log [OF g] by (auto simp: log_writes_def home_writes_def Let_def)
    then show "1 \<notin> fst ` set (take k ?ws)" using set_take_subset [of k ?ws] by blast
  qed
  have "\<exists>u. initlog 1 (binit r) = Ok () u \<and> head_n (disk u (lg_start ?l)) = 0
      \<and> (\<forall>b. \<not> in_log ?l b \<longrightarrow> disk u b = (if k \<le> ?n then disk s b else blk s b))"
    if r: "rebooted (disksize s) (apply_writes (take k ?ws) (disk s)) r" for k r
  proof -
    let ?D = "apply_writes (take k ?ws) (disk s)"
    have "sb_ok (lg_start ?l) (lg_size ?l) ?D" using assms(3) unfolding sb_ok_def one .
    then obtain u where u: "initlog 1 (binit r) = recover_from_log u" "bc u {}" "dirty_blocks u = {}" "geometry u"
      "disk u = ?D" "lg_start (klog u) = lg_start ?l" "lg_size (klog u) = lg_size ?l" "disksize u = disksize s"
      using initlog_ok [OF r _ assms(4)] g by (auto simp: geometry_def)
    show ?thesis
      unfolding u(1)
      by (rule recovery_outcome [OF g e length_blk [OF bc] clean assms(2) u(2-4,6,7,8,5)])
  qed
  then show ?thesis using t len by blast
qed

text \<open>A transaction of one block on a disk with the log in blocks 2 to 31.\<close>

definition demo_sb :: "u32 list" where
  "demo_sb = [1500, 1441, 200, 30, 2, 32, 58]"

definition demo_disk :: "u32 \<Rightarrow> u8 list" where
  "demo_disk b = (if b = 1 then concat (map put32 demo_sb) @ replicate 484 0 else replicate BSIZE 0)"

definition demo_mount :: kstate where
  "demo_mount = upd_log (\<lambda>l. l\<lparr>lg_start := 2, lg_size := 30, lg_dev := 1\<rparr>) (binit (fs_boot demo_disk))"

definition demo_txn :: "(kstate, unit) res" where
  "demo_txn =
     bind (begin_op demo_mount) (\<lambda>_ s.
     bind (bread 1 60 s) (\<lambda>i s.
     bind (log_write i (set_bdata i (replicate BSIZE 7) s)) (\<lambda>_ s. brelse i s)))"

lemma demo_disk_sb: "sb_ok 2 30 demo_disk"
proof -
  have l: "length demo_sb = 7" "demo_sb ! 3 = 30" "demo_sb ! 4 = 2" by (simp_all add: demo_sb_def)
  have "get32 (demo_disk 1) (4 * i) = demo_sb ! i" if "i < 7" for i
    using get32_concat [of i demo_sb "replicate 484 0"] that l(1) by (simp add: demo_disk_def)
  from this [of 3] this [of 4] l show ?thesis by (simp add: sb_ok_def get_superblock_def)
qed

lemma demo_disk_length: "length (demo_disk b) = BSIZE"
  using length_concat_put32 [of demo_sb] by (simp add: demo_disk_def) (simp add: demo_sb_def)

lemma demo_mount_idle: "idle demo_mount" "disk demo_mount = demo_disk" "disksize demo_mount = 1500"
  "lg_start (klog demo_mount) = 2" "lg_size (klog demo_mount) = 30"
proof -
  have f: "fresh_cache (fs_boot demo_disk)" by (rule fs_boot_fresh [OF demo_disk_length])
  note b = binit_bc [OF f]
  have k: "klog (fs_boot demo_disk) = klog0" "disksize (fs_boot demo_disk) = 1500" "disk (fs_boot demo_disk) = demo_disk"
    by (simp_all add: fs_boot_def kstate0_def)
  show "disk demo_mount = demo_disk" "disksize demo_mount = 1500" "lg_start (klog demo_mount) = 2" "lg_size (klog demo_mount) = 30"
    using b k by (simp_all add: demo_mount_def)
  then show "idle demo_mount" using b k by (simp add: idle_def demo_mount_def geometry_def klog0_def)
qed

lemma demo_txn_ok:
  obtains s where "demo_txn = Ok () s" "txn s {}" "lh_n (klog s) = 1" "disk s = demo_disk" "disksize s = 1500"
    "lg_start (klog s) = 2" "lg_size (klog s) = 30" "blk s 60 = replicate BSIZE 7" "logged s = {60}"
proof -
  note m = demo_mount_idle
  from begin_op_ok [OF m(1)] obtain t where t: "begin_op demo_mount = Ok () t" "txn t {}" "lh_n (klog t) = 0"
    "t = upd_log (\<lambda>l. l\<lparr>lg_outstanding := 1\<rparr>) demo_mount" by blast
  have kt: "disk t = demo_disk" "disksize t = 1500" "lg_start (klog t) = 2" "lg_size (klog t) = 30"
    using m t(4) by simp_all
  have h: "(60 :: u32) < disksize t" "room 0 {} t" using kt t(3) by (simp_all add: room_def)
  obtain i u where u: "bread 1 60 t = Ok i u" "txn u {i}" "txr 0 {} t u" "agrees u i" "b_blockno (bufs u ! i) = 60"
    by (rule tx_bread [OF t(2) h(1) _ h(2)]) auto
  have ku: "lh_n (klog u) \<le> 0" "lg_start (klog u) = 2" "lg_size (klog u) = 30" "disk u = demo_disk" "disksize u = 1500"
    using u(3) kt t(3) log_only_fields(1) [OF txrD(1) [OF u(3)]] by (simp_all add: txr_def)
  have n: "\<not> in_log (klog u) 60" by (simp add: in_log_def ku)
  have r: "room 1 {} u" using ku by (simp add: room_def)
  obtain v where v: "log_write i (set_bdata i (replicate BSIZE 7) u) = Ok () v" "txn v {i}" "txr 1 ({i} - {i}) u v"
      "blk v = (blk u)(60 := replicate BSIZE 7)" "agrees v i"
    by (rule tx_log_write [OF u(2) _ _ _ r, of i "replicate BSIZE 7"]) (use n u(5) in auto)
  obtain w where w: "brelse i v = Ok () w" "txn w {}" "txr 0 {} v w" "blk w = blk v"
    using tx_brelse [OF v(2) _ v(5)] by blast
  have k: "txr 1 {} u w" using txr_trans [of 1 "{}" u v 0 w] v(3) w(3) by simp
  have kw: "lh_n (klog w) \<le> 1" "lg_start (klog w) = 2" "lg_size (klog w) = 30" "disk w = demo_disk" "disksize w = 1500"
    using k ku log_only_fields(1) [OF txrD(1) [OF k]] by (simp_all add: txr_def)
  have bw: "blk w 60 = replicate BSIZE 7" using v(4) w(4) by simp
  have "60 \<in> logged w"
  proof (rule ccontr)
    assume "60 \<notin> logged w"
    then have "blk w 60 = disk w 60" using w(2) by (intro blk_clean) (simp_all add: txn_def)
    then show False using bw kw(4) by (simp add: demo_disk_def)
  qed
  moreover have "card (logged w) \<le> 1"
    using kw(1) card_length [of "take (nat (lh_n (klog w))) (lh_block (klog w))"] unfolding logged_def length_take by linarith
  ultimately have lw: "logged w = {60}" by (auto simp: card_le_Suc0_iff_eq logged_def)
  moreover from this have "0 < lh_n (klog w)" by (cases "0 < lh_n (klog w)") (simp_all add: logged_def)
  ultimately show ?thesis
    using that [of w] t(1) u(1) v(1) w(1,2) kw bw by (simp add: demo_txn_def)
qed

theorem commit_crash_atomic_witness:
  "\<exists>s t u v. demo_txn = Ok () s \<and> commit s = Ok () t
     \<and> initlog 1 (binit (fs_boot (disk s))) = Ok () u \<and> disk u 60 = replicate BSIZE 0
     \<and> initlog 1 (binit (fs_boot (disk t))) = Ok () v \<and> disk v 60 = replicate BSIZE 7"
proof -
  obtain s where s: "demo_txn = Ok () s" "txn s {}" "lh_n (klog s) = 1" "disk s = demo_disk" "disksize s = 1500"
    "lg_start (klog s) = 2" "lg_size (klog s) = 30" "blk s 60 = replicate BSIZE 7" "logged s = {60}"
    by (rule demo_txn_ok)
  have d: "committable s" "dirty_blocks s = {60}" "bc s {}" using s(2,3,9) by (auto simp: committable_def txn_def logged_def)
  have reb: "rebooted (disksize s) D (fs_boot D)" if "\<And>b. length (D b) = BSIZE" for D
    using fs_boot_fresh [of D, OF that] by (simp add: rebooted_def s(5)) (simp add: fs_boot_def kstate0_def klog0_def)
  have z: "head_n (replicate BSIZE 0) = 0" by (simp add: head_n_def get32_def)
  have n: "\<not> in_log (klog s) 1" "\<not> in_log (klog s) 60" by (simp_all add: in_log_def s(6,7))
  have h: "head_n (disk s (lg_start (klog s))) = 0" "sb_ok (lg_start (klog s)) (lg_size (klog s)) (disk s)" "1 < disksize s"
    "1 \<notin> dirty_blocks s" using z d(2) demo_disk_sb by (simp_all add: s(4-7) demo_disk_def)
  obtain t ws where
    t: "commit s = Ok () t" "disk t = apply_writes ws (disk s)" "length ws = 2 * nat (lh_n (klog s)) + 2"
      "\<And>k r. rebooted (disksize s) (apply_writes (take k ws) (disk s)) r \<Longrightarrow>
        \<exists>u. initlog 1 (binit r) = Ok () u
          \<and> (\<forall>b. \<not> in_log (klog s) b \<longrightarrow> disk u b = (if k \<le> nat (lh_n (klog s)) then disk s b else blk s b))"
    using commit_crash_atomic [OF d(1) h(1-3) n(1) h(4)] by blast
  from t(4) [of 0 "fs_boot (disk s)"] reb [of "disk s"] demo_disk_length obtain u where
    u: "initlog 1 (binit (fs_boot (disk s))) = Ok () u" "disk u 60 = disk s 60" using n(2) by (auto simp: s(4))
  from commit_ok [OF d(1)] t(1) have "bc t {}" "dirty_blocks t = {}" by (auto simp: wrote_def)
  then have "rebooted (disksize s) (disk t) (fs_boot (disk t))" using length_disk by (intro reb)
  then obtain v where "initlog 1 (binit (fs_boot (disk t))) = Ok () v" "disk v 60 = blk s 60"
    using t(4) [of 4 "fs_boot (disk t)"] t(2,3) n(2) by (auto simp: s(3))
  then show ?thesis using s(1,4,8) t(1) u by (auto simp: demo_disk_def)
qed

end
