(* ===== verification/Inode.thy ===== *)
theory Inode
  imports Txn
begin

text \<open>
  Blocks and inodes (the first half of \<open>fs.c\<close>): the bitmap allocator of disk blocks, the inode
  allocator, the cache of in-memory inodes with its reference counts and locks, the map from block
  numbers of a file to blocks of the disk, and truncation. A \<open>struct inode*\<close> is an index of the
  inode cache.
\<close>

section \<open>On-disk structures\<close>

text \<open>\<open>struct dinode\<close>: 64 bytes, eight to a block.\<close>

record dinode =
  d_type :: u16
  d_major :: u16
  d_minor :: u16
  d_nlink :: u16
  d_size :: u32
  d_addrs :: "u32 list"

definition get_dinode :: "u8 list \<Rightarrow> nat \<Rightarrow> dinode" where
  "get_dinode d off = \<lparr>d_type = get16 d off, d_major = get16 d (off + 2), d_minor = get16 d (off + 4),
     d_nlink = get16 d (off + 6), d_size = get32 d (off + 8),
     d_addrs = map (\<lambda>i. get32 d (off + 12 + 4 * i)) [0..<NDIRECT + 1]\<rparr>"

definition put_dinode :: "dinode \<Rightarrow> u8 list" where
  "put_dinode x = put16 (d_type x) @ put16 (d_major x) @ put16 (d_minor x) @ put16 (d_nlink x)
     @ put32 (d_size x) @ concat (map put32 (d_addrs x))"

definition IBLOCK :: "u32 \<Rightarrow> superblock \<Rightarrow> u32" where
  "IBLOCK i sb = i div 8 + sb_inodestart sb"

definition BBLOCK :: "u32 \<Rightarrow> superblock \<Rightarrow> u32" where
  "BBLOCK b sb = b div 4096 + sb_bmapstart sb"

text \<open>Where inode \<open>inum\<close> stands in its block: \<open>(struct dinode*)bp->data + inum%IPB\<close>.\<close>

definition dinode_off :: "u32 \<Rightarrow> nat" where
  "dinode_off inum = 64 * (unat inum mod IPB)"

definition upd_inode :: "nat \<Rightarrow> (inode \<Rightarrow> inode) \<Rightarrow> kstate \<Rightarrow> kstate" where
  "upd_inode i f s = s\<lparr>inodes := (inodes s)[i := f (inodes s ! i)]\<rparr>"

section \<open>Disk blocks\<close>

definition bzero :: "u32 \<Rightarrow> u32 \<Rightarrow> kstate \<Rightarrow> (kstate, unit) res" where
  "bzero dev bno s =
     bind (bread dev bno s) (\<lambda>bp s.
       let s = set_bdata bp (replicate BSIZE 0) s in
     bind (log_write bp s) (\<lambda>_ s. brelse bp s))"

text \<open>The bit of block \<open>bi\<close> of a bitmap block.\<close>

definition bm_bit :: "u8 list \<Rightarrow> nat \<Rightarrow> bool" where
  "bm_bit d bi = bit (d ! (bi div 8)) (bi mod 8)"

definition bm_set :: "u8 list \<Rightarrow> nat \<Rightarrow> u8 list" where
  "bm_set d bi = d[bi div 8 := d ! (bi div 8) OR push_bit (bi mod 8) 1]"

definition bm_clear :: "u8 list \<Rightarrow> nat \<Rightarrow> u8 list" where
  "bm_clear d bi = d[bi div 8 := d ! (bi div 8) AND NOT (push_bit (bi mod 8) 1)]"

text \<open>The outer loop of \<open>balloc\<close> takes one bitmap block per step, \<open>b\<close> being its first block number.\<close>

primrec balloc_loop :: "nat list \<Rightarrow> u32 \<Rightarrow> kstate \<Rightarrow> (kstate, u32) res" where
  "balloc_loop [] dev s = Panic ''balloc: out of blocks''"
| "balloc_loop (b # bs) dev s =
     bind (bread dev (BBLOCK (of_nat b) (ksb s)) s) (\<lambda>bp s.
       case List.find (\<lambda>bi. \<not> bm_bit (b_data (bufs s ! bp)) bi) [0..<min BPB (unat (sb_size (ksb s)) - b)] of
         Some bi \<Rightarrow>
           let s = set_bdata bp (bm_set (b_data (bufs s ! bp)) bi) s in
           bind (log_write bp s) (\<lambda>_ s.
           bind (brelse bp s) (\<lambda>_ s.
           bind (bzero dev (of_nat (b + bi)) s) (\<lambda>_ s. Ok (of_nat (b + bi)) s)))
       | None \<Rightarrow> bind (brelse bp s) (\<lambda>_ s. balloc_loop bs dev s))"

definition balloc :: "u32 \<Rightarrow> kstate \<Rightarrow> (kstate, u32) res" where
  "balloc dev s = balloc_loop (map (\<lambda>k. k * BPB) [0..<(unat (sb_size (ksb s)) + BPB - 1) div BPB]) dev s"

definition bfree :: "u32 \<Rightarrow> u32 \<Rightarrow> kstate \<Rightarrow> (kstate, unit) res" where
  "bfree dev b s =
     bind (bread dev (BBLOCK b (ksb s)) s) (\<lambda>bp s.
       let bi = unat b mod BPB in
       if \<not> bm_bit (b_data (bufs s ! bp)) bi then Panic ''freeing free block''
       else
         let s = set_bdata bp (bm_clear (b_data (bufs s ! bp)) bi) s in
         bind (log_write bp s) (\<lambda>_ s. brelse bp s))"

section \<open>The inode cache\<close>

primrec iinit_loop :: "nat list \<Rightarrow> kstate \<Rightarrow> kstate" where
  "iinit_loop [] s = s"
| "iinit_loop (i # js) s = iinit_loop js (initsleeplock (SlInode i) ''inode'' s)"

definition iinit :: "u32 \<Rightarrow> kstate \<Rightarrow> (kstate, unit) res" where
  "iinit dev s =
     (let s = initlock IcacheLock ''icache'' s;
          s = iinit_loop [0..<NINODE] s
      in bind (readsb dev s) (\<lambda>sb s.
           let s = s\<lparr>ksb := sb\<rparr> in
           cprintf (Some (bytes ''sb: size %d nblocks %d ninodes %d nlog %d logstart %d inodestart %d bmap start %d'' @ [10, 0]))
             [AInt (sb_size sb), AInt (sb_nblocks sb), AInt (sb_ninodes sb), AInt (sb_nlog sb), AInt (sb_logstart sb),
              AInt (sb_inodestart sb), AInt (sb_bmapstart sb)] s))"

definition iget :: "u32 \<Rightarrow> u32 \<Rightarrow> kstate \<Rightarrow> (kstate, nat) res" where
  "iget dev inum s =
     bind (acquire IcacheLock s) (\<lambda>_ s.
       case scan (\<lambda>ip. 0 < ip_ref ip \<and> ip_dev ip = dev \<and> ip_inum ip = inum) (inodes s) of
         Some ip \<Rightarrow>
           let s = upd_inode ip (\<lambda>p. p\<lparr>ip_ref := ip_ref p + 1\<rparr>) s in
           bind (release IcacheLock s) (\<lambda>_ s. Ok ip s)
       | None \<Rightarrow>
           (case scan (\<lambda>ip. ip_ref ip = 0) (inodes s) of
              None \<Rightarrow> Panic ''iget: no inodes''
            | Some ip \<Rightarrow>
                let s = upd_inode ip (\<lambda>p. p\<lparr>ip_dev := dev, ip_inum := inum, ip_ref := 1, ip_valid := False\<rparr>) s in
                bind (release IcacheLock s) (\<lambda>_ s. Ok ip s)))"

text \<open>The loop of \<open>ialloc\<close> over \<open>inum = 1, 2, \<dots>\<close>.\<close>

primrec ialloc_loop :: "nat list \<Rightarrow> u32 \<Rightarrow> u16 \<Rightarrow> kstate \<Rightarrow> (kstate, nat) res" where
  "ialloc_loop [] dev type s = Panic ''ialloc: no inodes''"
| "ialloc_loop (inum # is) dev type s =
     bind (bread dev (IBLOCK (of_nat inum) (ksb s)) s) (\<lambda>bp s.
       let d = b_data (bufs s ! bp); off = dinode_off (of_nat inum) in
       if d_type (get_dinode d off) = 0 then
         let z = get_dinode (replicate 64 0) 0;
             s = set_bdata bp (blit d off (put_dinode (z\<lparr>d_type := type\<rparr>))) s
         in bind (log_write bp s) (\<lambda>_ s.
            bind (brelse bp s) (\<lambda>_ s. iget dev (of_nat inum) s))
       else bind (brelse bp s) (\<lambda>_ s. ialloc_loop is dev type s))"

definition ialloc :: "u32 \<Rightarrow> u16 \<Rightarrow> kstate \<Rightarrow> (kstate, nat) res" where
  "ialloc dev type s = ialloc_loop [1..<unat (sb_ninodes (ksb s))] dev type s"

definition iupdate :: "nat \<Rightarrow> kstate \<Rightarrow> (kstate, unit) res" where
  "iupdate ip s =
     (let p = inodes s ! ip in
      bind (bread (ip_dev p) (IBLOCK (ip_inum p) (ksb s)) s) (\<lambda>bp s.
        let p = inodes s ! ip;
            x = \<lparr>d_type = ip_type p, d_major = ip_major p, d_minor = ip_minor p, d_nlink = ip_nlink p,
                 d_size = ip_size p, d_addrs = ip_addrs p\<rparr>;
            s = set_bdata bp (blit (b_data (bufs s ! bp)) (dinode_off (ip_inum p)) (put_dinode x)) s
        in bind (log_write bp s) (\<lambda>_ s. brelse bp s)))"

definition idup :: "nat \<Rightarrow> kstate \<Rightarrow> (kstate, nat) res" where
  "idup ip s =
     bind (acquire IcacheLock s) (\<lambda>_ s.
       let s = upd_inode ip (\<lambda>p. p\<lparr>ip_ref := ip_ref p + 1\<rparr>) s in
     bind (release IcacheLock s) (\<lambda>_ s. Ok ip s))"

text \<open>\<open>ilock\<close> once it has the lock: the inode is read from the disk if the entry is not valid.\<close>

definition ilock_load :: "nat \<Rightarrow> kstate \<Rightarrow> (kstate, unit) res" where
  "ilock_load ip s =
     (if ip_valid (inodes s ! ip) then Ok () s
      else
        let p = inodes s ! ip in
        bind (bread (ip_dev p) (IBLOCK (ip_inum p) (ksb s)) s) (\<lambda>bp s.
          let x = get_dinode (b_data (bufs s ! bp)) (dinode_off (ip_inum p));
              s = upd_inode ip (\<lambda>p. p\<lparr>ip_type := d_type x, ip_major := d_major x, ip_minor := d_minor x,
                    ip_nlink := d_nlink x, ip_size := d_size x, ip_addrs := d_addrs x\<rparr>) s
          in bind (brelse bp s) (\<lambda>_ s.
               let s = upd_inode ip (\<lambda>p. p\<lparr>ip_valid := True\<rparr>) s in
               if ip_type (inodes s ! ip) = 0 then Panic ''ilock: no type'' else Ok () s)))"

definition ilock :: "nat option \<Rightarrow> kstate \<Rightarrow> (kstate, unit) res" where
  "ilock ipo s =
     (case ipo of
        None \<Rightarrow> Panic ''ilock''
      | Some ip \<Rightarrow>
          if ip_ref (inodes s ! ip) < 1 then Panic ''ilock''
          else bind (acquiresleep (SlInode ip) s) (\<lambda>_ s. ilock_load ip s))"

definition iunlock :: "nat option \<Rightarrow> kstate \<Rightarrow> (kstate, unit) res" where
  "iunlock ipo s =
     (case ipo of
        None \<Rightarrow> Panic ''iunlock''
      | Some ip \<Rightarrow>
          bind (holdingsleep (SlInode ip) s) (\<lambda>h s.
            if \<not> h \<or> ip_ref (inodes s ! ip) < 1 then Panic ''iunlock''
            else releasesleep (SlInode ip) s))"

section \<open>The blocks of a file\<close>

text \<open>Block \<open>bn\<close> of an array of block numbers in a buffer: \<open>((uint*)bp->data)[bn]\<close>.\<close>

definition get_ind :: "u8 list \<Rightarrow> nat \<Rightarrow> u32" where
  "get_ind d j = get32 d (4 * j)"

definition bmap_ind :: "nat \<Rightarrow> nat \<Rightarrow> kstate \<Rightarrow> (kstate, u32) res" where
  "bmap_ind ip bn s =
     bind (if ip_addrs (inodes s ! ip) ! NDIRECT = 0
           then bind (balloc (ip_dev (inodes s ! ip)) s) (\<lambda>addr s.
                  Ok addr (upd_inode ip (\<lambda>p. p\<lparr>ip_addrs := (ip_addrs p)[NDIRECT := addr]\<rparr>) s))
           else Ok (ip_addrs (inodes s ! ip) ! NDIRECT) s) (\<lambda>addr s.
     bind (bread (ip_dev (inodes s ! ip)) addr s) (\<lambda>bp s.
     bind (if get_ind (b_data (bufs s ! bp)) bn = 0
           then bind (balloc (ip_dev (inodes s ! ip)) s) (\<lambda>addr s.
                  let s = set_bdata bp (blit (b_data (bufs s ! bp)) (4 * bn) (put32 addr)) s
                  in bind (log_write bp s) (\<lambda>_ s. Ok addr s))
           else Ok (get_ind (b_data (bufs s ! bp)) bn) s) (\<lambda>addr s.
     bind (brelse bp s) (\<lambda>_ s. Ok addr s))))"

definition bmap :: "nat \<Rightarrow> u32 \<Rightarrow> kstate \<Rightarrow> (kstate, u32) res" where
  "bmap ip bn s =
     (if unat bn < NDIRECT then
        (let addr = ip_addrs (inodes s ! ip) ! unat bn in
         if addr = 0
         then bind (balloc (ip_dev (inodes s ! ip)) s) (\<lambda>addr s.
                Ok addr (upd_inode ip (\<lambda>p. p\<lparr>ip_addrs := (ip_addrs p)[unat bn := addr]\<rparr>) s))
         else Ok addr s)
      else if unat bn - NDIRECT < NINDIRECT then bmap_ind ip (unat bn - NDIRECT) s
      else Panic ''bmap: out of range'')"

primrec itrunc_direct :: "nat \<Rightarrow> nat list \<Rightarrow> kstate \<Rightarrow> (kstate, unit) res" where
  "itrunc_direct ip [] s = Ok () s"
| "itrunc_direct ip (i # js) s =
     (if ip_addrs (inodes s ! ip) ! i \<noteq> 0
      then bind (bfree (ip_dev (inodes s ! ip)) (ip_addrs (inodes s ! ip) ! i) s) (\<lambda>_ s.
             itrunc_direct ip js (upd_inode ip (\<lambda>p. p\<lparr>ip_addrs := (ip_addrs p)[i := 0]\<rparr>) s))
      else itrunc_direct ip js s)"

text \<open>The loop over the indirect block, which buffer \<open>bp\<close> holds.\<close>

primrec itrunc_ind :: "nat \<Rightarrow> nat \<Rightarrow> nat list \<Rightarrow> kstate \<Rightarrow> (kstate, unit) res" where
  "itrunc_ind ip bp [] s = Ok () s"
| "itrunc_ind ip bp (j # js) s =
     (let a = get_ind (b_data (bufs s ! bp)) j in
      if a \<noteq> 0 then bind (bfree (ip_dev (inodes s ! ip)) a s) (\<lambda>_ s. itrunc_ind ip bp js s)
      else itrunc_ind ip bp js s)"

definition itrunc :: "nat \<Rightarrow> kstate \<Rightarrow> (kstate, unit) res" where
  "itrunc ip s =
     bind (itrunc_direct ip [0..<NDIRECT] s) (\<lambda>_ s.
     bind (if ip_addrs (inodes s ! ip) ! NDIRECT \<noteq> 0
           then bind (bread (ip_dev (inodes s ! ip)) (ip_addrs (inodes s ! ip) ! NDIRECT) s) (\<lambda>bp s.
                bind (itrunc_ind ip bp [0..<NINDIRECT] s) (\<lambda>_ s.
                bind (brelse bp s) (\<lambda>_ s.
                bind (bfree (ip_dev (inodes s ! ip)) (ip_addrs (inodes s ! ip) ! NDIRECT) s) (\<lambda>_ s.
                  Ok () (upd_inode ip (\<lambda>p. p\<lparr>ip_addrs := (ip_addrs p)[NDIRECT := 0]\<rparr>) s)))))
           else Ok () s) (\<lambda>_ s.
       iupdate ip (upd_inode ip (\<lambda>p. p\<lparr>ip_size := 0\<rparr>) s)))"

definition iput :: "nat \<Rightarrow> kstate \<Rightarrow> (kstate, unit) res" where
  "iput ip s =
     bind (acquiresleep (SlInode ip) s) (\<lambda>_ s.
     bind (if ip_valid (inodes s ! ip) \<and> ip_nlink (inodes s ! ip) = 0
           then bind (acquire IcacheLock s) (\<lambda>_ s.
                  let r = ip_ref (inodes s ! ip) in
                bind (release IcacheLock s) (\<lambda>_ s.
                  if r = 1
                  then bind (itrunc ip s) (\<lambda>_ s.
                       bind (iupdate ip (upd_inode ip (\<lambda>p. p\<lparr>ip_type := 0\<rparr>) s)) (\<lambda>_ s.
                         Ok () (upd_inode ip (\<lambda>p. p\<lparr>ip_valid := False\<rparr>) s)))
                  else Ok () s))
           else Ok () s) (\<lambda>_ s.
     bind (releasesleep (SlInode ip) s) (\<lambda>_ s.
     bind (acquire IcacheLock s) (\<lambda>_ s.
       release IcacheLock (upd_inode ip (\<lambda>p. p\<lparr>ip_ref := ip_ref p - 1\<rparr>) s)))))"

definition iunlockput :: "nat \<Rightarrow> kstate \<Rightarrow> (kstate, unit) res" where
  "iunlockput ip s = bind (iunlock (Some ip) s) (\<lambda>_ s. iput ip s)"

text \<open>\<open>struct stat\<close> of \<open>stat.h\<close>.\<close>

record stat =
  st_type :: u16
  st_dev :: u32
  st_ino :: u32
  st_nlink :: u16
  st_size :: u32

definition stati :: "nat \<Rightarrow> kstate \<Rightarrow> stat" where
  "stati ip s = (let p = inodes s ! ip in
     \<lparr>st_type = ip_type p, st_dev = ip_dev p, st_ino = ip_inum p, st_nlink = ip_nlink p, st_size = ip_size p\<rparr>)"

end
