(* ===== verification/Ring.thy ===== *)
theory Ring
  imports Prelude
begin

text \<open>
  Ring buffers with counters that only go up, as pipes and the console have them: the counters are
  32 bits wide and wrap around, and a place in the array is a counter modulo the size. Because the
  size divides \<open>2 ^ 32\<close> the wrap-around is invisible. The locale states what the operations do to
  the list of the entries between two counters; it is interpreted for both sizes.
\<close>

definition ring_list :: "nat \<Rightarrow> 'a list \<Rightarrow> u32 \<Rightarrow> u32 \<Rightarrow> 'a list" where
  "ring_list N buf r w = map (\<lambda>k. buf ! (unat (r + of_nat k) mod N)) [0..<unat (w - r)]"

lemma length_ring_list [simp]: "length (ring_list N buf r w) = unat (w - r)"
  by (simp add: ring_list_def)

lemma ring_list_same [simp]: "ring_list N buf r r = []"
  by (simp add: ring_list_def)

lemma ring_list_nth: "k < unat (w - r) \<Longrightarrow> ring_list N buf r w ! k = buf ! (unat (r + of_nat k) mod N)"
  by (simp add: ring_list_def)

lemma distance_Suc:
  fixes w r :: u32
  assumes "unat (w - r) < 2 ^ 32 - 1"
  shows "unat (w + 1 - r) = Suc (unat (w - r))"
proof -
  have "unat (w - r + 1) = unat (w - r) + unat (1 :: u32)"
    using assms by (subst unat_add_lem [symmetric]) simp
  then show ?thesis by (simp add: algebra_simps)
qed

lemma distance_pred: "w \<noteq> r \<Longrightarrow> unat (w - r) = Suc (unat (w - r - 1))" for w r :: u32
  by (simp add: unat_minus_one unat_gt_0)

locale ring =
  fixes N :: nat
  assumes divides: "N dvd 2 ^ 32"
    and small: "N < 2 ^ 32"
begin

lemma place: "unat (r + of_nat k) mod N = (unat r + k) mod N" for r :: u32
proof -
  have "unat (r + of_nat k) = (unat r + k) mod 2 ^ 32"
    by (simp add: unat_word_ariths(1) unat_of_nat mod_add_right_eq)
  then show ?thesis by (simp only: mod_mod_cancel [OF divides])
qed

lemma of_distance: "w = r + of_nat (unat (w - r))" for w r :: u32
  by simp

lemma places_differ:
  fixes r :: u32
  assumes "k < n" "n < k + N"
  shows "unat (r + of_nat k) mod N \<noteq> unat (r + of_nat n) mod N"
proof
  assume "unat (r + of_nat k) mod N = unat (r + of_nat n) mod N"
  then have "(unat r + n) mod N = (unat r + k) mod N" by (simp only: place)
  then have "N dvd (unat r + n) - (unat r + k)" using assms(1) by (simp add: mod_eq_dvd_iff_nat)
  then have "N dvd n - k" by simp
  from dvd_imp_le [OF this] assms show False by simp
qed

lemma put_in:
  assumes "length buf = N" "unat (w - r) < N"
  shows "ring_list N (buf[unat w mod N := c]) r (w + 1) = ring_list N buf r w @ [c]"
    and "unat (w + 1 - r) = Suc (unat (w - r))"
proof -
  let ?n = "unat (w - r)"
  show d: "unat (w + 1 - r) = Suc ?n" using small assms(2) by (intro distance_Suc) linarith
  have w: "w = r + of_nat ?n" by simp
  have N: "0 < N" using assms(2) by simp
  show "ring_list N (buf[unat w mod N := c]) r (w + 1) = ring_list N buf r w @ [c]"
  proof (rule nth_equalityI)
    fix k
    assume "k < length (ring_list N (buf[unat w mod N := c]) r (w + 1))"
    then have k: "k \<le> ?n" by (simp add: d)
    show "ring_list N (buf[unat w mod N := c]) r (w + 1) ! k = (ring_list N buf r w @ [c]) ! k"
    proof (cases "k = ?n")
      case True
      then show ?thesis using assms(1) N by (simp add: ring_list_nth d nth_append)
    next
      case False
      then have "unat (r + of_nat k) mod N \<noteq> unat w mod N"
        using k assms(2) places_differ [of k ?n r] by simp
      then show ?thesis using False k by (simp add: ring_list_nth d nth_append)
    qed
  qed (simp add: d)
qed

lemma take_out:
  assumes "w \<noteq> r"
  shows "ring_list N buf r w = buf ! (unat r mod N) # ring_list N buf (r + 1) w"
    and "unat (w - r) = Suc (unat (w - (r + 1)))"
proof -
  have d: "unat (w - r) = Suc (unat (w - (r + 1)))"
    using distance_pred [OF assms] by (simp add: algebra_simps)
  show "ring_list N buf r w = buf ! (unat r mod N) # ring_list N buf (r + 1) w"
  proof (rule nth_equalityI)
    fix k
    assume "k < length (ring_list N buf r w)"
    then show "ring_list N buf r w ! k = (buf ! (unat r mod N) # ring_list N buf (r + 1) w) ! k"
      by (cases k) (simp_all add: ring_list_nth d algebra_simps)
  qed (simp add: d)
  show "unat (w - r) = Suc (unat (w - (r + 1)))" by (rule d)
qed

lemma drop_end:
  assumes "w \<noteq> r"
  shows "ring_list N buf r w = ring_list N buf r (w - 1) @ [buf ! (unat (w - 1) mod N)]"
    and "unat (w - r) = Suc (unat (w - 1 - r))"
proof -
  show d: "unat (w - r) = Suc (unat (w - 1 - r))"
    using distance_pred [OF assms] by (simp add: algebra_simps)
  show "ring_list N buf r w = ring_list N buf r (w - 1) @ [buf ! (unat (w - 1) mod N)]"
  proof (rule nth_equalityI)
    fix k
    assume "k < length (ring_list N buf r w)"
    moreover have "r + of_nat (unat (w - 1 - r)) = w - 1" by simp
    ultimately show "ring_list N buf r w ! k = (ring_list N buf r (w - 1) @ [buf ! (unat (w - 1) mod N)]) ! k"
      by (cases "k = unat (w - 1 - r)") (simp_all add: ring_list_nth d nth_append)
  qed (simp add: d)
qed

lemma concat_at:
  assumes "unat (e - r) = unat (w - r) + unat (e - w)"
  shows "ring_list N buf r e = ring_list N buf r w @ ring_list N buf w e"
proof (rule nth_equalityI)
  fix k
  assume k: "k < length (ring_list N buf r e)"
  have "w + of_nat (k - unat (w - r)) = r + of_nat k" if "unat (w - r) \<le> k"
    using that by (simp add: of_nat_diff)
  then show "ring_list N buf r e ! k = (ring_list N buf r w @ ring_list N buf w e) ! k"
    using k assms by (auto simp: ring_list_nth nth_append ac_simps)
qed (simp add: assms)

end

end
