(* ===== verification/Console.thy ===== *)
theory Console
  imports Inode Ring
begin

text \<open>
  The console as a device (\<open>console.c\<close>, \<open>uart.c\<close>): the interrupt handler that collects typed
  characters in the ring buffer \<open>input\<close> and edits the current line, and the device functions
  \<open>consoleread\<close> and \<open>consolewrite\<close>. The indices \<open>r\<close>, \<open>w\<close> and \<open>e\<close> of the ring count up without
  bound and wrap around at \<open>2 ^ 32\<close>.
\<close>

section \<open>The interrupt handler\<close>

abbreviation (input) INPUT_BUF :: nat where "INPUT_BUF \<equiv> 128"

definition upd_input :: "(inputbuf \<Rightarrow> inputbuf) \<Rightarrow> kstate \<Rightarrow> kstate" where
  "upd_input f s = s\<lparr>input := f (input s)\<rparr>"

text \<open>\<open>input.buf[i % INPUT_BUF]\<close>.\<close>

definition in_at :: "inputbuf \<Rightarrow> u32 \<Rightarrow> u8" where
  "in_at b i = in_buf b ! (unat i mod INPUT_BUF)"

text \<open>The loop for control-U moves \<open>e\<close> back to \<open>w\<close>, so that it makes at most \<open>e - w\<close> steps.\<close>

primrec kill_line :: "nat \<Rightarrow> kstate \<Rightarrow> (kstate, unit) res" where
  "kill_line 0 s = Ok () s"
| "kill_line (Suc n) s =
     (let b = input s in
      if in_e b \<noteq> in_w b \<and> in_at b (in_e b - 1) \<noteq> 10
      then bind (consputc BACKSPACE (upd_input (\<lambda>b. b\<lparr>in_e := in_e b - 1\<rparr>) s)) (\<lambda>_ s. kill_line n s)
      else Ok () s)"

text \<open>The body of the loop of \<open>consoleintr\<close>; the result says whether a process listing was asked for.\<close>

definition console_key :: "int \<Rightarrow> bool \<Rightarrow> kstate \<Rightarrow> (kstate, bool) res" where
  "console_key c doprocdump s =
     (if c = 16 then Ok True s
      else if c = 21 then
        bind (kill_line (unat (in_e (input s) - in_w (input s))) s) (\<lambda>_ s. Ok doprocdump s)
      else if c = 8 \<or> c = 127 then
        (if in_e (input s) \<noteq> in_w (input s)
         then bind (consputc BACKSPACE (upd_input (\<lambda>b. b\<lparr>in_e := in_e b - 1\<rparr>) s)) (\<lambda>_ s. Ok doprocdump s)
         else Ok doprocdump s)
      else if c \<noteq> 0 \<and> in_e (input s) - in_r (input s) < 128 then
        let c = (if c = 13 then 10 else c);
            s = upd_input (\<lambda>b. b\<lparr>in_buf := (in_buf b)[unat (in_e b) mod INPUT_BUF := of_int c], in_e := in_e b + 1\<rparr>) s
        in bind (consputc (of_int c) s) (\<lambda>_ s.
             if c = 10 \<or> c = 4 \<or> in_e (input s) = in_r (input s) + 128
             then bind (wakeup ChInput (upd_input (\<lambda>b. b\<lparr>in_w := in_e b\<rparr>) s)) (\<lambda>_ s. Ok doprocdump s)
             else Ok doprocdump s)
      else Ok doprocdump s)"

text \<open>
  \<open>getc\<close> is one of \<open>kbdgetc\<close> and \<open>uartgetc\<close>. What the device has ready when the handler runs is the
  list \<open>ds\<close>; \<open>getc\<close> is given the next data byte, or \<open>None\<close> when its status register shows no data.
  A device that still delivers then would keep the handler in its loop.
\<close>

primrec consoleintr_loop :: "u8 list \<Rightarrow> (u8 option \<Rightarrow> kstate \<Rightarrow> int \<times> kstate) \<Rightarrow> bool \<Rightarrow> kstate \<Rightarrow> (kstate, bool) res" where
  "consoleintr_loop [] getc doprocdump s =
     (case getc None s of (c, s) \<Rightarrow> if c < 0 then Ok doprocdump s else Spin)"
| "consoleintr_loop (d # ds) getc doprocdump s =
     (case getc (Some d) s of (c, s) \<Rightarrow>
        if c < 0 then Ok doprocdump s
        else bind (console_key c doprocdump s) (\<lambda>dump s. consoleintr_loop ds getc dump s))"

definition consoleintr :: "(u8 option \<Rightarrow> kstate \<Rightarrow> int \<times> kstate) \<Rightarrow> u8 list \<Rightarrow> kstate \<Rightarrow> (kstate, unit) res" where
  "consoleintr getc ds s =
     bind (acquire ConsLock s) (\<lambda>_ s.
     bind (consoleintr_loop ds getc False s) (\<lambda>doprocdump s.
     bind (release ConsLock s) (\<lambda>_ s.
       if doprocdump then procdump s else Ok () s)))"

definition uartgetc :: "u8 option \<Rightarrow> kstate \<Rightarrow> int \<times> kstate" where
  "uartgetc port s = (if \<not> uart s then (- 1, s) else case port of None \<Rightarrow> (- 1, s) | Some d \<Rightarrow> (uint d, s))"

definition uartintr :: "u8 list \<Rightarrow> kstate \<Rightarrow> (kstate, unit) res" where
  "uartintr ds s = consoleintr uartgetc ds s"

section \<open>Reading and writing the console\<close>

text \<open>How the loop of \<open>consoleread\<close> ends: the process was killed, or \<open>n\<close> bytes were not delivered.\<close>

datatype console_end = Killed | Left nat

text \<open>
  \<open>n\<close> counts the bytes still wanted, \<open>out\<close> the ones stored through \<open>dst\<close>. With no input the process
  sleeps; \<open>consoleread_resume\<close> goes on when it is woken.
\<close>

primrec consoleread_loop :: "nat \<Rightarrow> nat \<Rightarrow> u8 list \<Rightarrow> kstate \<Rightarrow> (kstate, console_end \<times> u8 list) res" where
  "consoleread_loop 0 target out s = Ok (Left 0, out) s"
| "consoleread_loop (Suc n) target out s =
     (if in_r (input s) = in_w (input s) then
        bind (myproc s) (\<lambda>p s.
          case p of None \<Rightarrow> Undef
          | Some p \<Rightarrow>
              if p_killed (procs s ! p) then Ok (Killed, out) s
              else bind (sleep ChInput (Some ConsLock) s) (\<lambda>_ s. Undef))
      else
        let c = in_at (input s) (in_r (input s));
            s = upd_input (\<lambda>b. b\<lparr>in_r := in_r b + 1\<rparr>) s
        in if c = 4
           then Ok (Left (Suc n), out)
                  (if Suc n < target then upd_input (\<lambda>b. b\<lparr>in_r := in_r b - 1\<rparr>) s else s)
           else if c = 10 then Ok (Left n, out @ [c]) s
           else consoleread_loop n target (out @ [c]) s)"

definition consoleread_end :: "nat \<Rightarrow> int \<Rightarrow> console_end \<times> u8 list \<Rightarrow> kstate \<Rightarrow> (kstate, int \<times> u8 list) res" where
  "consoleread_end ip target r s =
     bind (release ConsLock s) (\<lambda>_ s.
     bind (ilock (Some ip) s) (\<lambda>_ s.
       case r of (Killed, out) \<Rightarrow> Ok (- 1, out) s
       | (Left n, out) \<Rightarrow> Ok (target - int n, out) s))"

text \<open>With a negative count the loop is not entered and \<open>target - n\<close> is 0.\<close>

definition consoleread :: "nat \<Rightarrow> int \<Rightarrow> kstate \<Rightarrow> (kstate, int \<times> u8 list) res" where
  "consoleread ip n s =
     bind (iunlock (Some ip) s) (\<lambda>_ s.
     bind (acquire ConsLock s) (\<lambda>_ s.
     bind (consoleread_loop (nat n) (nat n) [] s) (\<lambda>r s. consoleread_end ip (max n 0) r s)))"

definition consoleread_resume ::
  "nat \<Rightarrow> int \<Rightarrow> nat \<Rightarrow> u8 list \<Rightarrow> bool \<Rightarrow> nat \<Rightarrow> u32 \<Rightarrow> kstate \<Rightarrow> (kstate, int \<times> u8 list) res" where
  "consoleread_resume ip target n out ie p start_ticks s =
     bind (sleep_resume ie p start_ticks ConsLock s) (\<lambda>_ s.
     bind (consoleread_loop n (nat target) out s) (\<lambda>r s. consoleread_end ip target r s))"

primrec consolewrite_loop :: "u8 list \<Rightarrow> kstate \<Rightarrow> (kstate, unit) res" where
  "consolewrite_loop [] s = Ok () s"
| "consolewrite_loop (c # cs) s = bind (consputc (ucast c) s) (\<lambda>_ s. consolewrite_loop cs s)"

text \<open>\<open>buf\<close> are the bytes at the caller's buffer, at least \<open>n\<close> of them.\<close>

definition consolewrite :: "nat \<Rightarrow> u8 list \<Rightarrow> int \<Rightarrow> kstate \<Rightarrow> (kstate, int) res" where
  "consolewrite ip buf n s =
     bind (iunlock (Some ip) s) (\<lambda>_ s.
     bind (acquire ConsLock s) (\<lambda>_ s.
     bind (consolewrite_loop (take (nat n) buf) s) (\<lambda>_ s.
     bind (release ConsLock s) (\<lambda>_ s.
     bind (ilock (Some ip) s) (\<lambda>_ s. Ok n s)))))"

section \<open>What the ring of input means\<close>

interpretation ir: ring INPUT_BUF
  by unfold_locales simp_all

text \<open>The bytes a reader may have, and the line still being edited.\<close>

definition committed :: "inputbuf \<Rightarrow> u8 list" where
  "committed b = ring_list INPUT_BUF (in_buf b) (in_r b) (in_w b)"

definition editing :: "inputbuf \<Rightarrow> u8 list" where
  "editing b = ring_list INPUT_BUF (in_buf b) (in_w b) (in_e b)"

text \<open>Bounds: \<open>r \<le> w \<le> e \<le> r + INPUT_BUF\<close>, on counters that wrap around; no line end is being edited.\<close>

definition lines_ok :: "inputbuf \<Rightarrow> bool" where
  "lines_ok b \<longleftrightarrow> length (in_buf b) = INPUT_BUF
     \<and> unat (in_e b - in_r b) = unat (in_w b - in_r b) + unat (in_e b - in_w b)
     \<and> unat (in_e b - in_r b) \<le> INPUT_BUF \<and> 10 \<notin> set (editing b)"

lemma length_parts [simp]:
  "length (committed b) = unat (in_w b - in_r b)" "length (editing b) = unat (in_e b - in_w b)"
  by (simp_all add: committed_def editing_def)

lemma lines_length: "lines_ok b \<Longrightarrow> length (committed b) + length (editing b) = unat (in_e b - in_r b)"
  by (simp add: lines_ok_def)

lemma editing_Nil: "editing b = [] \<longleftrightarrow> in_e b = in_w b"
  using length_parts(2) [of b] by (metis length_0_conv right_minus_eq unat_eq_0)

lemma committed_Nil: "committed b = [] \<longleftrightarrow> in_r b = in_w b"
  using length_parts(1) [of b] by (metis length_0_conv right_minus_eq unat_eq_0)

text \<open>What a key does to the two, and what is echoed.\<close>

definition rubout :: "u8 list" where
  "rubout = [8, 32, 8]"

definition key_step :: "int \<Rightarrow> u8 list \<times> u8 list \<Rightarrow> (u8 list \<times> u8 list) \<times> u8 list" where
  "key_step c = (\<lambda>(com, ed).
     if c = 16 then ((com, ed), [])
     else if c = 21 then ((com, []), concat (replicate (length ed) rubout))
     else if c = 8 \<or> c = 127 then (if ed = [] then ((com, ed), []) else ((com, butlast ed), rubout))
     else if c \<noteq> 0 \<and> length com + length ed < INPUT_BUF then
       let c = (if c = 13 then 10 else c); ed = ed @ [of_int c]
       in (if c = 10 \<or> c = 4 \<or> length com + length ed = INPUT_BUF then (com @ ed, []) else (com, ed), [of_int c])
     else ((com, ed), []))"

text \<open>Taking back the last byte of the line.\<close>

definition rub :: "inputbuf \<Rightarrow> inputbuf" where
  "rub b = b\<lparr>in_e := in_e b - 1\<rparr>"

lemma rub_ok:
  assumes "lines_ok b" "in_e b \<noteq> in_w b"
  shows "lines_ok (rub b)" "committed (rub b) = committed b" "editing b = editing (rub b) @ [in_at b (in_e b - 1)]"
    and "unat (in_e b - in_w b) = Suc (unat (in_e (rub b) - in_w (rub b)))"
proof -
  have "in_e b \<noteq> in_r b"
  proof
    assume "in_e b = in_r b"
    then have "unat (in_e b - in_w b) = 0" using assms(1) by (simp add: lines_ok_def)
    then show False using assms(2) by (simp add: unat_eq_zero)
  qed
  note er = ir.drop_end [OF this] and ew = ir.drop_end [OF assms(2)]
  show e: "editing b = editing (rub b) @ [in_at b (in_e b - 1)]"
    using ew(1) by (simp add: editing_def rub_def in_at_def)
  show "committed (rub b) = committed b" by (simp add: committed_def rub_def)
  show d: "unat (in_e b - in_w b) = Suc (unat (in_e (rub b) - in_w (rub b)))" using ew(2) by (simp add: rub_def)
  have "10 \<notin> set (editing (rub b))" using assms(1) e by (auto simp: lines_ok_def)
  then show "lines_ok (rub b)" using assms(1) er(2) d by (auto simp: lines_ok_def rub_def)
qed

text \<open>Storing a byte at the end of the line.\<close>

definition store :: "u8 \<Rightarrow> inputbuf \<Rightarrow> inputbuf" where
  "store c b = b\<lparr>in_buf := (in_buf b)[unat (in_e b) mod INPUT_BUF := c], in_e := in_e b + 1\<rparr>"

lemma store_ok:
  assumes "lines_ok b" "unat (in_e b - in_r b) < INPUT_BUF"
  shows "committed (store c b) = committed b" "editing (store c b) = editing b @ [c]"
    and "unat (in_e (store c b) - in_r (store c b)) = Suc (unat (in_e b - in_r b))"
    and "length (in_buf (store c b)) = INPUT_BUF"
    and "unat (in_e (store c b) - in_w (store c b)) = Suc (unat (in_e b - in_w b))"
proof -
  have len: "length (in_buf b) = INPUT_BUF" and
    sum: "unat (in_e b - in_r b) = unat (in_w b - in_r b) + unat (in_e b - in_w b)"
    using assms(1) by (auto simp: lines_ok_def)
  have lt: "unat (in_e b - in_w b) < INPUT_BUF" using assms(2) sum by simp
  note pw = ir.put_in [OF len lt] and prr = ir.put_in [OF len assms(2)]
  show "editing (store c b) = editing b @ [c]" using pw(1) by (simp add: editing_def store_def)
  show "unat (in_e (store c b) - in_r (store c b)) = Suc (unat (in_e b - in_r b))"
    "unat (in_e (store c b) - in_w (store c b)) = Suc (unat (in_e b - in_w b))"
    using prr(2) pw(2) by (simp_all add: store_def)
  show "length (in_buf (store c b)) = INPUT_BUF" using len by (simp add: store_def)
  show "committed (store c b) = committed b"
  proof (rule nth_equalityI)
    fix k
    assume "k < length (committed (store c b))"
    then have k: "k < unat (in_w b - in_r b)" by (simp add: store_def)
    have "in_e b = in_r b + of_nat (unat (in_e b - in_r b))" by simp
    then have "unat (in_r b + of_nat k) mod INPUT_BUF \<noteq> unat (in_e b) mod INPUT_BUF"
      using ir.places_differ [of k "unat (in_e b - in_r b)" "in_r b"] k sum assms(2) by simp
    then show "committed (store c b) ! k = committed b ! k"
      using k by (simp add: committed_def store_def ring_list_nth)
  qed (simp add: store_def)
qed

section \<open>The handler edits lines\<close>

text \<open>
  The state after some keys: the ring is \<open>b\<close>, the output is longer, and the readers may have been woken.
\<close>

definition con_rel :: "u8 list \<Rightarrow> inputbuf \<Rightarrow> kstate \<Rightarrow> kstate \<Rightarrow> bool" where
  "con_rel out b s t \<longleftrightarrow> (\<exists>ps. printed out (s\<lparr>procs := ps, input := b\<rparr>) t
     \<and> (ps = procs s \<or> ps = procs (wakeup1 ChInput s)))"

lemma printed_input: "printed out (s\<lparr>input := b\<rparr>) t \<Longrightarrow> con_rel out b s t"
  unfolding con_rel_def by (intro exI [of _ "procs s"]) simp

lemma con_rel_input: "con_rel out b s t \<Longrightarrow> input t = b \<and> crt_ok t \<and> length (procs t) = length (procs s)"
  by (auto simp: con_rel_def printed_def crt_ok_def wakeup1_def)

lemma con_rel_out: "con_rel out b s t \<Longrightarrow> cons_out t = cons_out s @ (if uart s then out else [])"
  by (auto simp: con_rel_def printed_def)

lemma printed_replace:
  assumes "printed out (s\<lparr>procs := ps, input := b\<rparr>) t"
  shows "printed out (s\<lparr>procs := qs, input := c\<rparr>) (t\<lparr>procs := qs, input := c\<rparr>)"
proof -
  from assms obtain m pos where t: "t = s\<lparr>procs := ps, input := b, cons_out := cons_out s @ (if uart s then out else []),
      crt_pos := pos, crt := m\<rparr>" "0 \<le> pos" "pos < 24 * 80" "\<forall>i. 24 * 80 \<le> i \<longrightarrow> m i = crt s i"
    unfolding printed_def by auto
  have "t\<lparr>procs := qs, input := c\<rparr> = s\<lparr>procs := qs, input := c, cons_out := cons_out s @ (if uart s then out else []),
      crt_pos := pos, crt := m\<rparr>" unfolding t(1) by (rule kstate.equality) simp_all
  with t(2-4) show ?thesis unfolding printed_def by (intro exI [of _ m] exI [of _ pos]) simp
qed

lemma con_rel_wakeup:
  assumes "con_rel out b s t"
  shows "con_rel out b s (wakeup1 ChInput t)"
proof -
  from assms obtain ps where ps: "printed out (s\<lparr>procs := ps, input := b\<rparr>) t"
    "ps = procs s \<or> ps = procs (wakeup1 ChInput s)" by (auto simp: con_rel_def)
  have "procs t = ps" "input t = b" using ps(1) by (auto simp: printed_def)
  then have "wakeup1 ChInput t = t\<lparr>procs := procs (wakeup1 ChInput s), input := b\<rparr>"
    using ps(2) by (intro kstate.equality) (auto simp: wakeup1_def)
  with printed_replace [OF ps(1)] show ?thesis unfolding con_rel_def by metis
qed

lemma con_rel_trans:
  assumes "con_rel o1 b1 s t" "con_rel o2 b2 t u"
  shows "con_rel (o1 @ o2) b2 s u"
proof -
  from assms(1) obtain ps where ps: "printed o1 (s\<lparr>procs := ps, input := b1\<rparr>) t"
    "ps = procs s \<or> ps = procs (wakeup1 ChInput s)" by (auto simp: con_rel_def)
  from assms(2) obtain qs where qs: "printed o2 (t\<lparr>procs := qs, input := b2\<rparr>) u"
    "qs = procs t \<or> qs = procs (wakeup1 ChInput t)" by (auto simp: con_rel_def)
  have "procs t = ps" using ps(1) by (auto simp: printed_def)
  then have "qs = procs s \<or> qs = procs (wakeup1 ChInput s)"
    using ps(2) qs(2) by (auto simp: wakeup1_def o_def)
  moreover have "printed (o1 @ o2) (s\<lparr>procs := qs, input := b2\<rparr>) u"
    using printed_replace [OF ps(1)] qs(1) by (rule printed_trans)
  ultimately show ?thesis unfolding con_rel_def by blast
qed

lemma consputc_rubout: "crt_ok s \<Longrightarrow> \<exists>t. consputc BACKSPACE s = Ok () t \<and> printed rubout s t"
proof -
  assume "crt_ok s"
  let ?s = "uartputc 8 (uartputc 32 (uartputc 8 s))"
  have "crt_ok ?s" using \<open>crt_ok s\<close> by (simp add: crt_ok_def uartputc_def)
  from cgaputc_ok [OF this, of BACKSPACE] obtain m pos where
    r: "cgaputc BACKSPACE ?s = Ok () (?s\<lparr>crt_pos := pos, crt := m\<rparr>)" "0 \<le> pos" "pos < 24 * 80"
       "\<forall>i. 24 * 80 \<le> i \<longrightarrow> m i = crt ?s i" by blast
  then have "printed rubout s (?s\<lparr>crt_pos := pos, crt := m\<rparr>)"
    unfolding printed_def uartputc_def rubout_def by (intro exI [of _ m] exI [of _ pos]) simp
  with r(1) show ?thesis by (simp add: consputc_def)
qed

lemma kill_line_ok:
  assumes "lines_ok (input s)" "crt_ok s" "n = length (editing (input s))"
  shows "\<exists>t b. kill_line n s = Ok () t \<and> con_rel (concat (replicate n rubout)) b s t
     \<and> lines_ok b \<and> committed b = committed (input s) \<and> editing b = []"
  using assms
proof (induction n arbitrary: s)
  case 0
  then show ?case
    by (intro exI [of _ s] exI [of _ "input s"])
       (auto intro!: printed_input printed_refl simp: length_0_conv [symmetric] simp del: length_0_conv)
next
  case (Suc n)
  let ?b = "input s" and ?s = "s\<lparr>input := rub (input s)\<rparr>"
  have ne: "in_e ?b \<noteq> in_w ?b" using Suc.prems(3) editing_Nil [of ?b] by (metis list.size(3) nat.simps(3))
  note r = rub_ok [OF Suc.prems(1) ne]
  have "in_at ?b (in_e ?b - 1) \<noteq> 10" using Suc.prems(1) r(3) by (auto simp: lines_ok_def)
  moreover obtain u where u: "consputc BACKSPACE ?s = Ok () u" "printed rubout ?s u"
    using consputc_rubout [of ?s] Suc.prems(2) by (auto simp: crt_ok_def)
  ultimately have k: "kill_line (Suc n) s = kill_line n u" using ne by (simp add: upd_input_def rub_def)
  have ru: "con_rel rubout (rub ?b) s u" using u(2) by (rule printed_input)
  note iu = con_rel_input [OF this]
  have "n = length (editing (input u))" using Suc.prems(3) r(4) iu by simp
  with Suc.IH [of u] iu r(1) obtain t b where
    "kill_line n u = Ok () t" "con_rel (concat (replicate n rubout)) b u t" "lines_ok b"
    "committed b = committed (rub ?b)" "editing b = []" by auto
  with k con_rel_trans [OF ru] r(2) show ?case by auto
qed

text \<open>Handing the line over to the readers.\<close>

definition hand_over :: "inputbuf \<Rightarrow> inputbuf" where
  "hand_over b = b\<lparr>in_w := in_e b\<rparr>"

lemma hand_over_ok:
  assumes "length (in_buf b) = INPUT_BUF" "unat (in_e b - in_r b) \<le> INPUT_BUF"
    and "unat (in_e b - in_r b) = unat (in_w b - in_r b) + unat (in_e b - in_w b)"
  shows "lines_ok (hand_over b)" "committed (hand_over b) = committed b @ editing b" "editing (hand_over b) = []"
  using assms ir.concat_at [OF assms(3), of "in_buf b"]
  by (simp_all add: hand_over_def lines_ok_def committed_def editing_def)

lemma of_int_byte:
  assumes "0 \<le> c" "c < 256"
  shows "ucast (of_int c :: u32) = (of_int c :: u8)" "(of_int c :: u32) \<noteq> 256" "(of_int c :: u8) = 10 \<longleftrightarrow> c = 10"
proof -
  have u: "uint (of_int c :: u32) = c" "uint (of_int c :: u8) = c"
    using assms by (simp_all add: uint_word_of_int_eq take_bit_int_eq_self)
  show "ucast (of_int c :: u32) = (of_int c :: u8)" by (metis u(1) ucast_eq)
  show "(of_int c :: u32) \<noteq> 256"
  proof
    assume h: "(of_int c :: u32) = 256"
    show False using u(1) assms(2) unfolding h by simp
  qed
  show "(of_int c :: u8) = 10 \<longleftrightarrow> c = 10"
  proof
    assume h: "(of_int c :: u8) = 10"
    show "c = 10" using u(2) unfolding h by simp
  qed simp
qed

lemma diff_128: "x = y + 128 \<longleftrightarrow> unat (x - y) = 128" for x y :: u32
proof
  assume "unat (x - y) = 128"
  then have "x - y = 128" by (simp add: word_unat_eq_iff)
  then show "x = y + 128" by (simp add: algebra_simps)
qed simp

lemma key_store_ok:
  assumes b: "lines_ok (input s)" "crt_ok s" "cpu_ok s" "lock_free PtableLock s" "0 \<le> c" "c < 256"
    and lt: "unat (in_e (input s) - in_r (input s)) < INPUT_BUF"
  defines "u \<equiv> s\<lparr>input := store (of_int c) (input s)\<rparr>"
    and "com \<equiv> committed (input s)" and "ed \<equiv> editing (input s) @ [of_int c]"
    and "now \<equiv> c = 10 \<or> c = 4 \<or> Suc (unat (in_e (input s) - in_r (input s))) = INPUT_BUF"
  shows "\<exists>t b. bind (consputc (of_int c) u) (\<lambda>_ s.
             if c = 10 \<or> c = 4 \<or> in_e (input s) = in_r (input s) + 128
             then bind (wakeup ChInput (upd_input (\<lambda>b. b\<lparr>in_w := in_e b\<rparr>) s)) (\<lambda>_ s. Ok d s)
             else Ok d s) = Ok d t
     \<and> con_rel [of_int c] b s t \<and> lines_ok b
     \<and> (committed b, editing b) = (if now then (com @ ed, []) else (com, ed))
     \<and> (now \<longrightarrow> (\<forall>p. \<not> waits_on ChInput t p))"
proof -
  let ?b = "store (of_int c) (input s)"
  note st = store_ok [OF b(1) lt, of "of_int c"] and byte = of_int_byte [OF b(5,6)]
  have "crt_ok u" using b(2) by (simp add: u_def crt_ok_def)
  from consputc_printed [OF this byte(2)] obtain v where
    v: "consputc (of_int c) u = Ok () v" "printed [of_int c] u v" by (auto simp: byte(1))
  have rel: "con_rel [of_int c] ?b s v" using v(2) unfolding u_def by (rule printed_input)
  have iv: "input v = ?b" using con_rel_input [OF rel] by simp
  have lv: "cpu_ok v" "lock_free PtableLock v" using v(2) b(3,4) by (auto simp: printed_def u_def)
  have sum: "unat (in_e ?b - in_r ?b) = unat (in_w ?b - in_r ?b) + unat (in_e ?b - in_w ?b)"
    using st(3,5) b(1) by (simp add: lines_ok_def store_def)
  have full: "in_e ?b = in_r ?b + 128 \<longleftrightarrow> Suc (unat (in_e (input s) - in_r (input s))) = INPUT_BUF"
    unfolding st(3) [symmetric] by (rule diff_128)
  show ?thesis
  proof (cases now)
    case True
    let ?w = "v\<lparr>input := hand_over ?b\<rparr>"
    note h = hand_over_ok [OF st(4) _ sum]
    have "wakeup ChInput (upd_input (\<lambda>b. b\<lparr>in_w := in_e b\<rparr>) v) = Ok () (wakeup1 ChInput ?w)"
      using lv by (simp add: upd_input_def hand_over_def iv lock_simps)
    moreover have "con_rel [of_int c] (hand_over ?b) s (wakeup1 ChInput ?w)"
      using con_rel_wakeup [OF con_rel_trans [OF rel printed_input [OF printed_refl]], of "hand_over ?b"]
        con_rel_input [OF rel] by (simp add: crt_ok_def)
    moreover have "\<not> waits_on ChInput (wakeup1 ChInput ?w) p" for p
      by (auto simp: waits_on_def wakeup1_def)
    ultimately show ?thesis
      using True v(1) h st(1-3) lt
      by (intro exI [of _ "wakeup1 ChInput ?w"] exI [of _ "hand_over ?b"])
         (auto simp: now_def iv full com_def ed_def)
  next
    case False
    have "lines_ok ?b"
      using False st b(1) lt sum byte(3) by (auto simp: lines_ok_def now_def)
    then show ?thesis
      using False v(1) rel st(1,2)
      by (intro exI [of _ v] exI [of _ ?b]) (auto simp: now_def iv full com_def ed_def)
  qed
qed

lemma console_key_ok:
  assumes "lines_ok (input s)" "crt_ok s" "cpu_ok s" "lock_free PtableLock s" "0 \<le> c" "c < 256"
  defines "k \<equiv> key_step c (committed (input s), editing (input s))"
  shows "\<exists>t b. console_key c d s = Ok (d \<or> c = 16) t \<and> con_rel (snd k) b s t \<and> lines_ok b
     \<and> (committed b, editing b) = fst k
     \<and> (committed b \<noteq> committed (input s) \<longrightarrow> (\<forall>p. \<not> waits_on ChInput t p))"
proof -
  let ?b = "input s"
  have same: "con_rel [] ?b s s" using assms(2) by (intro printed_input) (simp add: printed_refl)
  consider "c = 16" | "c = 21" | "c = 8 \<or> c = 127"
    | "c \<notin> {16, 21, 8, 127}" "c \<noteq> 0" "unat (in_e ?b - in_r ?b) < INPUT_BUF"
    | "c \<notin> {16, 21, 8, 127}" "c = 0 \<or> \<not> unat (in_e ?b - in_r ?b) < INPUT_BUF" by fastforce
  then show ?thesis
  proof cases
    case 1
    then show ?thesis using same assms(1) by (auto simp: console_key_def k_def key_step_def intro!: exI)
  next
    case 2
    from kill_line_ok [OF assms(1,2) refl] obtain t b where
      "kill_line (length (editing ?b)) s = Ok () t" "con_rel (concat (replicate (length (editing ?b)) rubout)) b s t"
      "lines_ok b" "committed b = committed ?b" "editing b = []" by blast
    then show ?thesis using 2 by (auto simp: console_key_def k_def key_step_def intro!: exI)
  next
    case 3
    show ?thesis
    proof (cases "in_e ?b = in_w ?b")
      case True
      then show ?thesis
        using 3 same assms(1) by (auto simp: console_key_def k_def key_step_def editing_Nil intro!: exI)
    next
      case False
      let ?s = "s\<lparr>input := rub ?b\<rparr>"
      note r = rub_ok [OF assms(1) False]
      obtain u where u: "consputc BACKSPACE ?s = Ok () u" "printed rubout ?s u"
        using consputc_rubout [of ?s] assms(2) by (auto simp: crt_ok_def)
      have "editing ?b \<noteq> []" "butlast (editing ?b) = editing (rub ?b)" unfolding r(3) by simp_all
      then show ?thesis
        using 3 False u(1) printed_input [OF u(2)] r(1,2)
        by (auto simp: console_key_def k_def key_step_def upd_input_def rub_def intro!: exI)
    qed
  next
    case 4
    let ?c = "if c = 13 then 10 else c"
    have c: "0 \<le> ?c" "?c < 256" using assms(5,6) by auto
    have lt: "in_e ?b - in_r ?b < 128" using 4(3) by (simp add: word_less_nat_alt)
    from key_store_ok [OF assms(1-4) c 4(3), of d] obtain t b where
      t: "bind (consputc (of_int ?c) (s\<lparr>input := store (of_int ?c) ?b\<rparr>)) (\<lambda>_ s.
             if ?c = 10 \<or> ?c = 4 \<or> in_e (input s) = in_r (input s) + 128
             then bind (wakeup ChInput (upd_input (\<lambda>b. b\<lparr>in_w := in_e b\<rparr>) s)) (\<lambda>_ s. Ok d s)
             else Ok d s) = Ok d t"
        "con_rel [of_int ?c] b s t" "lines_ok b"
        "(committed b, editing b) = (if ?c = 10 \<or> ?c = 4 \<or> Suc (unat (in_e ?b - in_r ?b)) = INPUT_BUF
           then (committed ?b @ editing ?b @ [of_int ?c], []) else (committed ?b, editing ?b @ [of_int ?c]))"
        "?c = 10 \<or> ?c = 4 \<or> Suc (unat (in_e ?b - in_r ?b)) = INPUT_BUF \<longrightarrow> (\<forall>p. \<not> waits_on ChInput t p)"
      by blast
    have "console_key c d s = Ok d t"
      using 4 lt t(1) by (simp add: console_key_def upd_input_def store_def Let_def)
    moreover have "k = ((committed b, editing b), [of_int ?c])"
      unfolding t(4) using 4 lines_length [OF assms(1)] by (auto simp: k_def key_step_def Let_def)
    ultimately show ?thesis using t(2-5) 4(1) by (auto split: if_splits intro!: exI)
  next
    case 5
    then have "\<not> (c \<noteq> 0 \<and> in_e ?b - in_r ?b < 128)" by (auto simp: word_less_nat_alt)
    then show ?thesis
      using 5 same assms(1) lines_length [OF assms(1)]
      by (auto simp: console_key_def k_def key_step_def intro!: exI)
  qed
qed

section \<open>Input devices\<close>

text \<open>
  What the handler relies on in \<open>kbdgetc\<close> and \<open>uartgetc\<close>: a device with no data gives -1; a data
  byte becomes a character, depending on and changing no more than the state of the shift keys.
\<close>

primrec decode :: "(u32 \<Rightarrow> u8 \<Rightarrow> int \<times> u32) \<Rightarrow> u8 list \<Rightarrow> u32 \<Rightarrow> int list \<times> u32" where
  "decode tr [] sh = ([], sh)"
| "decode tr (d # ds) sh =
     (case tr sh d of (c, sh) \<Rightarrow> case decode tr ds sh of (cs, sh) \<Rightarrow> (c # cs, sh))"

primrec key_steps :: "int list \<Rightarrow> u8 list \<times> u8 list \<Rightarrow> (u8 list \<times> u8 list) \<times> u8 list" where
  "key_steps [] x = (x, [])"
| "key_steps (c # cs) x =
     (case key_step c x of (x, o1) \<Rightarrow> case key_steps cs x of (x, o2) \<Rightarrow> (x, o1 @ o2))"

lemma con_rel_shift: "con_rel out b s t \<Longrightarrow> con_rel out b (s\<lparr>kbd_shift := k\<rparr>) (t\<lparr>kbd_shift := k\<rparr>)"
proof -
  assume "con_rel out b s t"
  then obtain ps m pos where t: "t = s\<lparr>procs := ps, input := b, cons_out := cons_out s @ (if uart s then out else []),
      crt_pos := pos, crt := m\<rparr>" "0 \<le> pos" "pos < 24 * 80" "\<forall>i. 24 * 80 \<le> i \<longrightarrow> m i = crt s i"
      "ps = procs s \<or> ps = procs (wakeup1 ChInput s)"
    unfolding con_rel_def printed_def by auto
  have "t\<lparr>kbd_shift := k\<rparr> = s\<lparr>kbd_shift := k, procs := ps, input := b,
      cons_out := cons_out s @ (if uart s then out else []), crt_pos := pos, crt := m\<rparr>"
    unfolding t(1) by (rule kstate.equality) simp_all
  with t(2-5) show ?thesis
    unfolding con_rel_def printed_def by (intro exI [of _ ps] conjI exI [of _ m] exI [of _ pos]) (auto simp: wakeup1_def)
qed

lemma con_rel_waits: "con_rel out b s t \<Longrightarrow> waits_on ChInput t p \<Longrightarrow> waits_on ChInput s p"
  by (auto simp: con_rel_def printed_def waits_on_def wakeup1_def split: if_splits)

lemma con_rel_locks:
  assumes "con_rel out b s t"
  shows "cpu_ok t = cpu_ok s" "lock_free lk t = lock_free lk s" "uart t = uart s" "kbd_shift t = kbd_shift s"
  using assms by (auto simp: con_rel_def printed_def)

lemma con_rel_taken:
  assumes "con_rel out b (taken lk s) t"
  shows "\<exists>u. t = taken lk u \<and> con_rel out b s u"
proof -
  from assms obtain ps m pos where t: "t = (taken lk s)\<lparr>procs := ps, input := b,
      cons_out := cons_out s @ (if uart s then out else []), crt_pos := pos, crt := m\<rparr>" "0 \<le> pos" "pos < 24 * 80"
      "\<forall>i. 24 * 80 \<le> i \<longrightarrow> m i = crt s i" "ps = procs s \<or> ps = procs (wakeup1 ChInput s)"
    unfolding con_rel_def printed_def by auto
  let ?u = "s\<lparr>procs := ps, input := b, cons_out := cons_out s @ (if uart s then out else []), crt_pos := pos, crt := m\<rparr>"
  have "t = taken lk ?u" unfolding t(1) by simp
  moreover have "con_rel out b s ?u"
    using t(2-5) unfolding con_rel_def printed_def
    by (intro exI [of _ ps] conjI exI [of _ m] exI [of _ pos]) auto
  ultimately show ?thesis by blast
qed

locale input_device =
  fixes getc :: "u8 option \<Rightarrow> kstate \<Rightarrow> int \<times> kstate"
    and tr :: "u32 \<Rightarrow> u8 \<Rightarrow> int \<times> u32"
  assumes no_data: "uart s \<Longrightarrow> getc None s = (- 1, s)"
    and data: "uart s \<Longrightarrow> getc (Some d) s = (fst (tr (kbd_shift s) d), s\<lparr>kbd_shift := snd (tr (kbd_shift s) d)\<rparr>)"
    and char: "0 \<le> fst (tr sh d)" "fst (tr sh d) < 256"
begin

lemma loop_ok:
  assumes "lines_ok (input s)" "crt_ok s" "cpu_ok s" "lock_free PtableLock s" "uart s"
    and "decode tr ds (kbd_shift s) = (cs, sh)"
    and "key_steps cs (committed (input s), editing (input s)) = (x, out)"
  shows "\<exists>t b. consoleintr_loop ds getc dump s = Ok (dump \<or> 16 \<in> set cs) t
     \<and> con_rel out b (s\<lparr>kbd_shift := sh\<rparr>) t \<and> lines_ok b \<and> (committed b, editing b) = x
     \<and> (committed b \<noteq> committed (input s) \<longrightarrow> (\<forall>p. \<not> waits_on ChInput t p))"
  using assms
proof (induction ds arbitrary: s cs x out dump)
  case Nil
  then have "con_rel [] (input s) s s" by (intro printed_input) (simp add: printed_refl)
  then show ?case using Nil no_data [OF Nil.prems(5)] by (auto intro!: exI [of _ s] exI [of _ "input s"])
next
  case (Cons d ds)
  obtain c k where ck: "tr (kbd_shift s) d = (c, k)" by fastforce
  from Cons.prems(6) ck obtain cs' where cs: "cs = c # cs'" "decode tr ds k = (cs', sh)"
    by (auto split: prod.splits)
  obtain y o1 where y: "key_step c (committed (input s), editing (input s)) = (y, o1)" by fastforce
  with Cons.prems(7) obtain o2 where o2: "out = o1 @ o2" "key_steps cs' y = (x, o2)"
    by (auto simp: cs(1) split: prod.splits)
  let ?s = "s\<lparr>kbd_shift := k\<rparr>"
  have c: "0 \<le> c" "c < 256" using char [of "kbd_shift s" d] by (simp_all add: ck)
  from console_key_ok [of ?s c dump] Cons.prems(1-4) c y obtain u b where
    u: "console_key c dump ?s = Ok (dump \<or> c = 16) u" "con_rel o1 b ?s u" "lines_ok b" "(committed b, editing b) = y"
       "committed b \<noteq> committed (input s) \<longrightarrow> (\<forall>p. \<not> waits_on ChInput u p)"
    by (auto simp: crt_ok_def)
  note iu = con_rel_input [OF u(2)] con_rel_locks [OF u(2)]
  have "kbd_shift u = k" "uart u" "cpu_ok u" "lock_free PtableLock u" using iu Cons.prems by simp_all
  with Cons.IH [of u cs' x o2 "dump \<or> c = 16"] iu(1) u(3,4) o2(2) cs(2) obtain t b' where
    t: "consoleintr_loop ds getc (dump \<or> c = 16) u = Ok ((dump \<or> c = 16) \<or> 16 \<in> set cs') t"
       "con_rel o2 b' (u\<lparr>kbd_shift := sh\<rparr>) t" "lines_ok b'" "(committed b', editing b') = x"
       "committed b' \<noteq> committed b \<longrightarrow> (\<forall>p. \<not> waits_on ChInput t p)" by auto
  have "con_rel out b' (s\<lparr>kbd_shift := sh\<rparr>) t"
    using con_rel_trans [OF con_rel_shift [OF u(2), of sh] t(2)] o2(1) by simp
  moreover have "waits_on ChInput u p" if "waits_on ChInput t p" for p
    using con_rel_waits [OF t(2) that] by (simp add: waits_on_def)
  moreover have "consoleintr_loop (d # ds) getc dump s = Ok (dump \<or> 16 \<in> set cs) t"
    using t(1) u(1) c data [OF Cons.prems(5), of d] by (auto simp: ck cs(1))
  ultimately show ?case using t(3-5) u(5) by metis
qed

lemma handler_ok:
  assumes "quiet s" "lines_ok (input s)" "crt_ok s" "uart s"
    and "decode tr ds (kbd_shift s) = (cs, sh)" "16 \<notin> set cs"
    and "key_steps cs (committed (input s), editing (input s)) = (x, out)"
  shows "\<exists>t. consoleintr getc ds s = Ok () t \<and> lines_ok (input t) \<and> (committed (input t), editing (input t)) = x
     \<and> con_rel out (input t) (s\<lparr>kbd_shift := sh\<rparr>) t
     \<and> (committed (input t) \<noteq> committed (input s) \<longrightarrow> (\<forall>p. \<not> waits_on ChInput t p))"
proof -
  let ?s = "taken ConsLock s"
  from loop_ok [of ?s ds cs sh x out False] assms obtain t b where
    t: "consoleintr_loop ds getc False ?s = Ok False t" "con_rel out b (?s\<lparr>kbd_shift := sh\<rparr>) t" "lines_ok b"
      "(committed b, editing b) = x" "committed b \<noteq> committed (input s) \<longrightarrow> (\<forall>p. \<not> waits_on ChInput t p)"
    by (auto simp: crt_ok_def)
  from t(2) have "con_rel out b (taken ConsLock (s\<lparr>kbd_shift := sh\<rparr>)) t" by simp
  from con_rel_taken [OF this] obtain u where u: "t = taken ConsLock u" "con_rel out b (s\<lparr>kbd_shift := sh\<rparr>) u" by blast
  have "input u = b" "cpu_ok u" "lock_free ConsLock u"
    using con_rel_input [OF u(2)] con_rel_locks [OF u(2)] assms(1) by simp_all
  moreover have "waits_on ChInput t p = waits_on ChInput u p" for p unfolding u(1) by (simp add: waits_on_def)
  ultimately show ?thesis
    using t u assms(1) by (intro exI [of _ u]) (auto simp: consoleintr_def lock_simps)
qed

end

lemma uint_u8: "uint (d :: u8) < 256"
proof -
  have "unat d < 256" using unsigned_less [of d] by simp
  moreover have "uint d = int (unat d)" by simp
  ultimately show ?thesis by linarith
qed

interpretation serial: input_device uartgetc "\<lambda>sh d. (uint d, sh)"
  by unfold_locales (auto simp: uartgetc_def uint_u8)

section \<open>Readers get lines\<close>

text \<open>
  What a reader of \<open>n\<close> bytes takes from the bytes it may have, and what it leaves: at most one line,
  and nothing beyond a control-D, which it consumes only when it has read nothing before it.
\<close>

fun line_read :: "bool \<Rightarrow> nat \<Rightarrow> u8 list \<Rightarrow> (u8 list \<times> u8 list) option" where
  "line_read got 0 com = Some ([], com)"
| "line_read got (Suc n) [] = None"
| "line_read got (Suc n) (c # com) =
     (if c = 4 then Some ([], if got then c # com else com)
      else if c = 10 then Some ([c], com)
      else map_option (\<lambda>(l, rest). (c # l, rest)) (line_read True n com))"

definition advance :: "inputbuf \<Rightarrow> inputbuf" where
  "advance b = b\<lparr>in_r := in_r b + 1\<rparr>"

lemma advance_ok:
  assumes "lines_ok b" "in_r b \<noteq> in_w b"
  shows "lines_ok (advance b)" "committed b = in_at b (in_r b) # committed (advance b)"
    and "editing (advance b) = editing b"
proof -
  have "in_e b \<noteq> in_r b"
  proof
    assume "in_e b = in_r b"
    then have "unat (in_w b - in_r b) = 0" using assms(1) by (simp add: lines_ok_def)
    then show False using assms(2) by (simp add: unat_eq_zero)
  qed
  note e = ir.take_out(2) [OF this] and w = ir.take_out [OF assms(2) [symmetric]]
  show "committed b = in_at b (in_r b) # committed (advance b)"
    using w(1) by (simp add: committed_def advance_def in_at_def)
  show ed: "editing (advance b) = editing b" by (simp add: editing_def advance_def)
  show "lines_ok (advance b)" using assms(1) e w(2) ed by (simp add: lines_ok_def advance_def)
qed

lemma consoleread_loop_ok:
  assumes "lines_ok (input s)" "n \<le> target" "line_read (n < target) n (committed (input s)) = Some (l, rest)"
  shows "\<exists>b. consoleread_loop n target out s = Ok (Left (n - length l), out @ l) (s\<lparr>input := b\<rparr>)
     \<and> lines_ok b \<and> committed b = rest \<and> editing b = editing (input s) \<and> length l \<le> n"
  using assms
proof (induction n arbitrary: s l out)
  case 0
  then show ?case by (intro exI [of _ "input s"]) simp
next
  case (Suc n)
  let ?b = "input s"
  have ne: "in_r ?b \<noteq> in_w ?b" using Suc.prems(3) committed_Nil [of ?b] by (cases "committed ?b") auto
  note a = advance_ok [OF Suc.prems(1) ne]
  let ?c = "in_at ?b (in_r ?b)" and ?s = "s\<lparr>input := advance ?b\<rparr>"
  have step: "consoleread_loop (Suc n) target out s = (if ?c = 4
      then Ok (Left (Suc n), out) (if Suc n < target then s else ?s)
      else if ?c = 10 then Ok (Left n, out @ [?c]) ?s else consoleread_loop n target (out @ [?c]) ?s)"
    using ne by (simp add: upd_input_def advance_def Let_def)
  have lr: "line_read (Suc n < target) (Suc n) (?c # committed (advance ?b)) = Some (l, rest)"
    using Suc.prems(3) unfolding a(2) .
  consider "?c = 4" "Suc n < target" | "?c = 4" "\<not> Suc n < target" | "?c = 10" "?c \<noteq> 4" | "?c \<noteq> 4" "?c \<noteq> 10" by blast
  then show ?case
  proof cases
    case 1
    then have "l = []" "rest = committed ?b" using lr unfolding a(2) by simp_all
    then show ?thesis using 1 step Suc.prems(1) by (intro exI [of _ ?b]) simp
  next
    case 2
    then have "l = []" "rest = committed (advance ?b)" using lr by simp_all
    then show ?thesis using 2 step a by (intro exI [of _ "advance ?b"]) simp
  next
    case 3
    then have "l = [10]" "rest = committed (advance ?b)" using lr by simp_all
    then show ?thesis using 3 step a by (intro exI [of _ "advance ?b"]) simp
  next
    case 4
    with lr obtain l' where l: "l = ?c # l'" "line_read True n (committed (advance ?b)) = Some (l', rest)" by auto
    have "line_read (n < target) n (committed (input ?s)) = Some (l', rest)" using l(2) Suc.prems(2) by simp
    from Suc.IH [OF _ _ this, of "out @ [?c]"] a(1,3) Suc.prems(2) obtain b where
      "consoleread_loop n target (out @ [?c]) ?s = Ok (Left (n - length l'), (out @ [?c]) @ l') (?s\<lparr>input := b\<rparr>)"
      "lines_ok b" "committed b = rest" "editing b = editing ?b" "length l' \<le> n" by auto
    then show ?thesis using step 4 l(1) by (intro exI [of _ b]) simp
  qed
qed

lemma inode_relock:
  assumes "quiet s" "cur_proc s = Some p" "ip < length (inodes s)" "0 < ip_ref (inodes s ! ip)"
    and "ip_valid (inodes s ! ip)" "sl_locked (ip_lock (inodes s ! ip))" "sl_pid (ip_lock (inodes s ! ip)) = my_pid s"
  shows "\<exists>u. iunlock (Some ip) s = Ok () u \<and> quiet u \<and> input u = input s
     \<and> (\<forall>b. \<exists>t. ilock (Some ip) (u\<lparr>input := b\<rparr>) = Ok () t \<and> input t = b)"
proof -
  let ?u = "wakeup1 (ChInodeLock ip) (set_sl (SlInode ip) ((get_sl (SlInode ip) s)\<lparr>sl_locked := False, sl_pid := 0\<rparr>) s)"
  have u: "iunlock (Some ip) s = Ok () ?u"
    using assms by (simp add: iunlock_def lock_simps)
  have q: "quiet ?u" "cur_proc ?u = Some p" "input ?u = input s" using assms(1,2) by (simp_all add: wakeup1_def)
  have i: "inodes ?u ! ip = (inodes s ! ip)\<lparr>ip_lock := (ip_lock (inodes s ! ip))\<lparr>sl_locked := False, sl_pid := 0\<rparr>\<rparr>"
    "length (inodes ?u) = length (inodes s)"
    using assms(3) by (simp_all add: wakeup1_def)
  have "\<exists>t. ilock (Some ip) (?u\<lparr>input := b\<rparr>) = Ok () t \<and> input t = b" for b
    using assms q i by (simp add: ilock_def ilock_load_def lock_simps)
  with u q show ?thesis by blast
qed

text \<open>
  C17. The console's line discipline: when the serial line delivers bytes, among them no
  control-P, the interrupt handler returns; afterwards the bytes a reader may have and the line being
  edited are those of an editor on two lists that appends characters, takes the last one back on
  backspace, drops the line on control-U, hands the line over at a line end, a control-D or when
  the buffer is full, and ignores what does not fit; the echo is what this editor prints; the ring's
  counters stay in order and at most the size of the buffer apart, although they wrap around; and if
  something was handed over, no process is left sleeping on the console.
\<close>

theorem console_line_discipline:
  assumes "quiet s" "lines_ok (input s)" "crt_ok s" "uart s" "16 \<notin> set ds"
    and "key_steps (map uint ds) (committed (input s), editing (input s)) = (x, out)"
  shows "\<exists>t. uartintr ds s = Ok () t \<and> lines_ok (input t) \<and> (committed (input t), editing (input t)) = x
     \<and> cons_out t = cons_out s @ out
     \<and> (committed (input t) \<noteq> committed (input s) \<longrightarrow> (\<forall>p. \<not> waits_on ChInput t p))"
proof -
  have d: "decode (\<lambda>sh d. (uint d, sh)) ds sh = (map uint ds, sh)" for sh by (induction ds) simp_all
  have "16 \<notin> uint ` set ds"
  proof
    assume "16 \<in> uint ` set ds"
    then obtain d where d: "d \<in> set ds" "uint d = 16" by auto
    have "d = 16" by (rule word_uint_eqI) (use d(2) in simp)
    then show False using assms(5) d(1) by simp
  qed
  then have "16 \<notin> set (map uint ds)" by simp
  from serial.handler_ok [OF assms(1-4) d this assms(6)] obtain t where
    t: "consoleintr uartgetc ds s = Ok () t" "lines_ok (input t)" "(committed (input t), editing (input t)) = x"
      "con_rel out (input t) (s\<lparr>kbd_shift := kbd_shift s\<rparr>) t"
      "committed (input t) \<noteq> committed (input s) \<longrightarrow> (\<forall>p. \<not> waits_on ChInput t p)" by blast
  moreover have "cons_out t = cons_out s @ out" using con_rel_out [OF t(4)] assms(4) by simp
  ultimately show ?thesis by (auto simp: uartintr_def)
qed

text \<open>
  C18. A read from the console returns what the reference reader \<open>line_read\<close> takes from the bytes handed over: at
  most one line, at most as many bytes as asked for, nothing beyond a control-D, and nothing at
  all for a control-D at the start; the rest stays for the next reader and the line being edited
  is not touched. Here the caller holds the lock of the inode of the console.
\<close>

theorem consoleread_reads_line:
  assumes "quiet s" "cur_proc s = Some p" "ip < length (inodes s)" "0 < ip_ref (inodes s ! ip)"
    and "ip_valid (inodes s ! ip)" "sl_locked (ip_lock (inodes s ! ip))" "sl_pid (ip_lock (inodes s ! ip)) = my_pid s"
    and "lines_ok (input s)" "line_read False n (committed (input s)) = Some (l, rest)"
  shows "\<exists>t. consoleread ip (int n) s = Ok (int (length l), l) t \<and> length l \<le> n
     \<and> committed (input t) = rest \<and> editing (input t) = editing (input s) \<and> lines_ok (input t)"
proof -
  from inode_relock [OF assms(1-7)] obtain u where u: "iunlock (Some ip) s = Ok () u" "quiet u" "input u = input s"
    "\<And>b. \<exists>t. ilock (Some ip) (u\<lparr>input := b\<rparr>) = Ok () t \<and> input t = b" by blast
  from consoleread_loop_ok [of "taken ConsLock u" n n l rest "[]"] assms(8,9) u(3) obtain b where
    b: "consoleread_loop n n [] (taken ConsLock u) = Ok (Left (n - length l), l) (taken ConsLock (u\<lparr>input := b\<rparr>))"
      "lines_ok b" "committed b = rest" "editing b = editing (input s)" "length l \<le> n" by auto
  from u(4) obtain t where t: "ilock (Some ip) (u\<lparr>input := b\<rparr>) = Ok () t" "input t = b" by blast
  have "consoleread ip (int n) s = Ok (int (length l), l) t"
    using u(1,2) b(1,5) t(1) by (simp add: consoleread_def consoleread_end_def lock_simps of_nat_diff)
  then show ?thesis using b t(2) by blast
qed

text \<open>
  One processor running one process, which has inode 0 locked. The ring holds a line, and the first
  byte of the next one, across the point where the counters wrap around.
\<close>

definition console_demo :: kstate where
  "console_demo = one_cpu\<lparr>cpus := [(cpu0 0)\<lparr>cpu_proc := Some 0\<rparr>], procs := [proc0\<lparr>p_state := RUNNING, p_pid := 1\<rparr>],
     inodes := [inode0\<lparr>ip_ref := 1, ip_valid := True, ip_lock := sleeplock0\<lparr>sl_locked := True, sl_pid := 1\<rparr>\<rparr>],
     input := \<lparr>in_buf = (replicate 128 0)[127 := 97, 0 := 98, 1 := 10, 2 := 99], in_r = 0xFFFFFFFF, in_w = 2, in_e = 3\<rparr>\<rparr>"

lemma console_demo_ok:
  "quiet console_demo" "cur_proc console_demo = Some 0" "my_pid console_demo = 1" "uart console_demo" "crt_ok console_demo"
  "committed (input console_demo) = [97, 98, 10]" "editing (input console_demo) = [99]" "lines_ok (input console_demo)"
proof -
  have c: "this_cpu console_demo = Some 0" by (simp add: console_demo_def this_cpu_def cpu0_def)
  then show "quiet console_demo"
    unfolding quiet_def
    by (simp add: cpu_ok_def) (simp add: console_demo_def cpu0_def lock_free_def spinlock0_def)
  show "cur_proc console_demo = Some 0" "my_pid console_demo = 1"
    using c by (simp_all add: cur_proc_def my_pid_def) (simp_all add: console_demo_def)
  show "uart console_demo" "crt_ok console_demo" by (simp_all add: console_demo_def one_cpu_def kstate0_def crt_ok_def)
  show "committed (input console_demo) = [97, 98, 10]" "editing (input console_demo) = [99]"
    by (simp_all add: committed_def editing_def ring_list_def console_demo_def upt_rec)
  then show "lines_ok (input console_demo)" by (simp add: lines_ok_def) (simp add: console_demo_def)
qed

text \<open>Typing \<open>d\<close>, backspace, \<open>e\<close> and return finishes the second line.\<close>

theorem console_line_discipline_witness:
  "\<exists>t. uartintr [100, 8, 101, 13] console_demo = Ok () t \<and> committed (input t) = [97, 98, 10, 99, 101, 10]
     \<and> editing (input t) = [] \<and> cons_out t = [100, 8, 32, 8, 101, 10]"
proof -
  have "key_steps (map uint [100 :: u8, 8, 101, 13]) ([97, 98, 10], [99])
      = (([97, 98, 10, 99, 101, 10], []), [100, 8, 32, 8, 101, 10])"
    by (simp add: key_step_def rubout_def)
  with console_line_discipline [of console_demo "[100, 8, 101, 13]"] show ?thesis
    using console_demo_ok by (auto simp: console_demo_def one_cpu_def kstate0_def)
qed

theorem consoleread_reads_line_witness:
  "\<exists>t. consoleread 0 10 console_demo = Ok (3, [97, 98, 10]) t \<and> committed (input t) = []
     \<and> editing (input t) = [99]"
proof -
  have "line_read False (Suc (Suc (Suc 7))) [97, 98, 10] = Some ([97, 98, 10], [])"
    by (simp only: line_read.simps) simp
  moreover have "inodes console_demo = [inode0\<lparr>ip_ref := 1, ip_valid := True, ip_lock := sleeplock0\<lparr>sl_locked := True, sl_pid := 1\<rparr>\<rparr>]"
    by (simp add: console_demo_def)
  ultimately show ?thesis
    using consoleread_reads_line [of console_demo 0 0 10 "[97, 98, 10]" "[]"] console_demo_ok by auto
qed

end
