(* ===== verification/Fs.thy ===== *)
theory Fs
  imports Console
begin

text \<open>
  The contents of inodes, directories and path names (the second half of \<open>fs.c\<close>). A buffer the C
  code passes to \<open>readi\<close> or \<open>writei\<close> is a list of bytes: what \<open>readi\<close> stores, in order, and what
  \<open>writei\<close> finds. A path is the array of its bytes, with its terminating NUL; a path that ends
  without one makes the code read past the array.
\<close>

section \<open>Reading and writing\<close>

text \<open>
  \<open>devsw\<close> after \<open>consoleinit\<close>: of the \<open>NDEV\<close> entries only the console's is set.
\<close>

definition has_dev :: "u16 \<Rightarrow> bool" where
  "has_dev major \<longleftrightarrow> 0 \<le> sint major \<and> sint major < int NDEV \<and> major = 1"

text \<open>The loops run while \<open>n - tot\<close>, here \<open>k\<close>, is not 0; each step takes at least one byte.\<close>

function readi_loop :: "nat \<Rightarrow> nat \<Rightarrow> nat \<Rightarrow> kstate \<Rightarrow> (kstate, u8 list) res" where
  "readi_loop ip off k s =
     (if k = 0 then Ok [] s
      else
        bind (bmap ip (of_nat (off div BSIZE)) s) (\<lambda>addr s.
        bind (bread (ip_dev (inodes s ! ip)) addr s) (\<lambda>bp s.
          let m = min k (BSIZE - off mod BSIZE);
              d = chunk (b_data (bufs s ! bp)) (off mod BSIZE) m
          in bind (brelse bp s) (\<lambda>_ s.
             bind (readi_loop ip (off + m) (k - m) s) (\<lambda>ds s. Ok (d @ ds) s)))))"
  by pat_completeness auto
termination by (relation "measure (\<lambda>(ip, off, k, s). k)") auto

declare readi_loop.simps [simp del]

definition readi :: "nat \<Rightarrow> u32 \<Rightarrow> u32 \<Rightarrow> kstate \<Rightarrow> (kstate, int \<times> u8 list) res" where
  "readi ip off n s =
     (let p = inodes s ! ip in
      if ip_type p = T_DEV then
        (if \<not> has_dev (ip_major p) then Ok (- 1, []) s else consoleread ip (sint n) s)
      else if ip_size p < off \<or> off + n < off then Ok (- 1, []) s
      else
        let n = (if ip_size p < off + n then ip_size p - off else n) in
        bind (readi_loop ip (unat off) (unat n) s) (\<lambda>ds s. Ok (sint n, ds) s))"

text \<open>\<open>src\<close> are the bytes not yet written; the result is \<open>off\<close> after the loop.\<close>

function writei_loop :: "nat \<Rightarrow> u8 list \<Rightarrow> nat \<Rightarrow> kstate \<Rightarrow> (kstate, nat) res" where
  "writei_loop ip src off s =
     (if src = [] then Ok off s
      else
        bind (bmap ip (of_nat (off div BSIZE)) s) (\<lambda>addr s.
        bind (bread (ip_dev (inodes s ! ip)) addr s) (\<lambda>bp s.
          let m = min (length src) (BSIZE - off mod BSIZE);
              s = set_bdata bp (blit (b_data (bufs s ! bp)) (off mod BSIZE) (take m src)) s
          in bind (log_write bp s) (\<lambda>_ s.
             bind (brelse bp s) (\<lambda>_ s. writei_loop ip (drop m src) (off + m) s)))))"
  by pat_completeness auto
termination by (relation "measure (\<lambda>(ip, src, off, s). length src)") auto

declare writei_loop.simps [simp del]

definition writei :: "nat \<Rightarrow> u8 list \<Rightarrow> u32 \<Rightarrow> u32 \<Rightarrow> kstate \<Rightarrow> (kstate, int) res" where
  "writei ip src off n s =
     (let p = inodes s ! ip in
      if ip_type p = T_DEV then
        (if \<not> has_dev (ip_major p) then Ok (- 1) s else consolewrite ip src (sint n) s)
      else if ip_size p < off \<or> off + n < off then Ok (- 1) s
      else if MAXFILE * BSIZE < unat (off + n) then Ok (- 1) s
      else if length src < unat n then Undef
      else
        bind (writei_loop ip (take (unat n) src) (unat off) s) (\<lambda>off s.
          if 0 < n \<and> unat (ip_size (inodes s ! ip)) < off
          then bind (iupdate ip (upd_inode ip (\<lambda>p. p\<lparr>ip_size := of_nat off\<rparr>) s)) (\<lambda>_ s. Ok (sint n) s)
          else Ok (sint n) s))"

section \<open>Directories\<close>

text \<open>\<open>struct dirent\<close>: a number and \<open>DIRSIZ\<close> bytes of name.\<close>

record dirent =
  de_inum :: u16
  de_name :: "u8 list"

definition get_dirent :: "u8 list \<Rightarrow> dirent" where
  "get_dirent d = \<lparr>de_inum = get16 d 0, de_name = chunk d 2 DIRSIZ\<rparr>"

definition put_dirent :: "dirent \<Rightarrow> u8 list" where
  "put_dirent de = put16 (de_inum de) @ de_name de"

definition namecmp :: "u8 list \<Rightarrow> u8 list \<Rightarrow> int option" where
  "namecmp s t = strncmp s t DIRSIZ"

text \<open>The result is the inode and the offset stored through \<open>poff\<close>.\<close>

function dirlookup_loop :: "nat \<Rightarrow> u8 list \<Rightarrow> nat \<Rightarrow> kstate \<Rightarrow> (kstate, (nat \<times> u32) option) res" where
  "dirlookup_loop dp name off s =
     (if off < unat (ip_size (inodes s ! dp)) then
        bind (readi dp (of_nat off) 16 s) (\<lambda>r s.
          if fst r \<noteq> 16 then Panic ''dirlookup read''
          else
            let de = get_dirent (snd r) in
            if de_inum de = 0 then dirlookup_loop dp name (off + 16) s
            else
              case namecmp name (de_name de) of
                None \<Rightarrow> Undef
              | Some c \<Rightarrow>
                  if c = 0
                  then bind (iget (ip_dev (inodes s ! dp)) (ucast (de_inum de)) s) (\<lambda>ip s.
                         Ok (Some (ip, of_nat off)) s)
                  else dirlookup_loop dp name (off + 16) s)
      else Ok None s)"
  by pat_completeness auto
termination
proof (relation "measure (\<lambda>(dp, name, off, s). 2 ^ 32 - off)", goal_cases)
  case (2 dp name off s r t de)
  then show ?case using unat32 [of "ip_size (inodes s ! dp)"] by simp
next
  case (3 dp name off s r t de c)
  then show ?case using unat32 [of "ip_size (inodes s ! dp)"] by simp
qed simp

declare dirlookup_loop.simps [simp del]

definition dirlookup :: "nat \<Rightarrow> u8 list \<Rightarrow> kstate \<Rightarrow> (kstate, (nat \<times> u32) option) res" where
  "dirlookup dp name s =
     (if ip_type (inodes s ! dp) \<noteq> T_DIR then Panic ''dirlookup not DIR''
      else dirlookup_loop dp name 0 s)"

text \<open>The search for a free entry of \<open>dirlink\<close>; it returns the offset at which it stops.\<close>

function dirlink_loop :: "nat \<Rightarrow> nat \<Rightarrow> kstate \<Rightarrow> (kstate, nat) res" where
  "dirlink_loop dp off s =
     (if off < unat (ip_size (inodes s ! dp)) then
        bind (readi dp (of_nat off) 16 s) (\<lambda>r s.
          if fst r \<noteq> 16 then Panic ''dirlink read''
          else if de_inum (get_dirent (snd r)) = 0 then Ok off s
          else dirlink_loop dp (off + 16) s)
      else Ok off s)"
  by pat_completeness auto
termination
proof (relation "measure (\<lambda>(dp, off, s). 2 ^ 32 - off)", goal_cases)
  case (2 dp off s r t)
  then show ?case using unat32 [of "ip_size (inodes s ! dp)"] by simp
qed simp

declare dirlink_loop.simps [simp del]

definition dirlink :: "nat \<Rightarrow> u8 list \<Rightarrow> u32 \<Rightarrow> kstate \<Rightarrow> (kstate, int) res" where
  "dirlink dp name inum s =
     bind (dirlookup dp name s) (\<lambda>r s.
       case r of
         Some (ip, _) \<Rightarrow> bind (iput ip s) (\<lambda>_ s. Ok (- 1) s)
       | None \<Rightarrow>
           bind (dirlink_loop dp 0 s) (\<lambda>off s.
             case strncpy (replicate DIRSIZ 0) name DIRSIZ of
               None \<Rightarrow> Undef
             | Some nm \<Rightarrow>
                 bind (writei dp (put_dirent \<lparr>de_inum = ucast inum, de_name = nm\<rparr>) (of_nat off) 16 s) (\<lambda>n s.
                   if n \<noteq> 16 then Panic ''dirlink'' else Ok 0 s)))"

section \<open>Path names\<close>

text \<open>\<open>while(*path == '/') path++\<close> and \<open>while(*path != '/' && *path != 0) path++\<close>.\<close>

fun skip_slashes :: "u8 list \<Rightarrow> u8 list option" where
  "skip_slashes [] = None"
| "skip_slashes (c # path) = (if c = 47 then skip_slashes path else Some (c # path))"

fun skip_name :: "u8 list \<Rightarrow> (u8 list \<times> u8 list) option" where
  "skip_name [] = None"
| "skip_name (c # path) =
     (if c \<noteq> 47 \<and> c \<noteq> 0 then map_option (\<lambda>(e, rest). (c # e, rest)) (skip_name path)
      else Some ([], c # path))"

text \<open>
  \<open>name\<close> is the caller's array. The outer option is \<open>None\<close> where the code reads past the path, the
  inner one where \<open>skipelem\<close> returns 0; otherwise the result is the rest of the path and the name.
\<close>

definition skipelem :: "u8 list \<Rightarrow> u8 list \<Rightarrow> (u8 list \<times> u8 list) option option" where
  "skipelem path name =
     (case skip_slashes path of
        None \<Rightarrow> None
      | Some path \<Rightarrow>
          if hd path = 0 then Some None
          else
            case skip_name path of
              None \<Rightarrow> None
            | Some (e, path) \<Rightarrow>
                let name = (if DIRSIZ \<le> length e then blit name 0 (take DIRSIZ e) else blit name 0 (e @ [0]))
                in map_option (\<lambda>path. Some (path, name)) (skip_slashes path))"

lemma skip_slashes_length: "skip_slashes path = Some p \<Longrightarrow> length p \<le> length path \<and> p \<noteq> []"
  by (induction path arbitrary: p) (auto split: if_splits dest: le_SucI)

lemma skip_name_length: "skip_name path = Some (e, p) \<Longrightarrow> length p + length e = length path \<and> p \<noteq> []"
  by (induction path arbitrary: p e) (auto split: if_splits prod.splits)

lemma skipelem_shorter:
  assumes "skipelem path name = Some (Some (p, nm))"
  shows "length p < length path"
proof -
  from assms obtain q e r where *: "skip_slashes path = Some q" "hd q \<noteq> 0" "skip_name q = Some (e, r)" "skip_slashes r = Some p"
    by (auto simp: skipelem_def Let_def split: option.splits if_splits prod.splits)
  have "e \<noteq> []"
  proof
    assume "e = []"
    obtain c q' where q: "q = c # q'" using skip_slashes_length [OF *(1)] by (cases q) auto
    then have "c \<noteq> 47" using *(1) by (induction path) (auto split: if_splits)
    with q *(2,3) \<open>e = []\<close> show False by (auto split: if_splits prod.splits)
  qed
  then show ?thesis
    using skip_slashes_length [OF *(1)] skip_name_length [OF *(3)] skip_slashes_length [OF *(4)]
    by (cases e) auto
qed

text \<open>The loop of \<open>namex\<close> at inode \<open>ip\<close>; the result is the inode, if any, and the array \<open>name\<close>.\<close>

function namex_loop :: "bool \<Rightarrow> u8 list \<Rightarrow> u8 list \<Rightarrow> nat \<Rightarrow> kstate \<Rightarrow> (kstate, nat option \<times> u8 list) res" where
  "namex_loop parent path name ip s =
     (case skipelem path name of
        None \<Rightarrow> Undef
      | Some None \<Rightarrow>
          if parent then bind (iput ip s) (\<lambda>_ s. Ok (None, name) s) else Ok (Some ip, name) s
      | Some (Some (path, name)) \<Rightarrow>
          bind (ilock (Some ip) s) (\<lambda>_ s.
            if ip_type (inodes s ! ip) \<noteq> T_DIR then bind (iunlockput ip s) (\<lambda>_ s. Ok (None, name) s)
            else if parent \<and> hd path = 0 then bind (iunlock (Some ip) s) (\<lambda>_ s. Ok (Some ip, name) s)
            else
              bind (dirlookup ip name s) (\<lambda>next s.
                case next of
                  None \<Rightarrow> bind (iunlockput ip s) (\<lambda>_ s. Ok (None, name) s)
                | Some (nx, _) \<Rightarrow> bind (iunlockput ip s) (\<lambda>_ s. namex_loop parent path name nx s))))"
  by pat_completeness auto
termination
  by (relation "measure (\<lambda>(parent, path, name, ip, s). length path)") (auto simp: skipelem_shorter)

declare namex_loop.simps [simp del]

definition namex :: "u8 list \<Rightarrow> bool \<Rightarrow> u8 list \<Rightarrow> kstate \<Rightarrow> (kstate, nat option \<times> u8 list) res" where
  "namex path parent name s =
     (case path of
        [] \<Rightarrow> Undef
      | c # _ \<Rightarrow>
          bind (if c = 47 then iget ROOTDEV ROOTINO s
                else bind (myproc s) (\<lambda>p s.
                       case p of None \<Rightarrow> Undef
                       | Some p \<Rightarrow> (case p_cwd (procs s ! p) of None \<Rightarrow> Undef | Some cwd \<Rightarrow> idup cwd s)))
            (\<lambda>ip s. namex_loop parent path name ip s))"

definition namei :: "u8 list \<Rightarrow> kstate \<Rightarrow> (kstate, nat option) res" where
  "namei path s = bind (namex path False (replicate DIRSIZ 0) s) (\<lambda>r s. Ok (fst r) s)"

definition nameiparent :: "u8 list \<Rightarrow> u8 list \<Rightarrow> kstate \<Rightarrow> (kstate, nat option \<times> u8 list) res" where
  "nameiparent path name s = namex path True name s"

section \<open>What a path means\<close>

text \<open>The parts of a list between separators, and the elements of a path: its parts that are not empty.\<close>

fun splits :: "'a \<Rightarrow> 'a list \<Rightarrow> 'a list list" where
  "splits c [] = [[]]"
| "splits c (x # xs) = (if x = c then [] # splits c xs
     else (x # hd (splits c xs)) # tl (splits c xs))"

definition path_elems :: "u8 list \<Rightarrow> u8 list list" where
  "path_elems w = filter (\<lambda>e. e \<noteq> []) (splits 47 w)"

text \<open>The string in an array of \<open>DIRSIZ\<close> bytes, which need not be terminated.\<close>

definition dir_name :: "u8 list \<Rightarrow> u8 list" where
  "dir_name nm = takeWhile (\<lambda>c. c \<noteq> 0) (take DIRSIZ nm)"

lemma splits_not_Nil: "splits c xs \<noteq> []"
  by (cases xs) auto

lemma splits_first: "splits c xs = takeWhile (\<lambda>x. x \<noteq> c) xs #
     (case dropWhile (\<lambda>x. x \<noteq> c) xs of [] \<Rightarrow> [] | _ # ys \<Rightarrow> splits c ys)"
  by (induction xs) (auto split: list.splits)

lemma path_elems_slash: "path_elems (47 # w) = path_elems w"
  by (simp add: path_elems_def)

lemma path_elems_drop: "path_elems (dropWhile (\<lambda>c. c = 47) w) = path_elems w"
  by (induction w) (auto simp: path_elems_slash)

lemma path_elems_first:
  assumes "w \<noteq> []" "hd w \<noteq> 47"
  shows "path_elems w = takeWhile (\<lambda>c. c \<noteq> 47) w # path_elems (dropWhile (\<lambda>c. c \<noteq> 47) w)"
proof -
  define d where "d = dropWhile (\<lambda>c. c \<noteq> 47) w"
  have "takeWhile (\<lambda>c. c \<noteq> 47) w \<noteq> []" using assms by (cases w) auto
  moreover have "splits 47 w = takeWhile (\<lambda>c. c \<noteq> 47) w # (case d of [] \<Rightarrow> [] | _ # ys \<Rightarrow> splits 47 ys)"
    unfolding d_def by (rule splits_first)
  moreover have "hd d = 47" if "d \<noteq> []"
    using hd_dropWhile that unfolding d_def by blast
  ultimately show ?thesis
    unfolding d_def [symmetric] by (cases d) (simp_all add: path_elems_def)
qed

lemma skip_slashes_eq: "skip_slashes (w @ 0 # junk) = Some (dropWhile (\<lambda>c. c = 47) w @ 0 # junk)"
  by (induction w) auto

lemma skip_name_eq:
  "0 \<notin> set w \<Longrightarrow> skip_name (w @ 0 # junk)
     = Some (takeWhile (\<lambda>c. c \<noteq> 47) w, dropWhile (\<lambda>c. c \<noteq> 47) w @ 0 # junk)"
  by (induction w) auto

text \<open>Writing an element into the array \<open>name\<close> of \<open>DIRSIZ\<close> bytes.\<close>

lemma dir_name_blit:
  assumes "0 \<notin> set e" "length name = DIRSIZ"
  shows "dir_name (if DIRSIZ \<le> length e then blit name 0 (take DIRSIZ e) else blit name 0 (e @ [0])) = take DIRSIZ e"
proof -
  have t: "takeWhile (\<lambda>c. c \<noteq> 0) (e @ 0 # r) = e" for r
    using assms(1) by (simp add: takeWhile_append takeWhile_eq_all_conv) 
  have "takeWhile (\<lambda>c. c \<noteq> 0) (take 14 e) = take 14 e"
    using assms(1) by (auto simp: takeWhile_eq_all_conv dest: in_set_takeD)
  then show ?thesis
    using assms(2) t by (auto simp: dir_name_def blit_def min_def)
qed

lemma skipelem_eq:
  assumes "0 \<notin> set w"
  defines "v \<equiv> dropWhile (\<lambda>c. c = 47) w"
  defines "e \<equiv> takeWhile (\<lambda>c. c \<noteq> 47) v" and "r \<equiv> dropWhile (\<lambda>c. c = 47) (dropWhile (\<lambda>c. c \<noteq> 47) v)"
  shows "skipelem (w @ 0 # junk) name = (if v = [] then Some None else
     Some (Some (r @ 0 # junk, if DIRSIZ \<le> length e then blit name 0 (take DIRSIZ e) else blit name 0 (e @ [0]))))"
proof -
  have "0 \<notin> set v" using assms(1) by (auto simp: v_def dest: set_dropWhileD)
  show ?thesis
  proof (cases "v = []")
    case False
    then have "hd v \<noteq> 0" using \<open>0 \<notin> set v\<close> hd_in_set by metis
    then show ?thesis
      using False \<open>0 \<notin> set v\<close>
      by (simp add: skipelem_def skip_slashes_eq skip_name_eq v_def [symmetric] e_def r_def)
  qed (simp add: skipelem_def skip_slashes_eq v_def [symmetric])
qed

text \<open>
  C16. \<open>skipelem\<close> takes a path apart: at the end of a path, however many slashes are left, it
  returns 0; otherwise it returns the rest of the path and leaves in \<open>name\<close> the next element, cut
  off after \<open>DIRSIZ\<close> bytes. Here the elements of a path are its non-empty parts between slashes. The
  rest is a suffix of the path that does not start with a slash and is shorter, and it is empty
  exactly when the element was the last one, so walking a path ends.
\<close>

theorem skipelem_next:
  assumes "0 \<notin> set w" "length name = DIRSIZ"
  shows "(path_elems w = [] \<longrightarrow> skipelem (w @ 0 # junk) name = Some None)
     \<and> (\<forall>e es. path_elems w = e # es \<longrightarrow>
       (\<exists>r nm. skipelem (w @ 0 # junk) name = Some (Some (r @ 0 # junk, nm))
          \<and> dir_name nm = take DIRSIZ e \<and> length nm = DIRSIZ
          \<and> path_elems r = es \<and> (r = [] \<longleftrightarrow> es = []) \<and> length r < length w
          \<and> (\<exists>q. w = q @ r) \<and> (r \<noteq> [] \<longrightarrow> hd r \<noteq> 47)))"
proof -
  define v where "v = dropWhile (\<lambda>c. c = 47) w"
  define e where "e = takeWhile (\<lambda>c. c \<noteq> 47) v"
  define r where "r = dropWhile (\<lambda>c. c = 47) (dropWhile (\<lambda>c. c \<noteq> 47) v)"
  note eq = skipelem_eq [OF assms(1), of junk name, folded v_def, folded e_def r_def]
  have pv: "path_elems w = path_elems v" by (simp add: v_def path_elems_drop)
  show ?thesis
  proof (cases "v = []")
    case True
    then show ?thesis using eq pv by (simp add: path_elems_def)
  next
    case False
    have h: "hd v \<noteq> 47" using False hd_dropWhile unfolding v_def by blast
    have w: "w = takeWhile (\<lambda>c. c = 47) w @ e @ takeWhile (\<lambda>c. c = 47) (dropWhile (\<lambda>c. c \<noteq> 47) v) @ r"
      by (simp add: e_def r_def v_def)
    have ne: "e \<noteq> []" using False h by (cases v) (auto simp: e_def)
    have pe: "path_elems w = e # path_elems r"
      unfolding pv path_elems_first [OF False h] r_def path_elems_drop e_def ..
    have rh: "r \<noteq> [] \<Longrightarrow> hd r \<noteq> 47" using hd_dropWhile unfolding r_def by blast
    have "r = [] \<longleftrightarrow> path_elems r = []"
      using path_elems_first [OF _ rh] by (cases "r = []") (auto simp: path_elems_def)
    moreover have "length r < length w" using ne arg_cong [OF w, of length] by simp
    moreover have "0 \<notin> set e" using assms(1) arg_cong [OF w, of set] by auto
    ultimately have "r = [] \<longleftrightarrow> path_elems r = []" "length r < length w" "0 \<notin> set e" by blast+
    moreover define nm where
      "nm = (if DIRSIZ \<le> length e then blit name 0 (take DIRSIZ e) else blit name 0 (e @ [0]))"
    moreover have "length nm = DIRSIZ" using assms(2) by (auto simp: nm_def)
    moreover have "\<exists>q. w = q @ r" using w by (metis append.assoc)
    ultimately have "skipelem (w @ 0 # junk) name = Some (Some (r @ 0 # junk, nm))
        \<and> dir_name nm = take DIRSIZ e \<and> length nm = DIRSIZ \<and> (r = [] \<longleftrightarrow> path_elems r = [])
        \<and> length r < length w \<and> (\<exists>q. w = q @ r) \<and> (r \<noteq> [] \<longrightarrow> hd r \<noteq> 47)"
      using eq False rh dir_name_blit [OF _ assms(2), of e] by simp
    then show ?thesis unfolding pe by blast
  qed
qed

theorem skipelem_next_witness:
  "\<exists>r nm. skipelem ([47, 97, 47, 47, 98, 99] @ 0 # [7]) (replicate 14 1) = Some (Some (r @ 0 # [7], nm))
     \<and> dir_name nm = [97] \<and> path_elems r = [[98, 99]]"
proof -
  have "path_elems [47, 97, 47, 47, 98, 99] = [[97], [98, 99]]" by (simp add: path_elems_def)
  with skipelem_next [of "[47, 97, 47, 47, 98, 99]" "replicate 14 1" "[7]"] show ?thesis by fastforce
qed

end
