(* ===== verification/Pipe.thy ===== *)
theory Pipe
  imports Txn Ring
begin

text \<open>
  Pipes (\<open>pipe.c\<close>): a ring of \<open>PIPESIZE\<close> bytes between a writing and a reading end. The counters
  \<open>nread\<close> and \<open>nwrite\<close> only go up and wrap around at \<open>2 ^ 32\<close>. A pipe is named by the address of its
  page. \<open>pipealloc\<close> is in theory \<open>File\<close>, with the file table.
\<close>

section \<open>Operations\<close>

abbreviation (input) PIPESIZE :: nat where "PIPESIZE \<equiv> 512"

definition upd_pipe :: "u32 \<Rightarrow> (pipe \<Rightarrow> pipe) \<Rightarrow> kstate \<Rightarrow> kstate" where
  "upd_pipe p f s = s\<lparr>pipes := (pipes s)(p := f (pipes s p))\<rparr>"

definition pipeclose :: "u32 \<Rightarrow> bool \<Rightarrow> kstate \<Rightarrow> (kstate, unit) res" where
  "pipeclose p writable s =
     bind (acquire (PipeLock p) s) (\<lambda>_ s.
     bind (if writable
           then wakeup (ChNread p) (upd_pipe p (\<lambda>q. q\<lparr>pi_writeopen := False\<rparr>) s)
           else wakeup (ChNwrite p) (upd_pipe p (\<lambda>q. q\<lparr>pi_readopen := False\<rparr>) s)) (\<lambda>_ s.
       if \<not> pi_readopen (pipes s p) \<and> \<not> pi_writeopen (pipes s p)
       then bind (release (PipeLock p) s) (\<lambda>_ s. kfree p s)
       else release (PipeLock p) s))"

definition am_killed :: "kstate \<Rightarrow> (kstate, bool) res" where
  "am_killed s = bind (myproc s) (\<lambda>q s. case q of None \<Rightarrow> Undef | Some q \<Rightarrow> Ok (p_killed (procs s ! q)) s)"

text \<open>
  The loop of \<open>pipewrite\<close> over the bytes still to be written; \<open>False\<close> is the early return of -1.
  The test of a full pipe sleeps; \<open>pipewrite_resume\<close> repeats it when the process is woken.
\<close>

primrec pipewrite_loop :: "u8 list \<Rightarrow> u32 \<Rightarrow> kstate \<Rightarrow> (kstate, bool) res" where
  "pipewrite_loop [] p s = Ok True s"
| "pipewrite_loop (c # cs) p s =
     (if pi_nwrite (pipes s p) = pi_nread (pipes s p) + 512 then
        bind (if \<not> pi_readopen (pipes s p) then Ok True s else am_killed s) (\<lambda>stop s.
          if stop then Ok False s
          else
            bind (wakeup (ChNread p) s) (\<lambda>_ s.
            bind (sleep (ChNwrite p) (Some (PipeLock p)) s) (\<lambda>_ s. Undef)))
      else
        pipewrite_loop cs p (upd_pipe p (\<lambda>q. q\<lparr>pi_data := (pi_data q)[unat (pi_nwrite q) mod PIPESIZE := c],
          pi_nwrite := pi_nwrite q + 1\<rparr>) s))"

definition pipewrite_end :: "u32 \<Rightarrow> int \<Rightarrow> bool \<Rightarrow> kstate \<Rightarrow> (kstate, int) res" where
  "pipewrite_end p n ok s =
     (if ok
      then bind (wakeup (ChNread p) s) (\<lambda>_ s. bind (release (PipeLock p) s) (\<lambda>_ s. Ok n s))
      else bind (release (PipeLock p) s) (\<lambda>_ s. Ok (- 1) s))"

text \<open>\<open>addr\<close> are the bytes at the caller's buffer; a buffer shorter than \<open>n\<close> is read past its end.\<close>

definition pipewrite :: "u32 \<Rightarrow> u8 list \<Rightarrow> int \<Rightarrow> kstate \<Rightarrow> (kstate, int) res" where
  "pipewrite p addr n s =
     (if length addr < nat n then Undef
      else
        bind (acquire (PipeLock p) s) (\<lambda>_ s.
        bind (pipewrite_loop (take (nat n) addr) p s) (\<lambda>ok s. pipewrite_end p n ok s)))"

definition pipewrite_resume ::
  "u32 \<Rightarrow> u8 list \<Rightarrow> int \<Rightarrow> bool \<Rightarrow> nat \<Rightarrow> u32 \<Rightarrow> kstate \<Rightarrow> (kstate, int) res" where
  "pipewrite_resume p left n ie q start_ticks s =
     bind (sleep_resume ie q start_ticks (PipeLock p) s) (\<lambda>_ s.
     bind (pipewrite_loop left p s) (\<lambda>ok s. pipewrite_end p n ok s))"

text \<open>The copying loop of \<open>piperead\<close>, at most \<open>n\<close> bytes.\<close>

primrec piperead_copy :: "nat \<Rightarrow> pipe \<Rightarrow> u8 list \<times> pipe" where
  "piperead_copy 0 q = ([], q)"
| "piperead_copy (Suc n) q =
     (if pi_nread q = pi_nwrite q then ([], q)
      else
        case piperead_copy n (q\<lparr>pi_nread := pi_nread q + 1\<rparr>) of
          (cs, q') \<Rightarrow> (pi_data q ! (unat (pi_nread q) mod PIPESIZE) # cs, q'))"

text \<open>From the test of an empty pipe on, with the lock held.\<close>

definition piperead_test :: "u32 \<Rightarrow> int \<Rightarrow> kstate \<Rightarrow> (kstate, int \<times> u8 list) res" where
  "piperead_test p n s =
     (if pi_nread (pipes s p) = pi_nwrite (pipes s p) \<and> pi_writeopen (pipes s p) then
        bind (am_killed s) (\<lambda>killed s.
          if killed then bind (release (PipeLock p) s) (\<lambda>_ s. Ok (- 1, []) s)
          else bind (sleep (ChNread p) (Some (PipeLock p)) s) (\<lambda>_ s. Undef))
      else
        case piperead_copy (nat n) (pipes s p) of
          (cs, q) \<Rightarrow>
            bind (wakeup (ChNwrite p) (upd_pipe p (\<lambda>_. q) s)) (\<lambda>_ s.
            bind (release (PipeLock p) s) (\<lambda>_ s. Ok (int (length cs), cs) s)))"

definition piperead :: "u32 \<Rightarrow> int \<Rightarrow> kstate \<Rightarrow> (kstate, int \<times> u8 list) res" where
  "piperead p n s = bind (acquire (PipeLock p) s) (\<lambda>_ s. piperead_test p n s)"

definition piperead_resume :: "u32 \<Rightarrow> int \<Rightarrow> bool \<Rightarrow> nat \<Rightarrow> u32 \<Rightarrow> kstate \<Rightarrow> (kstate, int \<times> u8 list) res" where
  "piperead_resume p n ie q start_ticks s =
     bind (sleep_resume ie q start_ticks (PipeLock p) s) (\<lambda>_ s. piperead_test p n s)"

section \<open>The bytes in a pipe\<close>

interpretation pr: ring PIPESIZE
  by unfold_locales simp_all

definition pq :: "pipe \<Rightarrow> u8 list" where
  "pq q = ring_list PIPESIZE (pi_data q) (pi_nread q) (pi_nwrite q)"

definition pipe_wf :: "pipe \<Rightarrow> bool" where
  "pipe_wf q \<longleftrightarrow> length (pi_data q) = PIPESIZE \<and> length (pq q) \<le> PIPESIZE"

lemma length_pq [simp]: "length (pq q) = unat (pi_nwrite q - pi_nread q)"
  by (simp add: pq_def)

lemma pq_Nil_iff: "pq q = [] \<longleftrightarrow> pi_nread q = pi_nwrite q" "[] = pq q \<longleftrightarrow> pi_nread q = pi_nwrite q"
  using length_pq [of q] by (metis length_0_conv right_minus_eq unat_eq_0)+

lemma full_iff:
  assumes "pipe_wf q"
  shows "pi_nwrite q = pi_nread q + 512 \<longleftrightarrow> length (pq q) = PIPESIZE"
proof
  assume "length (pq q) = PIPESIZE"
  then have "unat (pi_nwrite q - pi_nread q) = unat (512 :: u32)" by simp
  then have "pi_nwrite q - pi_nread q = 512" by (rule unsigned_word_eqI)
  then show "pi_nwrite q = pi_nread q + 512" by (simp add: algebra_simps)
qed simp

text \<open>Storing bytes one after another.\<close>

definition put1 :: "u8 \<Rightarrow> pipe \<Rightarrow> pipe" where
  "put1 c q = q\<lparr>pi_data := (pi_data q)[unat (pi_nwrite q) mod PIPESIZE := c], pi_nwrite := pi_nwrite q + 1\<rparr>"

lemma put1_fields [simp]:
  "pi_nread (put1 c q) = pi_nread q" "pi_readopen (put1 c q) = pi_readopen q"
  "pi_writeopen (put1 c q) = pi_writeopen q" "pi_nwrite (put1 c q) = pi_nwrite q + 1"
  by (simp_all add: put1_def)

lemma put1_ok:
  assumes "pipe_wf q" "length (pq q) < PIPESIZE"
  shows "pq (put1 c q) = pq q @ [c]" "pipe_wf (put1 c q)"
proof -
  show e: "pq (put1 c q) = pq q @ [c]"
    using assms pr.put_in(1) [of "pi_data q" "pi_nwrite q" "pi_nread q" c]
    by (simp add: put1_def pq_def pipe_wf_def)
  then show "pipe_wf (put1 c q)"
    using assms unfolding pipe_wf_def e by (simp add: put1_def)
qed

abbreviation puts :: "u8 list \<Rightarrow> pipe \<Rightarrow> pipe" where
  "puts \<equiv> fold put1"

lemma puts_fields [simp]:
  "pi_nread (puts cs q) = pi_nread q" "pi_readopen (puts cs q) = pi_readopen q"
  "pi_writeopen (puts cs q) = pi_writeopen q" "pi_nwrite (puts cs q) = pi_nwrite q + of_nat (length cs)"
  by (induction cs arbitrary: q) (simp_all add: algebra_simps)

lemma puts_ok:
  assumes "pipe_wf q" "length (pq q) + length cs \<le> PIPESIZE"
  shows "pq (puts cs q) = pq q @ cs \<and> pipe_wf (puts cs q)"
  using assms
proof (induction cs arbitrary: q)
  case (Cons c cs)
  then have "pq (put1 c q) = pq q @ [c]" "pipe_wf (put1 c q)" using put1_ok by auto
  with Cons.IH [of "put1 c q"] Cons.prems show ?case by simp
qed simp

text \<open>What \<open>pipewrite\<close> does with a full pipe.\<close>

definition blocked :: "u32 \<Rightarrow> kstate \<Rightarrow> (kstate, bool) res" where
  "blocked p s =
     bind (if \<not> pi_readopen (pipes s p) then Ok True s else am_killed s) (\<lambda>stop s.
       if stop then Ok False s
       else bind (wakeup (ChNread p) s) (\<lambda>_ s. bind (sleep (ChNwrite p) (Some (PipeLock p)) s) (\<lambda>_ s. Undef)))"

lemma upd_pipe_twice: "upd_pipe p f (upd_pipe p g s) = upd_pipe p (\<lambda>q. f (g q)) s"
  by (simp add: upd_pipe_def)

lemma upd_pipe_id: "upd_pipe p (\<lambda>q. q) s = s" "upd_pipe p id s = s"
  by (simp_all add: upd_pipe_def)

lemma pipes_upd_pipe [simp]: "pipes (upd_pipe p f s) = (pipes s)(p := f (pipes s p))"
  by (simp add: upd_pipe_def)

lemma pipewrite_loop_eq:
  assumes "pipe_wf (pipes s p)"
    and "k = PIPESIZE - length (pq (pipes s p))"
  shows "pipewrite_loop cs p s = (if length cs \<le> k then Ok True (upd_pipe p (puts cs) s)
     else blocked p (upd_pipe p (puts (take k cs)) s))"
  using assms
proof (induction cs arbitrary: s k)
  case Nil
  then show ?case by (simp add: upd_pipe_id)
next
  case (Cons c cs)
  let ?q = "pipes s p"
  have step: "pipewrite_loop (c # cs) p s = (if pi_nwrite ?q = pi_nread ?q + 512 then blocked p s
      else pipewrite_loop cs p (upd_pipe p (put1 c) s))"
    by (simp add: blocked_def put1_def [abs_def])
  show ?case
  proof (cases "length (pq ?q) = PIPESIZE")
    case True
    then show ?thesis using step full_iff [OF Cons.prems(1)] by (simp add: Cons.prems(2) upd_pipe_id)
  next
    case False
    then have lt: "length (pq ?q) < PIPESIZE" using Cons.prems(1) by (simp add: pipe_wf_def)
    note p1 = put1_ok [OF Cons.prems(1) lt, of c]
    obtain r where r: "PIPESIZE - length (pq ?q) = Suc r" using lt by (cases "PIPESIZE - length (pq ?q)") auto
    have r': "PIPESIZE - length (pq (put1 c ?q)) = r" using r p1(1) by (metis diff_Suc_1 diff_diff_left length_append_singleton Suc_eq_plus1)
    have "pipewrite_loop (c # cs) p s = pipewrite_loop cs p (upd_pipe p (put1 c) s)"
      using step full_iff [OF Cons.prems(1)] False by simp
    also have "\<dots> = (if length cs \<le> r then Ok True (upd_pipe p (puts (c # cs)) s)
      else blocked p (upd_pipe p (puts (c # take r cs)) s))"
      using Cons.IH [of "upd_pipe p (put1 c) s" r] p1(2) r' by (simp add: upd_pipe_twice o_def del: length_pq)
    finally show ?thesis by (simp add: Cons.prems(2) r o_def del: length_pq)
  qed
qed

text \<open>Taking bytes out.\<close>

lemma piperead_copy_ok:
  assumes "pipe_wf q" "piperead_copy n q = (cs, q')"
  shows "pq q = cs @ pq q' \<and> pipe_wf q' \<and> length cs = min n (length (pq q))
     \<and> pi_readopen q' = pi_readopen q \<and> pi_writeopen q' = pi_writeopen q \<and> pi_nwrite q' = pi_nwrite q"
  using assms
proof (induction n arbitrary: q cs)
  case (Suc n)
  show ?case
  proof (cases "pi_nread q = pi_nwrite q")
    case False
    let ?q = "q\<lparr>pi_nread := pi_nread q + 1\<rparr>"
    obtain ds where ds: "piperead_copy n ?q = (ds, q')" "cs = pi_data q ! (unat (pi_nread q) mod PIPESIZE) # ds"
      using Suc.prems(2) False by (auto split: prod.splits)
    have t: "pq q = pi_data q ! (unat (pi_nread q) mod PIPESIZE) # pq ?q"
      using pr.take_out(1) [of "pi_nwrite q" "pi_nread q" "pi_data q"] False by (simp add: pq_def)
    have len: "length (pq q) = Suc (length (pq ?q))" unfolding t by simp
    have "pipe_wf ?q" using Suc.prems(1) len by (simp add: pipe_wf_def del: length_pq)
    note h = Suc.IH [OF this ds(1)]
    then have "pq q = cs @ pq q'" using t ds(2) by simp
    moreover have "length ds = min n (length (pq ?q))" using h by blast
    then have "length cs = min (Suc n) (length (pq q))" unfolding ds(2) len by simp
    moreover have "pi_readopen q' = pi_readopen q" "pi_writeopen q' = pi_writeopen q" "pi_nwrite q' = pi_nwrite q"
      "pipe_wf q'" using h by simp_all
    ultimately show ?thesis by blast
  qed (use Suc.prems in auto)
qed auto

section \<open>Writers and readers on many processors\<close>

text \<open>Who sleeps on a pipe: readers while it is empty, writers while it is full, and the other end is open.\<close>

definition pipe_chans :: "chan set" where
  "pipe_chans = range ChNread \<union> range ChNwrite"

fun pipe_cond :: "chan \<Rightarrow> (u32 \<Rightarrow> pipe) \<Rightarrow> bool" where
  "pipe_cond (ChNread p) f \<longleftrightarrow> pi_nread (f p) = pi_nwrite (f p) \<and> pi_writeopen (f p)"
| "pipe_cond (ChNwrite p) f \<longleftrightarrow> pi_nwrite (f p) = pi_nread (f p) + 512 \<and> pi_readopen (f p)"
| "pipe_cond _ f \<longleftrightarrow> True"

interpretation pm: monitor pipes pipe_chans pipe_cond
  by unfold_locales (auto simp: on_cpu_def elim!: calmE)

text \<open>
  The bytes that went into each pipe and came out of it, and whether no writer gave up after writing
  a part: a killed process that finds the pipe full returns -1 and wakes nobody.
\<close>

record pipe_log =
  went_in :: "u32 \<Rightarrow> u8 list"
  came_out :: "u32 \<Rightarrow> u8 list"
  whole :: bool

definition accepted :: "u32 \<Rightarrow> kstate \<Rightarrow> kstate \<Rightarrow> nat" where
  "accepted p s t = unat (pi_nwrite (pipes t p) - pi_nwrite (pipes s p))"

definition log_in :: "u32 \<Rightarrow> u8 list \<Rightarrow> kstate \<Rightarrow> (kstate, int) res \<Rightarrow> kstate \<Rightarrow> pipe_log \<Rightarrow> pipe_log" where
  "log_in p bs s r t g = g\<lparr>went_in := (went_in g)(p := went_in g p @ take (accepted p s t) bs),
     whole := whole g \<and> (r = Ok (- 1) t \<longrightarrow> accepted p s t = 0)\<rparr>"

definition log_out :: "u32 \<Rightarrow> u8 list \<Rightarrow> pipe_log \<Rightarrow> pipe_log" where
  "log_out p cs g = g\<lparr>came_out := (came_out g)(p := came_out g p @ cs)\<rparr>"

fun out_of :: "(kstate, int \<times> u8 list) res \<Rightarrow> u8 list" where
  "out_of (Ok r t) = snd r"
| "out_of _ = []"

text \<open>
  Processors execute operations on pipes, and other code that neither changes a pipe nor sleeps on
  one, in any order.
\<close>

inductive pipe_step :: "kstate \<times> pipe_log \<Rightarrow> kstate \<times> pipe_log \<Rightarrow> bool" where
  writes: "r = pipewrite p bs n (on_cpu c s) \<Longrightarrow> res_state r = Some t \<Longrightarrow>
     pipe_step (s, g) (t, log_in p bs s r t g)"
| writes_on: "r = pipewrite_resume p bs n ie q start_ticks (on_cpu c s) \<Longrightarrow> res_state r = Some t \<Longrightarrow>
     pipe_step (s, g) (t, log_in p bs s r t g)"
| reads: "r = piperead p n (on_cpu c s) \<Longrightarrow> res_state r = Some t \<Longrightarrow>
     pipe_step (s, g) (t, log_out p (out_of r) g)"
| reads_on: "r = piperead_resume p n ie q start_ticks (on_cpu c s) \<Longrightarrow> res_state r = Some t \<Longrightarrow>
     pipe_step (s, g) (t, log_out p (out_of r) g)"
| closes: "res_state (pipeclose p writable (on_cpu c s)) = Some t \<Longrightarrow> pipe_step (s, g) (t, g)"
| nap: "res_state (sleep ch lk (on_cpu c s)) = Some t \<Longrightarrow> ch \<notin> pipe_chans \<Longrightarrow> pipe_step (s, g) (t, g)"
| nap_over: "res_state (sleep_resume ie q start_ticks lk (on_cpu c s)) = Some t \<Longrightarrow> pipe_step (s, g) (t, g)"
| yields: "res_state (yield (on_cpu c s)) = Some t \<Longrightarrow> pipe_step (s, g) (t, g)"
| wakes: "res_state (wakeup ch (on_cpu c s)) = Some t \<Longrightarrow> pipe_step (s, g) (t, g)"
| kills: "res_state (kill pid (on_cpu c s)) = Some t \<Longrightarrow> pipe_step (s, g) (t, g)"

definition fifo_inv :: "kstate \<Rightarrow> pipe_log \<Rightarrow> bool" where
  "fifo_inv s g \<longleftrightarrow> (\<forall>p. pipe_wf (pipes s p) \<and> went_in g p = came_out g p @ pq (pipes s p))"

definition wait_inv :: "kstate \<Rightarrow> pipe_log \<Rightarrow> bool" where
  "wait_inv s g \<longleftrightarrow> (whole g \<longrightarrow> sleepers_ok pipes pipe_chans pipe_cond s)"

lemma am_killed_calm: "stays calm s (am_killed s)"
  unfolding am_killed_def by (intro cm.stays_bind calms stays_option) (simp_all add: cm.refl)

lemma am_killed_no_switch: "am_killed s \<noteq> Switch t"
  by (auto simp: am_killed_def bind_eq_Switch lock_no_switch split: option.splits)

lemma pipes_calm: "calm s t \<Longrightarrow> pipes t = pipes s"
  by (auto elim!: calmE)

text \<open>How \<open>pipewrite\<close> goes on after its loop: it finishes, gives up, or sleeps.\<close>

lemma blocked_cases:
  assumes "res_state (bind (blocked p s) (\<lambda>ok s. pipewrite_end p n ok s)) = Some t"
  obtains (gave_up) u where "calm s u" "release (PipeLock p) u = Ok () t"
      "bind (blocked p s) (\<lambda>ok s. pipewrite_end p n ok s) = Ok (- 1) t"
  | (sleeps) u w where "calm s u" "pi_readopen (pipes s p)" "wakeup (ChNread p) u = Ok () w"
      "res_state (sleep (ChNwrite p) (Some (PipeLock p)) w) = Some t"
proof -
  let ?m = "if \<not> pi_readopen (pipes s p) then Ok True s else am_killed s"
  let ?k = "\<lambda>stop s. if stop then Ok False s else bind (wakeup (ChNread p) s)
     (\<lambda>_ s. bind (sleep (ChNwrite p) (Some (PipeLock p)) s) (\<lambda>_ s. Undef))"
  have b: "blocked p s = bind ?m ?k" by (simp add: blocked_def)
  have "stays calm s ?m" by (simp add: am_killed_calm cm.refl)
  from assms obtain stop u where m: "?m = Ok stop u"
    "res_state (bind (?k stop u) (\<lambda>ok s. pipewrite_end p n ok s)) = Some t"
    unfolding b bind_assoc by (rule res_state_bind) (auto simp: am_killed_no_switch)
  with \<open>stays calm s ?m\<close> have c: "calm s u" by simp
  show thesis
  proof (cases stop)
    case True
    with m(2) have "res_state (bind (release (PipeLock p) u) (\<lambda>_ s. Ok (- 1 :: int) s)) = Some t"
      by (simp add: pipewrite_end_def)
    then have "release (PipeLock p) u = Ok () t"
      by (cases "release (PipeLock p) u") (auto simp: lock_no_switch)
    then show thesis using True m(1) c by (intro gave_up) (auto simp: b pipewrite_end_def)
  next
    case False
    with m(2) have "res_state (bind (wakeup (ChNread p) u) (\<lambda>_ s. bind (sleep (ChNwrite p) (Some (PipeLock p)) s)
        (\<lambda>_ s. Undef :: (kstate, int) res))) = Some t"
      by (simp add: bind_assoc)
    then obtain w where w: "wakeup (ChNread p) u = Ok () w"
      "res_state (bind (sleep (ChNwrite p) (Some (PipeLock p)) w) (\<lambda>_ s. Undef :: (kstate, int) res)) = Some t"
      by (rule res_state_bind) (auto simp: wakeup_no_switch)
    have "res_state (sleep (ChNwrite p) (Some (PipeLock p)) w) = Some t"
      using w(2) by (cases "sleep (ChNwrite p) (Some (PipeLock p)) w") auto
    moreover have "pi_readopen (pipes s p)" using m(1) False by (auto split: if_splits)
    ultimately show thesis using c w(1) by (intro sleeps)
  qed
qed

lemma waits_upd_pipe [simp]: "waits_on ch (upd_pipe p f s) q = waits_on ch s q"
  by (simp add: waits_on_def upd_pipe_def)

lemma waits_calm: "calm s t \<Longrightarrow> waits_on ch t q = waits_on ch s q"
  by (simp add: waits_on_def calm_fields)

text \<open>Writing bytes concerns the sleeping readers of this pipe only: sleeping writers say it is full.\<close>

lemma put_others:
  assumes "sleepers_ok pipes pipe_chans pipe_cond s" "pipe_wf (pipes s p)"
    and "k = PIPESIZE - length (pq (pipes s p))"
    and "ch \<in> pipe_chans" "ch \<noteq> ChNread p" "waits_on ch s q"
  shows "pipe_cond ch ((pipes s)(p := puts (take k bs) (pipes s p)))"
proof -
  have c: "pipe_cond ch (pipes s)" using assms(1,4,6) by (auto simp: sleepers_ok_def)
  show ?thesis
  proof (cases "ch = ChNwrite p")
    case True
    with c full_iff [OF assms(2)] have "k = 0" using assms(3) by simp
    with c show ?thesis by simp
  next
    case False
    with c assms(4,5) show ?thesis by (auto simp: pipe_chans_def split: if_splits)
  qed
qed

lemma write_body:
  assumes "pipe_wf (pipes s p)" "k = PIPESIZE - length (pq (pipes s p))"
    and "r = bind (pipewrite_loop bs p s) (\<lambda>ok s. pipewrite_end p n ok s)" "res_state r = Some t"
  shows "pipes t = (pipes s)(p := puts (take k bs) (pipes s p))"
    and "sleepers_ok pipes pipe_chans pipe_cond s \<Longrightarrow> (r = Ok (- 1) t \<Longrightarrow> take k bs = []) \<Longrightarrow>
      sleepers_ok pipes pipe_chans pipe_cond t"
proof -
  let ?v = "upd_pipe p (puts (take k bs)) s"
  have "pipes t = pipes ?v \<and> (sleepers_ok pipes pipe_chans pipe_cond s \<longrightarrow> (r = Ok (- 1) t \<longrightarrow> take k bs = [])
      \<longrightarrow> sleepers_ok pipes pipe_chans pipe_cond t)"
  proof (cases "length bs \<le> k")
    case True
    with assms have "res_state (bind (wakeup (ChNread p) ?v) (\<lambda>_ s. bind (release (PipeLock p) s) (\<lambda>_ s. Ok n s))) = Some t"
      by (simp add: pipewrite_loop_eq [OF assms(1,2)] pipewrite_end_def)
    then obtain w where w: "wakeup (ChNread p) ?v = Ok () w" "release (PipeLock p) w = Ok () t"
      by (auto simp: wakeup_no_switch lock_no_switch elim!: res_state_bind)
    have rel: "pipes t = pipes w" using pipes_calm stays_OkD [OF release_calm w(2)] by blast
    have "pipes w = pipes ?v" by (rule pm.obs_undisturbed [OF stays_OkD [OF pm.wakeup_nw w(1)]])
    moreover have "sleepers_ok pipes pipe_chans pipe_cond t" if "sleepers_ok pipes pipe_chans pipe_cond s"
    proof -
      have "sleepers_ok pipes pipe_chans pipe_cond w"
        using put_others [OF that assms(1,2)] by (intro pm.sleepers_wakeup(1) [OF w(1)]) auto
      then show ?thesis by (rule pm.sleepers_OkD [OF pm.release_nw w(2)])
    qed
    ultimately show ?thesis using rel by simp
  next
    case False
    then have r: "r = bind (blocked p ?v) (\<lambda>ok s. pipewrite_end p n ok s)"
      using assms(3) by (simp add: pipewrite_loop_eq [OF assms(1,2)])
    have full: "length (pq (puts (take k bs) (pipes s p))) = PIPESIZE" "pipe_wf (puts (take k bs) (pipes s p))"
      using puts_ok [OF assms(1), of "take k bs"] assms(1,2) False by (simp_all add: pipe_wf_def del: length_pq)
    from assms(4) [unfolded r] show ?thesis
    proof (cases rule: blocked_cases)
      case (gave_up u)
      have rel: "pipes t = pipes ?v"
        using pipes_calm [OF gave_up(1)] pipes_calm [OF stays_OkD [OF release_calm gave_up(2)]] by simp
      have "sleepers_ok pipes pipe_chans pipe_cond t"
        if "sleepers_ok pipes pipe_chans pipe_cond s" "take k bs = []"
      proof -
        have "?v = s" unfolding that(2) by (simp add: upd_pipe_id)
        then have "sleepers_ok pipes pipe_chans pipe_cond u"
          using pm.sleepers_undisturbed [OF pm.calm_nw [OF gave_up(1), of None]] that(1) by simp
        then show ?thesis by (rule pm.sleepers_OkD [OF pm.release_nw gave_up(2)])
      qed
      then show ?thesis using rel gave_up(3) r by blast
    next
      case (sleeps u w)
      have pw: "pipes w = pipes ?v"
        using pm.obs_undisturbed [OF stays_OkD [OF pm.wakeup_nw sleeps(3)]] pipes_calm [OF sleeps(1)] by simp
      have "pipes t = pipes w" using res_state_stays [OF pm.sleep_nw sleeps(4)] by (rule pm.obs_undisturbed)
      moreover have "sleepers_ok pipes pipe_chans pipe_cond t" if "sleepers_ok pipes pipe_chans pipe_cond s"
      proof -
        have "sleepers_ok pipes pipe_chans pipe_cond w"
          using put_others [OF that assms(1,2)] sleeps(1)
          by (intro pm.sleepers_wakeup(1) [OF sleeps(3)]) (auto simp: waits_calm pipes_calm)
        then show ?thesis
          using full sleeps(2) full_iff [OF full(2)]
          by (intro pm.sleepers_sleep(1) [OF sleeps(4)]) (simp_all add: pw)
      qed
      ultimately show ?thesis using pw by simp
    qed
  qed
  then show "pipes t = (pipes s)(p := puts (take k bs) (pipes s p))"
    "sleepers_ok pipes pipe_chans pipe_cond s \<Longrightarrow> (r = Ok (- 1) t \<Longrightarrow> take k bs = []) \<Longrightarrow>
      sleepers_ok pipes pipe_chans pipe_cond t" by auto
qed

lemma read_body:
  assumes "pipe_wf (pipes s p)" "r = piperead_test p n s" "res_state r = Some t"
  shows "\<exists>q. pipes t = (pipes s)(p := q) \<and> pq (pipes s p) = out_of r @ pq q \<and> pipe_wf q"
    and "sleepers_ok pipes pipe_chans pipe_cond s \<Longrightarrow> sleepers_ok pipes pipe_chans pipe_cond t"
proof -
  let ?ok = "sleepers_ok pipes pipe_chans pipe_cond" and ?q = "pipes s p"
  have "(\<exists>q. pipes t = (pipes s)(p := q) \<and> pq ?q = out_of r @ pq q \<and> pipe_wf q) \<and> (?ok s \<longrightarrow> ?ok t)"
  proof (cases "pi_nread ?q = pi_nwrite ?q \<and> pi_writeopen ?q")
    case True
    let ?k = "\<lambda>killed s. if killed then bind (release (PipeLock p) s) (\<lambda>_ s. Ok (- 1 :: int, [] :: u8 list) s)
      else bind (sleep (ChNread p) (Some (PipeLock p)) s) (\<lambda>_ s. Undef)"
    have r: "r = bind (am_killed s) ?k" using True assms(2) by (simp add: piperead_test_def)
    from assms(3) obtain killed u where u: "am_killed s = Ok killed u" "res_state (?k killed u) = Some t"
      unfolding r by (rule res_state_bind) (auto simp: am_killed_no_switch)
    have c: "calm s u" using u(1) by (rule stays_OkD [OF am_killed_calm])
    have su: "?ok s \<Longrightarrow> ?ok u" using pm.sleepers_undisturbed [OF pm.calm_nw [OF c, of None]] by simp
    show ?thesis
    proof (cases killed)
      case True
      with u(2) have rel: "release (PipeLock p) u = Ok () t"
        by (cases "release (PipeLock p) u") (auto simp: lock_no_switch)
      then have "r = Ok (- 1, []) t" using r u(1) True by simp
      moreover have "pipes t = pipes s" using pipes_calm [OF c] pipes_calm [OF stays_OkD [OF release_calm rel]] by simp
      ultimately show ?thesis
        using su pm.sleepers_OkD [OF pm.release_nw rel] assms(1) by (auto intro!: exI [of _ ?q])
    next
      case False
      with u(2) have sl: "res_state (sleep (ChNread p) (Some (PipeLock p)) u) = Some t" "out_of r = []"
        by (cases "sleep (ChNread p) (Some (PipeLock p)) u"; simp add: r u(1))+
      have "pipes t = pipes s"
        using pm.obs_undisturbed [OF res_state_stays [OF pm.sleep_nw sl(1)]] pipes_calm [OF c] by simp
      moreover have "?ok t" if "?ok s"
        using pm.sleepers_sleep(1) [OF sl(1) su [OF that]] True pipes_calm [OF c] \<open>pi_nread ?q = pi_nwrite ?q \<and> pi_writeopen ?q\<close>
        by simp
      ultimately show ?thesis using sl(2) assms(1) by (auto intro!: exI [of _ ?q])
    qed
  next
    case False
    obtain cs q where cq: "piperead_copy (nat n) ?q = (cs, q)" by fastforce
    note cp = piperead_copy_ok [OF assms(1) cq]
    let ?v = "upd_pipe p (\<lambda>_. q) s"
    have r: "r = bind (wakeup (ChNwrite p) ?v) (\<lambda>_ s. bind (release (PipeLock p) s) (\<lambda>_ s. Ok (int (length cs), cs) s))"
      unfolding assms(2) piperead_test_def if_not_P [OF False] cq prod.case ..
    from assms(3) obtain w where w: "wakeup (ChNwrite p) ?v = Ok () w" "release (PipeLock p) w = Ok () t"
      unfolding r by (auto simp: wakeup_no_switch lock_no_switch elim!: res_state_bind)
    have "r = Ok (int (length cs), cs) t" using r w by simp
    moreover have "pipes t = (pipes s)(p := q)"
      using pipes_calm [OF stays_OkD [OF release_calm w(2)]] pm.obs_undisturbed [OF stays_OkD [OF pm.wakeup_nw w(1)]] by simp
    moreover have "?ok t" if ok: "?ok s"
    proof (rule pm.sleepers_OkD [OF pm.release_nw w(2)], rule pm.sleepers_wakeup(1) [OF w(1)])
      fix c i
      assume c: "c \<in> pipe_chans" "c \<noteq> ChNwrite p" "waits_on c ?v i"
      then have o: "pipe_cond c (pipes s)" using ok by (auto simp: sleepers_ok_def)
      moreover have "c \<noteq> ChNread p" using o False by auto
      ultimately show "pipe_cond c (pipes ?v)" using c by (auto simp: pipe_chans_def split: if_splits)
    qed
    moreover have "pq ?q = cs @ pq q" "pipe_wf q" using cp by blast+
    ultimately show ?thesis by auto
  qed
  then show "\<exists>q. pipes t = (pipes s)(p := q) \<and> pq ?q = out_of r @ pq q \<and> pipe_wf q" "?ok s \<Longrightarrow> ?ok t" by auto
qed

lemma kfree_quiet:
  assumes "res_state (kfree v s) = Some t"
  shows "procs t = procs s" "pipes t = pipes s"
proof -
  let ?s = "s\<lparr>mem := memset (mem s) v 1 PGSIZE\<rparr>"
  let ?m = "if km_use_lock s then acquire KmemLock ?s else Ok () ?s"
  let ?f = "\<lambda>s. s\<lparr>mem := write32 (mem s) v (km_freelist s), km_freelist := v\<rparr>"
  from assms have "res_state (bind ?m (\<lambda>_ s. if km_use_lock s then release KmemLock (?f s) else Ok () (?f s))) = Some t"
    by (auto simp: kfree_def Let_def split: if_splits)
  then obtain u where u: "?m = Ok () u" "res_state (if km_use_lock u then release KmemLock (?f u) else Ok () (?f u)) = Some t"
    by (rule res_state_bind) (auto simp: lock_no_switch)
  have "calm ?s u" using u(1) stays_OkD [OF acquire_calm] cm.refl by (auto split: if_splits)
  moreover have "calm (?f u) t" using u(2) res_state_stays [OF release_calm] cm.refl by (auto split: if_splits)
  ultimately show "procs t = procs s" "pipes t = pipes s" using calm_fields(1) pipes_calm by fastforce+
qed

text \<open>The two invariants together, and what a step adds to the log.\<close>

definition pipe_inv :: "kstate \<Rightarrow> pipe_log \<Rightarrow> bool" where
  "pipe_inv s g \<longleftrightarrow> fifo_inv s g \<and> wait_inv s g"

lemma pipe_inv_undisturbed:
  "undisturbed pipes pipe_chans None s t \<Longrightarrow> pipe_inv s g \<Longrightarrow> pipe_inv t g"
  using pm.sleepers_undisturbed [of None s t]
  by (auto simp: pipe_inv_def fifo_inv_def wait_inv_def dest: pm.obs_undisturbed)

lemma pipe_inv_stays:
  "stays (undisturbed pipes pipe_chans None) s r \<Longrightarrow> res_state r = Some t \<Longrightarrow> pipe_inv s g \<Longrightarrow> pipe_inv t g"
  by (erule pipe_inv_undisturbed [OF res_state_stays [where R = "undisturbed pipes pipe_chans None"]])

lemma pipe_inv_on_cpu: "pipe_inv (on_cpu c s) g = pipe_inv s g"
  unfolding pipe_inv_def fifo_inv_def wait_inv_def pm.sleepers_on_cpu by (simp add: on_cpu_def)

lemma unat_small: "n \<le> PIPESIZE \<Longrightarrow> unat (of_nat n :: u32) = n"
  by (simp add: unat_of_nat)

lemma write_inv:
  assumes inv: "pipe_inv u g" and u: "pipes u = pipes s" and cs: "cs = take m bs"
    and r: "r = bind (pipewrite_loop cs p u) (\<lambda>ok s. pipewrite_end p n ok s)" "res_state r = Some t"
  shows "pipe_inv t (log_in p bs s r t g)"
proof -
  define k where "k = PIPESIZE - length (pq (pipes u p))"
  from inv have wf: "pipe_wf (pipes u q)" and f: "went_in g q = came_out g q @ pq (pipes u q)" for q
    by (auto simp: pipe_inv_def fifo_inv_def)
  note b = write_body [OF wf k_def r]
  have le: "length (pq (pipes u p)) + length (take k cs) \<le> PIPESIZE"
    using wf [of p] by (auto simp: pipe_wf_def k_def min_def simp del: length_pq)
  note pk = puts_ok [OF wf le]
  have "accepted p s t = unat (of_nat (length (take k cs)) :: u32)"
    using b(1) u by (simp add: accepted_def)
  also have "\<dots> = length (take k cs)"
  proof (rule unat_small)
    show "length (take k cs) \<le> PIPESIZE" using le by (rule add_leD2)
  qed
  finally have a: "accepted p s t = length (take k cs)" .
  have "take (accepted p s t) bs = take k cs" unfolding a using cs by (simp add: min_def)
  then have "fifo_inv t (log_in p bs s r t g)"
    using f wf pk b(1) u by (auto simp: fifo_inv_def log_in_def)
  moreover have "wait_inv t (log_in p bs s r t g)"
    unfolding wait_inv_def
  proof
    assume "whole (log_in p bs s r t g)"
    then have w: "whole g" "r = Ok (- 1) t \<Longrightarrow> length (take k cs) = 0" by (auto simp: log_in_def a)
    show "sleepers_ok pipes pipe_chans pipe_cond t"
      by (rule b(2)) (use inv w in \<open>auto simp: pipe_inv_def wait_inv_def simp del: length_take take_eq_Nil\<close>)
  qed
  ultimately show ?thesis by (simp add: pipe_inv_def)
qed

lemma read_inv:
  assumes "pipe_inv s g" "r = piperead_test p n s" "res_state r = Some t"
  shows "pipe_inv t (log_out p (out_of r) g)"
proof -
  from assms(1) have wf: "pipe_wf (pipes s q)" and f: "went_in g q = came_out g q @ pq (pipes s q)" for q
    by (auto simp: pipe_inv_def fifo_inv_def)
  from read_body(1) [OF wf assms(2,3)] obtain q where
    "pipes t = (pipes s)(p := q)" "pq (pipes s p) = out_of r @ pq q" "pipe_wf q" by blast
  then have "fifo_inv t (log_out p (out_of r) g)" using f wf by (auto simp: fifo_inv_def log_out_def)
  then show ?thesis
    using read_body(2) [OF wf assms(2,3)] assms(1) by (auto simp: pipe_inv_def wait_inv_def log_out_def)
qed

lemma close_inv:
  assumes "res_state (pipeclose p writable s) = Some t" "pipe_inv s g"
  shows "pipe_inv t g"
proof -
  let ?f = "\<lambda>q. if writable then q\<lparr>pi_writeopen := False\<rparr> else q\<lparr>pi_readopen := False\<rparr>"
  let ?ch = "if writable then ChNread p else ChNwrite p"
  let ?fin = "\<lambda>s. if \<not> pi_readopen (pipes s p) \<and> \<not> pi_writeopen (pipes s p)
       then bind (release (PipeLock p) s) (\<lambda>_ s. kfree p s) else release (PipeLock p) s"
  from assms(1) have "res_state (bind (acquire (PipeLock p) s) (\<lambda>_ s. bind (wakeup ?ch (upd_pipe p ?f s)) (\<lambda>_ s. ?fin s))) = Some t"
    by (auto simp: pipeclose_def split: if_splits)
  then obtain u where u: "acquire (PipeLock p) s = Ok () u"
    "res_state (bind (wakeup ?ch (upd_pipe p ?f u)) (\<lambda>_ s. ?fin s)) = Some t"
    by (rule res_state_bind) (auto simp: lock_no_switch)
  from u(2) obtain w where w: "wakeup ?ch (upd_pipe p ?f u) = Ok () w" "res_state (?fin w) = Some t"
    by (rule res_state_bind) (auto simp: wakeup_no_switch)
  have iu: "pipe_inv u g" using pipe_inv_undisturbed [OF stays_OkD [OF pm.acquire_nw u(1)] assms(2)] .
  have pw: "pipes w = (pipes u)(p := ?f (pipes u p))"
    using pm.obs_undisturbed [OF stays_OkD [OF pm.wakeup_nw w(1)]] by simp
  have q: "pq (q\<lparr>pi_writeopen := b\<rparr>) = pq q" "pipe_wf (q\<lparr>pi_writeopen := b\<rparr>) = pipe_wf q"
    "pq (q\<lparr>pi_readopen := b\<rparr>) = pq q" "pipe_wf (q\<lparr>pi_readopen := b\<rparr>) = pipe_wf q" for q b
    by (auto simp: pq_def pipe_wf_def)
  have "pipe_inv w g"
    unfolding pipe_inv_def wait_inv_def
  proof (intro conjI impI)
    show "fifo_inv w g" using iu unfolding pipe_inv_def fifo_inv_def pw by (auto simp: q)
    assume "whole g"
    with iu have "sleepers_ok pipes pipe_chans pipe_cond u" by (simp add: pipe_inv_def wait_inv_def)
    then have "pipe_cond c (pipes (upd_pipe p ?f u))"
      if "c \<in> pipe_chans" "c \<noteq> ?ch" "waits_on c (upd_pipe p ?f u) i" for c i
      using that by (fastforce simp: sleepers_ok_def pipe_chans_def split: if_splits)
    then show "sleepers_ok pipes pipe_chans pipe_cond w" by (rule pm.sleepers_wakeup(1) [OF w(1)])
  qed
  moreover have "undisturbed pipes pipe_chans None w t"
  proof (cases "\<not> pi_readopen (pipes w p) \<and> \<not> pi_writeopen (pipes w p)")
    case True
    with w(2) obtain x where x: "release (PipeLock p) w = Ok () x" "res_state (kfree p x) = Some t"
      by (auto simp: lock_no_switch elim!: res_state_bind)
    from kfree_quiet [OF x(2)] calm_fields(1) [OF stays_OkD [OF release_calm x(1)]]
      pipes_calm [OF stays_OkD [OF release_calm x(1)]]
    show ?thesis by (simp add: undisturbed_def waits_on_def)
  next
    case False
    with w(2) have "res_state (release (PipeLock p) w) = Some t" by auto
    then show ?thesis by (rule res_state_stays [OF pm.release_nw])
  qed
  ultimately show ?thesis using pipe_inv_undisturbed by blast
qed

lemma first_step:
  assumes "res_state (bind m k) = Some t" "\<And>v. m \<noteq> Switch v"
    and "stays (undisturbed pipes pipe_chans None) s m" "pipe_inv s g"
  obtains z u where "m = Ok z u" "res_state (k z u) = Some t" "bind m k = k z u" "pipe_inv u g" "pipes u = pipes s"
proof -
  from assms(1,2) obtain z u where u: "m = Ok z u" "res_state (k z u) = Some t" by (rule res_state_bind)
  then have "undisturbed pipes pipe_chans None s u" using assms(3) by simp
  then show thesis
    using that [OF u] u(1) pipe_inv_undisturbed [OF _ assms(4)] pm.obs_undisturbed by simp
qed

lemmas lock_step1 = first_step [OF _ lock_no_switch(2) pm.acquire_nw]
  and resume_step1 = first_step [OF _ sleep_resume_no_switch pm.sleep_resume_nw]

lemma pipe_step_inv:
  assumes "pipe_step x y" "pipe_inv (fst x) (snd x)"
  shows "pipe_inv (fst y) (snd y)"
proof -
  obtain s g t h where x: "x = (s, g)" "y = (t, h)" by (cases x; cases y) auto
  have i: "pipe_inv (on_cpu c s) g" for c using assms(2) by (simp add: x pipe_inv_on_cpu)
  have o: "pipes (on_cpu c s) = pipes s" for c by (simp add: on_cpu_def)
  from assms(1) [unfolded x] have "pipe_inv t h"
  proof cases
    case (writes r p bs n c)
    then have r: "r = bind (acquire (PipeLock p) (on_cpu c s)) (\<lambda>_ s.
        bind (pipewrite_loop (take (nat n) bs) p s) (\<lambda>ok s. pipewrite_end p n ok s))"
      by (auto simp: pipewrite_def split: if_splits)
    from writes(3) [unfolded r] i obtain u where u: "pipe_inv u g" "pipes u = pipes (on_cpu c s)"
      "r = bind (pipewrite_loop (take (nat n) bs) p u) (\<lambda>ok s. pipewrite_end p n ok s)"
      unfolding r by (rule lock_step1)
    from write_inv [OF u(1) u(2) [unfolded o] refl u(3) writes(3)] show ?thesis unfolding writes(1) .
  next
    case (writes_on r p bs n ie q st c)
    from writes_on(3) [unfolded writes_on(2) pipewrite_resume_def] i
    obtain u where u: "pipe_inv u g" "pipes u = pipes (on_cpu c s)"
      "r = bind (pipewrite_loop bs p u) (\<lambda>ok s. pipewrite_end p n ok s)"
      unfolding writes_on(2) pipewrite_resume_def by (rule resume_step1)
    from write_inv [OF u(1) u(2) [unfolded o] take_all [OF order_refl, symmetric] u(3) writes_on(3)]
    show ?thesis unfolding writes_on(1) .
  next
    case (reads r p n c)
    from reads(3) [unfolded reads(2) piperead_def] i obtain u where "pipe_inv u g" "r = piperead_test p n u"
      unfolding reads(2) piperead_def by (rule lock_step1)
    from read_inv [OF this reads(3)] show ?thesis unfolding reads(1) .
  next
    case (reads_on r p n ie q st c)
    from reads_on(3) [unfolded reads_on(2) piperead_resume_def] i
    obtain u where "pipe_inv u g" "r = piperead_test p n u"
      unfolding reads_on(2) piperead_resume_def by (rule resume_step1)
    from read_inv [OF this reads_on(3)] show ?thesis unfolding reads_on(1) .
  next
    case closes
    then show ?thesis using close_inv [OF _ i] by blast
  next
    case (nap ch lk c)
    then have "undisturbed pipes pipe_chans (Some ch) (on_cpu c s) t"
      by (intro res_state_stays [OF pm.sleep_nw])
    then have "undisturbed pipes pipe_chans None (on_cpu c s) t" using nap(3) by (auto simp: undisturbed_def)
    then show ?thesis using pipe_inv_undisturbed i nap(1) by blast
  qed (use pipe_inv_stays [OF pm.sleep_resume_nw _ i] pipe_inv_stays [OF pm.yield_nw _ i]
     pipe_inv_stays [OF pm.wakeup_nw _ i] pipe_inv_stays [OF pm.kill_nw _ i] in blast)+
  then show ?thesis by (simp add: x)
qed

lemma pipe_reach_inv: "rtranclp pipe_step x y \<Longrightarrow> pipe_inv (fst x) (snd x) \<Longrightarrow> pipe_inv (fst y) (snd y)"
  by (induction rule: rtranclp_induct) (auto intro: pipe_step_inv)

text \<open>At the start all pipes are empty and nobody sleeps.\<close>

definition pipe_start :: "kstate \<Rightarrow> bool" where
  "pipe_start s \<longleftrightarrow> (\<forall>p. pipe_wf (pipes s p) \<and> pi_nread (pipes s p) = pi_nwrite (pipes s p))
     \<and> (\<forall>p \<in> set (procs s). p_state p \<noteq> SLEEPING)"

definition no_log :: pipe_log where
  "no_log = \<lparr>went_in = (\<lambda>_. []), came_out = (\<lambda>_. []), whole = True\<rparr>"

lemma pipe_start_inv: "pipe_start s \<Longrightarrow> pipe_inv s no_log"
  by (auto simp: pipe_start_def pipe_inv_def fifo_inv_def wait_inv_def no_log_def sleepers_ok_def waits_on_def
      pq_Nil_iff)

text \<open>
  C12. A pipe is a first-in-first-out queue of at most \<open>PIPESIZE\<close> bytes, whatever the processors do and
  in whatever order: what readers got out of a pipe followed by what is still in it is what writers
  put into it, with no byte lost, repeated or out of order, although the counters of the ring wrap
  around and writers and readers give up the processor in the middle of their work.
\<close>

theorem pipe_fifo:
  assumes "pipe_start s0" "rtranclp pipe_step (s0, no_log) (s, g)"
  shows "went_in g p = came_out g p @ pq (pipes s p) \<and> length (pq (pipes s p)) \<le> PIPESIZE"
  using pipe_reach_inv [OF assms(2)] pipe_start_inv [OF assms(1)]
  by (auto simp: pipe_inv_def fifo_inv_def pipe_wf_def)


text \<open>
  The writer that gives up: a killed process that fills the pipe leaves the bytes there, returns -1
  and changes nothing else, so that a process sleeping until there is something to read sleeps on.
\<close>

lemma upd_pipe_taken: "upd_pipe p f (taken lk s) = taken lk (upd_pipe p f s)"
  by (simp add: upd_pipe_def)

lemma upd_pipe_locks [simp]:
  "cur_proc (upd_pipe p f s) = cur_proc s" "cpu_ok (upd_pipe p f s) = cpu_ok s" "procs (upd_pipe p f s) = procs s"
  "lock_free lk (upd_pipe p f s) = lock_free lk s" "quiet (upd_pipe p f s) = quiet s"
  "on_cpu c (upd_pipe p f s) = upd_pipe p f (on_cpu c s)"
  by (simp_all add: upd_pipe_def on_cpu_def)

lemma killed_writer_wakes_nobody:
  assumes "quiet s" "cur_proc s = Some c" "p_killed (procs s ! c)" "pipe_wf (pipes s p)"
    and "k = PIPESIZE - length (pq (pipes s p))" "k < length bs"
  shows "pipewrite p bs (int (length bs)) s = Ok (- 1) (upd_pipe p (puts (take k bs)) s)"
proof -
  have "pipes (taken (PipeLock p) s) = pipes s" by simp
  then have "pipewrite_loop bs p (taken (PipeLock p) s)
      = blocked p (taken (PipeLock p) (upd_pipe p (puts (take k bs)) s))"
    using pipewrite_loop_eq [of "taken (PipeLock p) s" p k bs] assms(4-6) by (simp add: upd_pipe_taken del: length_pq)
  then show ?thesis
    using assms(1-3) by (simp add: pipewrite_def lock_simps blocked_def am_killed_def pipewrite_end_def)
qed

text \<open>When there is room for all, and when there is something to read.\<close>

lemma pipewrite_fits:
  assumes "quiet s" "pipe_wf (pipes s p)" "length (pq (pipes s p)) + length bs \<le> PIPESIZE"
    and "\<forall>q \<in> set (procs s). p_state q \<noteq> SLEEPING"
  shows "pipewrite p bs (int (length bs)) s = Ok (int (length bs)) (upd_pipe p (puts bs) s)"
proof -
  have "pipewrite_loop bs p (taken (PipeLock p) s) = Ok True (taken (PipeLock p) (upd_pipe p (puts bs) s))"
  proof -
    have le: "length bs \<le> PIPESIZE - length (pq (pipes (taken (PipeLock p) s) p))" using assms(3) by simp
    have "pipe_wf (pipes (taken (PipeLock p) s) p)" using assms(2) by simp
    from pipewrite_loop_eq [OF this refl, of bs] show ?thesis by (simp only: le if_True upd_pipe_taken)
  qed
  moreover have "wakeup1 (ChNread p) (upd_pipe p (puts bs) s) = upd_pipe p (puts bs) s"
    using assms(4) by (intro no_sleepers_wakeup1) simp
  ultimately show ?thesis using assms(1) by (simp add: pipewrite_def lock_simps pipewrite_end_def)
qed

lemma piperead_ready:
  assumes "quiet s" "pq (pipes s p) \<noteq> []" "piperead_copy (nat n) (pipes s p) = (cs, q)"
    and "\<forall>q \<in> set (procs s). p_state q \<noteq> SLEEPING"
  shows "piperead p n s = Ok (int (length cs), cs) (upd_pipe p (\<lambda>_. q) s)"
proof -
  have "wakeup1 (ChNwrite p) (upd_pipe p (\<lambda>_. q) s) = upd_pipe p (\<lambda>_. q) s"
    using assms(4) by (intro no_sleepers_wakeup1) simp
  then show ?thesis
    using assms(1-3) by (simp add: piperead_def piperead_test_def pq_Nil_iff lock_simps upd_pipe_taken)
qed

text \<open>One process and an open pipe.\<close>

definition pipe_demo :: kstate where
  "pipe_demo = one_cpu\<lparr>cpus := [(cpu0 0)\<lparr>cpu_proc := Some 0\<rparr>], procs := [proc0\<lparr>p_state := RUNNING\<rparr>],
     pipes := (\<lambda>_. pipe0\<lparr>pi_readopen := True, pi_writeopen := True\<rparr>)\<rparr>"

lemma pipe_demo_ok:
  "this_cpu pipe_demo = Some 0" "ncli (cpus pipe_demo ! 0) = 0" "cur_proc pipe_demo = Some 0" "quiet pipe_demo"
  "on_cpu 0 pipe_demo = pipe_demo" "pipe_start pipe_demo" "p_state (procs pipe_demo ! 0) = RUNNING"
proof -
  show c: "this_cpu pipe_demo = Some 0" "ncli (cpus pipe_demo ! 0) = 0" "cur_proc pipe_demo = Some 0"
    by (simp_all add: pipe_demo_def this_cpu_def cur_proc_def cpu0_def)
  show "quiet pipe_demo"
    unfolding quiet_def
    by (simp add: cpu_ok_def c) (simp add: pipe_demo_def cpu0_def lock_free_def spinlock0_def)
  show "on_cpu 0 pipe_demo = pipe_demo"
    by (simp add: on_cpu_def pipe_demo_def cpu0_def one_cpu_def kstate0_def)
  show "pipe_start pipe_demo" "p_state (procs pipe_demo ! 0) = RUNNING"
    by (simp_all add: pipe_start_def pipe_demo_def pipe_wf_def pipe0_def)
qed

theorem pipe_fifo_witness:
  "\<exists>s g. rtranclp pipe_step (pipe_demo, no_log) (s, g) \<and> went_in g 0 = [1, 2, 3] \<and> came_out g 0 = [1, 2]
     \<and> pq (pipes s 0) = [3]"
proof -
  let ?q = "pipes pipe_demo 0" and ?s = "upd_pipe 0 (puts [1, 2, 3]) pipe_demo"
  note ok = pipe_demo_ok
  have wf: "pipe_wf ?q" "pq ?q = []" "\<forall>q \<in> set (procs pipe_demo). p_state q \<noteq> SLEEPING"
    using ok(6) by (auto simp: pipe_start_def pq_Nil_iff)
  have w: "pipewrite 0 [1, 2, 3] 3 pipe_demo = Ok 3 ?s"
    using pipewrite_fits [OF ok(4) wf(1), of "[1, 2, 3]"] wf(2,3) by simp
  have p: "pq (pipes ?s 0) = [1, 2, 3]" "pipe_wf (pipes ?s 0)" using puts_ok [OF wf(1), of "[1, 2, 3]"] wf(2) by simp_all
  obtain cs q where cq: "piperead_copy (nat 2) (pipes ?s 0) = (cs, q)" by fastforce
  have l: "length cs = min (nat 2) (length (pq (pipes ?s 0)))" "pq (pipes ?s 0) = cs @ pq q"
    using piperead_copy_ok [OF p(2) cq] by blast+
  have "length cs = 2" using l(1) unfolding p(1) by simp
  moreover have "[1, 2, 3] = cs @ pq q" using l(2) unfolding p(1) .
  ultimately have cs: "cs = [1, 2]" by (auto simp: length_Suc_conv numeral_2_eq_2)
  have oc: "on_cpu 0 ?s = ?s" by (simp only: upd_pipe_locks ok(5))
  have r: "piperead 0 2 ?s = Ok (2, [1, 2]) (upd_pipe 0 (\<lambda>_. q) ?s)"
    using piperead_ready [of ?s 0 2 cs q] ok(4) p(1) cq wf(3) cs by (simp del: length_pq fun_upd_apply)
  let ?g = "log_in 0 [1, 2, 3] pipe_demo (Ok 3 ?s) ?s no_log" and ?t = "upd_pipe 0 (\<lambda>_. q) ?s"
  have "pipe_step (pipe_demo, no_log) (?s, ?g)"
    by (rule pipe_step.writes [where c = 0 and n = 3]) (simp_all add: ok(5) w)
  moreover have "pipe_step (?s, ?g) (?t, log_out 0 (out_of (Ok (2, [1, 2]) ?t)) ?g)"
  proof (rule pipe_step.reads [where c = 0 and n = 2])
    show "Ok (2, [1, 2]) ?t = piperead 0 2 (on_cpu 0 ?s)" unfolding oc r ..
  qed simp
  ultimately have "rtranclp pipe_step (pipe_demo, no_log) (?t, log_out 0 [1, 2] ?g)" by simp
  moreover from pipe_fifo [OF ok(6) this, of 0]
  have "went_in ?g 0 = [1, 2] @ pq (pipes ?t 0)" by (simp add: log_out_def log_in_def no_log_def)
  moreover have "went_in ?g 0 = [1, 2, 3]" by (simp add: log_in_def no_log_def accepted_def)
  ultimately show ?thesis
    by (intro exI [of _ ?t] exI [of _ "log_out 0 [1, 2] ?g"]) (simp add: log_out_def log_in_def no_log_def)
qed


end
