(* ===== verification/File.thy ===== *)
theory File
  imports Fs Pipe
begin

text \<open>
  The table of open files (\<open>file.c\<close>) and \<open>pipealloc\<close> of \<open>pipe.c\<close>. A \<open>struct file*\<close> is an index of
  the table.
\<close>

section \<open>Operations\<close>

definition upd_file :: "nat \<Rightarrow> (kfile \<Rightarrow> kfile) \<Rightarrow> kstate \<Rightarrow> kstate" where
  "upd_file i f s = s\<lparr>ftable := (ftable s)[i := f (ftable s ! i)]\<rparr>"

definition fileinit :: "kstate \<Rightarrow> kstate" where
  "fileinit s = initlock FtableLock ''ftable'' s"

definition filealloc :: "kstate \<Rightarrow> (kstate, nat option) res" where
  "filealloc s =
     bind (acquire FtableLock s) (\<lambda>_ s.
       case scan (\<lambda>f. f_ref f = 0) (ftable s) of
         Some f \<Rightarrow> bind (release FtableLock (upd_file f (\<lambda>k. k\<lparr>f_ref := 1\<rparr>) s)) (\<lambda>_ s. Ok (Some f) s)
       | None \<Rightarrow> bind (release FtableLock s) (\<lambda>_ s. Ok None s))"

definition filedup :: "nat \<Rightarrow> kstate \<Rightarrow> (kstate, nat) res" where
  "filedup f s =
     bind (acquire FtableLock s) (\<lambda>_ s.
       if f_ref (ftable s ! f) < 1 then Panic ''filedup''
       else bind (release FtableLock (upd_file f (\<lambda>k. k\<lparr>f_ref := f_ref k + 1\<rparr>) s)) (\<lambda>_ s. Ok f s))"

definition fileclose :: "nat \<Rightarrow> kstate \<Rightarrow> (kstate, unit) res" where
  "fileclose f s =
     bind (acquire FtableLock s) (\<lambda>_ s.
       if f_ref (ftable s ! f) < 1 then Panic ''fileclose''
       else
         let s = upd_file f (\<lambda>k. k\<lparr>f_ref := f_ref k - 1\<rparr>) s in
         if 0 < f_ref (ftable s ! f) then release FtableLock s
         else
           let ff = ftable s ! f;
               s = upd_file f (\<lambda>k. k\<lparr>f_ref := 0, f_type := FD_NONE\<rparr>) s
           in bind (release FtableLock s) (\<lambda>_ s.
                case f_type ff of
                  FD_PIPE \<Rightarrow> pipeclose (f_pipe ff) (f_writable ff) s
                | FD_INODE \<Rightarrow>
                    bind (begin_op s) (\<lambda>_ s.
                    bind (case f_ip ff of None \<Rightarrow> Undef | Some ip \<Rightarrow> iput ip s) (\<lambda>_ s. end_op s))
                | FD_NONE \<Rightarrow> Ok () s))"

text \<open>The second component is what is stored through \<open>st\<close>.\<close>

definition filestat :: "nat \<Rightarrow> kstate \<Rightarrow> (kstate, int \<times> stat option) res" where
  "filestat f s =
     (if f_type (ftable s ! f) = FD_INODE then
        bind (ilock (f_ip (ftable s ! f)) s) (\<lambda>_ s.
          let st = stati (the (f_ip (ftable s ! f))) s in
        bind (iunlock (f_ip (ftable s ! f)) s) (\<lambda>_ s. Ok (0, Some st) s))
      else Ok (- 1, None) s)"

definition fileread :: "nat \<Rightarrow> int \<Rightarrow> kstate \<Rightarrow> (kstate, int \<times> u8 list) res" where
  "fileread f n s =
     (let k = ftable s ! f in
      if \<not> f_readable k then Ok (- 1, []) s
      else case f_type k of
        FD_PIPE \<Rightarrow> piperead (f_pipe k) n s
      | FD_INODE \<Rightarrow>
          bind (ilock (f_ip k) s) (\<lambda>_ s.
          bind (readi (the (f_ip k)) (f_off (ftable s ! f)) (of_int n) s) (\<lambda>r s.
            let s = (if 0 < fst r then upd_file f (\<lambda>k. k\<lparr>f_off := f_off k + of_int (fst r)\<rparr>) s else s) in
          bind (iunlock (f_ip k) s) (\<lambda>_ s. Ok r s)))
      | FD_NONE \<Rightarrow> Panic ''fileread'')"

text \<open>
  The loop of \<open>filewrite\<close>: \<open>left\<close> are the bytes from \<open>addr + i\<close> on. It takes at most \<open>max\<close> = 1536
  bytes in one transaction; the result says whether all bytes were written.
\<close>

function filewrite_loop :: "nat \<Rightarrow> nat \<Rightarrow> u8 list \<Rightarrow> kstate \<Rightarrow> (kstate, bool) res" where
  "filewrite_loop f ip left s =
     (if left = [] then Ok True s
      else
        let n1 = min (length left) 1536 in
        bind (begin_op s) (\<lambda>_ s.
        bind (ilock (Some ip) s) (\<lambda>_ s.
        bind (writei ip left (f_off (ftable s ! f)) (of_nat n1) s) (\<lambda>r s.
          let s = (if 0 < r then upd_file f (\<lambda>k. k\<lparr>f_off := f_off k + of_int r\<rparr>) s else s) in
        bind (iunlock (Some ip) s) (\<lambda>_ s.
        bind (end_op s) (\<lambda>_ s.
          if r < 0 then Ok False s
          else if r \<noteq> int n1 then Panic ''short filewrite''
          else filewrite_loop f ip (drop n1 left) s))))))"
  by pat_completeness auto
termination by (relation "measure (\<lambda>(f, ip, left, s). length left)") auto

declare filewrite_loop.simps [simp del]

definition filewrite :: "nat \<Rightarrow> u8 list \<Rightarrow> int \<Rightarrow> kstate \<Rightarrow> (kstate, int) res" where
  "filewrite f addr n s =
     (let k = ftable s ! f in
      if \<not> f_writable k then Ok (- 1) s
      else case f_type k of
        FD_PIPE \<Rightarrow> pipewrite (f_pipe k) addr n s
      | FD_INODE \<Rightarrow>
          if length addr < nat n then Undef
          else case f_ip k of
            None \<Rightarrow> if 0 < n then bind (begin_op s) (\<lambda>_ s. bind (ilock None s) (\<lambda>_ s. Undef)) else Ok (if n = 0 then 0 else - 1) s
          | Some ip \<Rightarrow>
              bind (filewrite_loop f ip (take (nat n) addr) s) (\<lambda>ok s. Ok (if ok \<and> 0 \<le> n then n else - 1) s)
      | FD_NONE \<Rightarrow> Panic ''filewrite'')"

text \<open>The label \<open>bad\<close> of \<open>pipealloc\<close>; the page, if there is one, is released first.\<close>

definition pipealloc_bad :: "nat option \<Rightarrow> nat option \<Rightarrow> kstate \<Rightarrow> (kstate, (nat \<times> nat) option) res" where
  "pipealloc_bad f0 f1 s =
     bind (case f0 of None \<Rightarrow> Ok () s | Some f \<Rightarrow> fileclose f s) (\<lambda>_ s.
     bind (case f1 of None \<Rightarrow> Ok () s | Some f \<Rightarrow> fileclose f s) (\<lambda>_ s. Ok None s))"

text \<open>The result is the two files, or \<open>None\<close> for -1; on the way to \<open>bad\<close> no page has been allocated.\<close>

definition pipealloc :: "kstate \<Rightarrow> (kstate, (nat \<times> nat) option) res" where
  "pipealloc s =
     bind (filealloc s) (\<lambda>f0 s.
       case f0 of None \<Rightarrow> pipealloc_bad None None s
       | Some f0 \<Rightarrow>
           bind (filealloc s) (\<lambda>f1 s.
             case f1 of None \<Rightarrow> pipealloc_bad (Some f0) None s
             | Some f1 \<Rightarrow>
                 bind (kalloc s) (\<lambda>p s.
                   if p = 0 then pipealloc_bad (Some f0) (Some f1) s
                   else
                     let s = upd_pipe p (\<lambda>q. q\<lparr>pi_readopen := True, pi_writeopen := True, pi_nwrite := 0, pi_nread := 0\<rparr>) s;
                         s = initlock (PipeLock p) ''pipe'' s;
                         s = upd_file f0 (\<lambda>k. k\<lparr>f_type := FD_PIPE, f_readable := True, f_writable := False, f_pipe := p\<rparr>) s;
                         s = upd_file f1 (\<lambda>k. k\<lparr>f_type := FD_PIPE, f_readable := False, f_writable := True, f_pipe := p\<rparr>) s
                     in Ok (Some (f0, f1)) s)))"

end
