(* ===== verification/Process.thy ===== *)
theory Process
  imports File
begin

text \<open>
  Creation and end of processes (\<open>userinit\<close>, \<open>fork\<close>, \<open>exit\<close> and \<open>forkret\<close> of \<open>proc.c\<close>), which need
  the file system.
\<close>

section \<open>Operations\<close>

text \<open>\<open>initcode\<close> and \<open>initcode_size\<close> are the linker's symbols for the embedded program \<open>initcode.S\<close>.\<close>

definition userinit :: "u32 \<Rightarrow> u32 \<Rightarrow> kstate \<Rightarrow> (kstate, unit) res" where
  "userinit initcode initcode_size s =
     bind (allocproc s) (\<lambda>p s.
       let s = s\<lparr>initproc := p\<rparr> in
       case p of None \<Rightarrow> Undef
       | Some p \<Rightarrow>
           bind (setupkvm s) (\<lambda>pgdir s.
             let s = upd_proc p (\<lambda>q. q\<lparr>p_pgdir := pgdir\<rparr>) s in
             if pgdir = 0 then Panic ''userinit: out of memory?''
             else
               bind (inituvm pgdir initcode initcode_size s) (\<lambda>_ s.
                 let s = upd_proc p (\<lambda>q. q\<lparr>p_sz := PGSIZE, tf_of := trapframe0\<lparr>tf_cs := 0x1B, tf_ds := 0x23, tf_es := 0x23,
                           tf_ss := 0x23, tf_eflags := 0x200, tf_esp := PGSIZE, tf_eip := 0\<rparr>\<rparr>) s
                 in case safestrcpy (p_name (procs s ! p)) (lit ''initcode'') 16 of
                      None \<Rightarrow> Undef
                    | Some nm \<Rightarrow>
                        let s = upd_proc p (\<lambda>q. q\<lparr>p_name := nm\<rparr>) s in
                        bind (namei (lit ''/'') s) (\<lambda>cwd s.
                          let s = upd_proc p (\<lambda>q. q\<lparr>p_cwd := cwd\<rparr>) s in
                        bind (acquire PtableLock s) (\<lambda>_ s.
                          release PtableLock (upd_proc p (\<lambda>q. q\<lparr>p_state := RUNNABLE\<rparr>) s))))))"

text \<open>The loop of \<open>fork\<close> that duplicates the open files of process \<open>cp\<close> for \<open>np\<close>.\<close>

primrec fork_files :: "nat list \<Rightarrow> nat \<Rightarrow> nat \<Rightarrow> kstate \<Rightarrow> (kstate, unit) res" where
  "fork_files [] cp np s = Ok () s"
| "fork_files (i # js) cp np s =
     (case p_ofile (procs s ! cp) ! i of
        None \<Rightarrow> fork_files js cp np s
      | Some f \<Rightarrow>
          bind (filedup f s) (\<lambda>f s.
            fork_files js cp np (upd_proc np (\<lambda>q. q\<lparr>p_ofile := (p_ofile q)[i := Some f]\<rparr>) s)))"

definition fork :: "kstate \<Rightarrow> (kstate, u32) res" where
  "fork s =
     bind (myproc s) (\<lambda>cp s.
     bind (allocproc s) (\<lambda>np s.
       case np of None \<Rightarrow> Ok (- 1) s
       | Some np \<Rightarrow>
           (case cp of None \<Rightarrow> Undef
            | Some cp \<Rightarrow>
                bind (copyuvm (p_pgdir (procs s ! cp)) (p_sz (procs s ! cp)) s) (\<lambda>d s.
                  let s = upd_proc np (\<lambda>q. q\<lparr>p_pgdir := d\<rparr>) s in
                  if d = 0 then
                    bind (kfree (p_kstack (procs s ! np)) s) (\<lambda>_ s.
                      Ok (- 1) (upd_proc np (\<lambda>q. q\<lparr>p_kstack := 0, p_state := UNUSED\<rparr>) s))
                  else
                    let s = upd_proc np (\<lambda>q. q\<lparr>p_sz := p_sz (procs s ! cp), p_parent := Some cp,
                              tf_of := (tf_of (procs s ! cp))\<lparr>tf_eax := 0\<rparr>\<rparr>) s
                    in bind (fork_files [0..<NOFILE] cp np s) (\<lambda>_ s.
                       bind (case p_cwd (procs s ! cp) of None \<Rightarrow> Undef | Some cwd \<Rightarrow> idup cwd s) (\<lambda>cwd s.
                         let s = upd_proc np (\<lambda>q. q\<lparr>p_cwd := Some cwd\<rparr>) s in
                         case safestrcpy (p_name (procs s ! np)) (p_name (procs s ! cp)) 16 of
                           None \<Rightarrow> Undef
                         | Some nm \<Rightarrow>
                             let s = upd_proc np (\<lambda>q. q\<lparr>p_name := nm\<rparr>) s;
                                 pid = p_pid (procs s ! np)
                             in bind (acquire PtableLock s) (\<lambda>_ s.
                                  let s = upd_proc np (\<lambda>q. q\<lparr>p_state := RUNNABLE\<rparr>) s in
                                bind (release PtableLock s) (\<lambda>_ s. Ok pid s))))))))"

primrec exit_files :: "nat list \<Rightarrow> nat \<Rightarrow> kstate \<Rightarrow> (kstate, unit) res" where
  "exit_files [] cp s = Ok () s"
| "exit_files (fd # fds) cp s =
     (case p_ofile (procs s ! cp) ! fd of
        None \<Rightarrow> exit_files fds cp s
      | Some f \<Rightarrow>
          bind (fileclose f s) (\<lambda>_ s.
            exit_files fds cp (upd_proc cp (\<lambda>q. q\<lparr>p_ofile := (p_ofile q)[fd := None]\<rparr>) s)))"

definition wakeup_proc :: "nat option \<Rightarrow> kstate \<Rightarrow> kstate" where
  "wakeup_proc p s = (case p of None \<Rightarrow> s | Some p \<Rightarrow> wakeup1 (ChProc p) s)"

text \<open>The loop of \<open>exit\<close> that hands the children of \<open>cp\<close> to the first process.\<close>

primrec exit_children :: "nat list \<Rightarrow> nat \<Rightarrow> kstate \<Rightarrow> kstate" where
  "exit_children [] cp s = s"
| "exit_children (p # ps) cp s =
     (if p_parent (procs s ! p) = Some cp
      then let s = upd_proc p (\<lambda>q. q\<lparr>p_parent := initproc s\<rparr>) s
           in exit_children ps cp (if p_state (procs s ! p) = ZOMBIE then wakeup_proc (initproc s) s else s)
      else exit_children ps cp s)"

definition exit :: "kstate \<Rightarrow> (kstate, unit) res" where
  "exit s =
     bind (myproc s) (\<lambda>cp s.
       if cp = initproc s then Panic ''init exiting''
       else case cp of None \<Rightarrow> Undef
       | Some cp \<Rightarrow>
           bind (exit_files [0..<NOFILE] cp s) (\<lambda>_ s.
           bind (begin_op s) (\<lambda>_ s.
           bind (case p_cwd (procs s ! cp) of None \<Rightarrow> Undef | Some cwd \<Rightarrow> iput cwd s) (\<lambda>_ s.
           bind (end_op s) (\<lambda>_ s.
             let s = upd_proc cp (\<lambda>q. q\<lparr>p_cwd := None\<rparr>) s in
           bind (acquire PtableLock s) (\<lambda>_ s.
             let s = wakeup_proc (p_parent (procs s ! cp)) s;
                 s = exit_children [0..<NPROC] cp s;
                 s = upd_proc cp (\<lambda>q. q\<lparr>p_exittime := ticks s\<rparr>) s;
                 s = upd_proc cp (\<lambda>q. q\<lparr>p_state := ZOMBIE\<rparr>) s
             in bind (sched s) (\<lambda>_ s. Panic ''zombie exit'')))))))"

text \<open>Where a new process starts: the scheduler holds the table's lock.\<close>

definition forkret :: "kstate \<Rightarrow> (kstate, unit) res" where
  "forkret s =
     bind (release PtableLock s) (\<lambda>_ s.
       if forkret_first s then
         bind (iinit ROOTDEV (s\<lparr>forkret_first := False\<rparr>)) (\<lambda>_ s. initlog ROOTDEV s)
       else Ok () s)"

end
