(* ===== verification/Exec.thy ===== *)
theory Exec
  imports Process
begin

text \<open>
  Running a program (\<open>exec.c\<close>, \<open>loaduvm\<close> of \<open>vm.c\<close>, \<open>elf.h\<close>): the ELF file is read into a fresh
  address space, the arguments are laid out on a fresh stack, and only then the old address space
  is given up. \<open>path\<close> and the elements of \<open>argv\<close> are arrays of bytes with their NUL; \<open>argv\<close> is the
  list of the strings before the null pointer.
\<close>

section \<open>ELF files\<close>

record elfhdr =
  e_magic :: u32
  e_elf :: "u8 list"
  e_type :: u16
  e_machine :: u16
  e_version :: u32
  e_entry :: u32
  e_phoff :: u32
  e_shoff :: u32
  e_flags :: u32
  e_ehsize :: u16
  e_phentsize :: u16
  e_phnum :: u16
  e_shentsize :: u16
  e_shnum :: u16
  e_shstrndx :: u16

definition get_elfhdr :: "u8 list \<Rightarrow> elfhdr" where
  "get_elfhdr d = \<lparr>e_magic = get32 d 0, e_elf = chunk d 4 12, e_type = get16 d 16, e_machine = get16 d 18,
     e_version = get32 d 20, e_entry = get32 d 24, e_phoff = get32 d 28, e_shoff = get32 d 32,
     e_flags = get32 d 36, e_ehsize = get16 d 40, e_phentsize = get16 d 42, e_phnum = get16 d 44,
     e_shentsize = get16 d 46, e_shnum = get16 d 48, e_shstrndx = get16 d 50\<rparr>"

record proghdr =
  ph_type :: u32
  ph_off :: u32
  ph_vaddr :: u32
  ph_paddr :: u32
  ph_filesz :: u32
  ph_memsz :: u32
  ph_flags :: u32
  ph_align :: u32

definition get_proghdr :: "u8 list \<Rightarrow> proghdr" where
  "get_proghdr d = \<lparr>ph_type = get32 d 0, ph_off = get32 d 4, ph_vaddr = get32 d 8, ph_paddr = get32 d 12,
     ph_filesz = get32 d 16, ph_memsz = get32 d 20, ph_flags = get32 d 24, ph_align = get32 d 28\<rparr>"

section \<open>Loading a segment\<close>

text \<open>The loop of \<open>loaduvm\<close> at \<open>i\<close>; what \<open>readi\<close> delivers goes to the page's kernel address.\<close>

function loaduvm_loop :: "nat \<Rightarrow> u32 \<Rightarrow> u32 \<Rightarrow> nat \<Rightarrow> u32 \<Rightarrow> u32 \<Rightarrow> kstate \<Rightarrow> (kstate, int) res" where
  "loaduvm_loop i pgdir addr ip offset sz s =
     (if unat sz \<le> i then Ok 0 s
      else
        bind (walkpgdir pgdir (addr + of_nat i) False s) (\<lambda>pte s.
          if pte = 0 then Panic ''loaduvm: address should exist''
          else
            let pa = PTE_ADDR (read32 (mem s) pte);
                n = (if unat sz - i < 4096 then of_nat (unat sz - i) else PGSIZE)
            in bind (readi ip (offset + of_nat i) n s) (\<lambda>r s.
                 let s = s\<lparr>mem := write_bytes (mem s) (P2V pa) (snd r)\<rparr> in
                 if of_int (fst r) \<noteq> n then Ok (- 1) s
                 else loaduvm_loop (i + 4096) pgdir addr ip offset sz s)))"
  by pat_completeness auto
termination by (relation "measure (\<lambda>(i, pgdir, addr, ip, offset, sz, s). unat sz - i)") auto

declare loaduvm_loop.simps [simp del]

definition loaduvm :: "u32 \<Rightarrow> u32 \<Rightarrow> nat \<Rightarrow> u32 \<Rightarrow> u32 \<Rightarrow> kstate \<Rightarrow> (kstate, int) res" where
  "loaduvm pgdir addr ip offset sz s =
     (if addr mod 4096 \<noteq> 0 then Panic ''loaduvm: addr must be page aligned''
      else loaduvm_loop 0 pgdir addr ip offset sz s)"

section \<open>\<open>exec\<close>\<close>

text \<open>The label \<open>bad\<close>.\<close>

definition exec_bad :: "u32 \<Rightarrow> nat option \<Rightarrow> kstate \<Rightarrow> (kstate, int) res" where
  "exec_bad pgdir ip s =
     bind (if pgdir \<noteq> 0 then freevm pgdir s else Ok () s) (\<lambda>_ s.
     bind (case ip of None \<Rightarrow> Ok () s | Some ip \<Rightarrow> bind (iunlockput ip s) (\<lambda>_ s. end_op s)) (\<lambda>_ s. Ok (- 1) s))"

text \<open>The loop over the program headers; \<open>None\<close> stands for a jump to \<open>bad\<close>, \<open>Some sz\<close> for the end.\<close>

primrec exec_load :: "nat \<Rightarrow> u32 \<Rightarrow> u32 \<Rightarrow> u32 \<Rightarrow> nat \<Rightarrow> kstate \<Rightarrow> (kstate, u32 option) res" where
  "exec_load 0 off sz pgdir ip s = Ok (Some sz) s"
| "exec_load (Suc k) off sz pgdir ip s =
     bind (readi ip off 32 s) (\<lambda>r s.
       if fst r \<noteq> 32 then Ok None s
       else
         let ph = get_proghdr (snd r) in
         if ph_type ph \<noteq> 1 then exec_load k (off + 32) sz pgdir ip s
         else if ph_memsz ph < ph_filesz ph then Ok None s
         else if ph_vaddr ph + ph_memsz ph < ph_vaddr ph then Ok None s
         else
           bind (allocuvm pgdir sz (ph_vaddr ph + ph_memsz ph) s) (\<lambda>sz s.
             if sz = 0 then Ok None s
             else if ph_vaddr ph mod 4096 \<noteq> 0 then Ok None s
             else
               bind (loaduvm pgdir (ph_vaddr ph) ip (ph_off ph) (ph_filesz ph) s) (\<lambda>r s.
                 if r < 0 then Ok None s else exec_load k (off + 32) sz pgdir ip s)))"

text \<open>The loop that pushes the argument strings; the result is \<open>sp\<close> and \<open>ustack[3..]\<close> in order.\<close>

primrec exec_args :: "u8 list list \<Rightarrow> nat \<Rightarrow> u32 \<Rightarrow> u32 list \<Rightarrow> u32 \<Rightarrow> kstate \<Rightarrow> (kstate, (u32 \<times> u32 list) option) res" where
  "exec_args [] argc sp us pgdir s = Ok (Some (sp, us)) s"
| "exec_args (a # argv) argc sp us pgdir s =
     (if MAXARG \<le> argc then Ok None s
      else case strlen a of
        None \<Rightarrow> Undef
      | Some n \<Rightarrow>
          let sp = (sp - of_nat (n + 1)) AND NOT 3 in
          bind (copyout pgdir sp (take (n + 1) a) s) (\<lambda>r s.
            if r < 0 then Ok None s else exec_args argv (argc + 1) sp (us @ [sp]) pgdir s))"

text \<open>The part of the path behind the last slash.\<close>

fun path_last :: "u8 list \<Rightarrow> u8 list \<Rightarrow> u8 list option" where
  "path_last [] lst = None"
| "path_last (c # s) lst = (if c = 0 then Some lst else if c = 47 then path_last s s else path_last s lst)"

text \<open>From the stack on: \<open>ip\<close> is 0 again, so that \<open>bad\<close> only frees the address space.\<close>

definition exec_stack :: "nat \<Rightarrow> u8 list \<Rightarrow> u8 list list \<Rightarrow> u32 \<Rightarrow> u32 \<Rightarrow> u32 \<Rightarrow> kstate \<Rightarrow> (kstate, int) res" where
  "exec_stack cp path argv pgdir sz entry s =
     (let sz = PGROUNDUP sz in
      bind (allocuvm pgdir sz (sz + 8192) s) (\<lambda>sz s.
        if sz = 0 then exec_bad pgdir None s
        else
          bind (clearpteu pgdir (sz - 8192) s) (\<lambda>_ s.
          bind (exec_args argv 0 sz [] pgdir s) (\<lambda>r s.
            case r of None \<Rightarrow> exec_bad pgdir None s
            | Some (sp, us) \<Rightarrow>
                let argc = of_nat (length us);
                    ustack = [0xFFFFFFFF, argc, sp - (argc + 1) * 4] @ us @ [0];
                    sp = sp - (3 + argc + 1) * 4
                in bind (copyout pgdir sp (concat (map put32 ustack)) s) (\<lambda>r s.
                     if r < 0 then exec_bad pgdir None s
                     else case path_last path path of
                       None \<Rightarrow> Undef
                     | Some lst \<Rightarrow>
                         (case safestrcpy (p_name (procs s ! cp)) lst 16 of
                            None \<Rightarrow> Undef
                          | Some nm \<Rightarrow>
                              let oldpgdir = p_pgdir (procs s ! cp);
                                  s = upd_proc cp (\<lambda>q. q\<lparr>p_name := nm, p_pgdir := pgdir, p_sz := sz,
                                        tf_of := (tf_of q)\<lparr>tf_eip := entry, tf_esp := sp\<rparr>\<rparr>) s
                              in bind (switchuvm (Some cp) s) (\<lambda>_ s.
                                 bind (freevm oldpgdir s) (\<lambda>_ s. Ok 0 s))))))))"

definition exec :: "u8 list \<Rightarrow> u8 list list \<Rightarrow> kstate \<Rightarrow> (kstate, int) res" where
  "exec path argv s =
     bind (myproc s) (\<lambda>cp s.
     bind (begin_op s) (\<lambda>_ s.
     bind (namei path s) (\<lambda>ipo s.
       case ipo of
         None \<Rightarrow>
           bind (end_op s) (\<lambda>_ s.
           bind (cprintf (Some (bytes ''exec: fail'' @ [10, 0])) [] s) (\<lambda>_ s. Ok (- 1) s))
       | Some ip \<Rightarrow>
           bind (ilock (Some ip) s) (\<lambda>_ s.
           bind (readi ip 0 52 s) (\<lambda>r s.
             let elf = get_elfhdr (snd r) in
             if fst r \<noteq> 52 then exec_bad 0 (Some ip) s
             else if e_magic elf \<noteq> 0x464C457F then exec_bad 0 (Some ip) s
             else
               bind (setupkvm s) (\<lambda>pgdir s.
                 if pgdir = 0 then exec_bad 0 (Some ip) s
                 else
                   bind (exec_load (unat (e_phnum elf)) (e_phoff elf) 0 pgdir ip s) (\<lambda>r s.
                     case r of None \<Rightarrow> exec_bad pgdir (Some ip) s
                     | Some sz \<Rightarrow>
                         bind (iunlockput ip s) (\<lambda>_ s.
                         bind (end_op s) (\<lambda>_ s.
                           case cp of None \<Rightarrow> Undef
                           | Some cp \<Rightarrow> exec_stack cp path argv pgdir sz (e_entry elf) s)))))))))"

end
