(* ===== verification/Sysarg.thy ===== *)
theory Sysarg
  imports Exec
begin

text \<open>
  How a system call finds its arguments (the first half of \<open>syscall.c\<close>): they are on the user
  stack, and pointers are checked against the size of the process. The kernel then uses user
  addresses directly, through the page table of the current process; an access to a page that is
  not mapped is a page fault in the kernel, on which \<open>trap\<close> panics.
\<close>

section \<open>User memory\<close>

text \<open>The kernel address behind a user address, for reading and for writing (\<open>CR0_WP\<close> is set).\<close>

definition ka_read :: "kstate \<Rightarrow> u32 \<Rightarrow> u32 \<Rightarrow> u32 option" where
  "ka_read s d va = map_option (\<lambda>e. P2V (PTE_ADDR e) + (va - PGROUNDDOWN va)) (translate (mem s) d va)"

definition ka_write :: "kstate \<Rightarrow> u32 \<Rightarrow> u32 \<Rightarrow> u32 option" where
  "ka_write s d va = (case translate (mem s) d va of None \<Rightarrow> None
     | Some e \<Rightarrow> if e AND 2 = 0 then None else Some (P2V (PTE_ADDR e) + (va - PGROUNDDOWN va)))"

text \<open>\<open>n\<close> bytes from \<open>va\<close> on.\<close>

primrec uload :: "nat \<Rightarrow> u32 \<Rightarrow> u32 \<Rightarrow> kstate \<Rightarrow> u8 list option" where
  "uload 0 d va s = Some []"
| "uload (Suc n) d va s =
     (case ka_read s d va of None \<Rightarrow> None | Some a \<Rightarrow> map_option ((#) (mem s a)) (uload n d (va + 1) s))"

primrec ustore :: "u8 list \<Rightarrow> u32 \<Rightarrow> u32 \<Rightarrow> kstate \<Rightarrow> (kstate, unit) res" where
  "ustore [] d va s = Ok () s"
| "ustore (c # cs) d va s =
     (case ka_write s d va of None \<Rightarrow> Panic ''trap''
      | Some a \<Rightarrow> ustore cs d (va + 1) (s\<lparr>mem := (mem s)(a := c)\<rparr>))"

text \<open>The current process, which a system call always has.\<close>

definition curproc :: "kstate \<Rightarrow> (kstate, nat) res" where
  "curproc s = bind (myproc s) (\<lambda>p s. case p of None \<Rightarrow> Undef | Some p \<Rightarrow> Ok p s)"

definition uread :: "u32 \<Rightarrow> nat \<Rightarrow> kstate \<Rightarrow> (kstate, u8 list) res" where
  "uread va n s =
     bind (curproc s) (\<lambda>p s.
       case uload n (p_pgdir (procs s ! p)) va s of None \<Rightarrow> Panic ''trap'' | Some bs \<Rightarrow> Ok bs s)"

definition uwrite :: "u32 \<Rightarrow> u8 list \<Rightarrow> kstate \<Rightarrow> (kstate, unit) res" where
  "uwrite va bs s = bind (curproc s) (\<lambda>p s. ustore bs (p_pgdir (procs s ! p)) va s)"

section \<open>Arguments\<close>

text \<open>In the results below \<open>None\<close> is the return value -1.\<close>

definition fetchint :: "u32 \<Rightarrow> kstate \<Rightarrow> (kstate, u32 option) res" where
  "fetchint addr s =
     bind (curproc s) (\<lambda>p s.
       let sz = p_sz (procs s ! p) in
       if sz \<le> addr \<or> sz < addr + 4 then Ok None s
       else bind (uread addr 4 s) (\<lambda>bs s. Ok (Some (get32 bs 0)) s))"

text \<open>The loop of \<open>fetchstr\<close> over the \<open>n\<close> bytes up to the end of the address space.\<close>

primrec fetchstr_loop :: "nat \<Rightarrow> u32 \<Rightarrow> u8 list \<Rightarrow> kstate \<Rightarrow> (kstate, u8 list option) res" where
  "fetchstr_loop 0 va out s = Ok None s"
| "fetchstr_loop (Suc n) va out s =
     bind (uread va 1 s) (\<lambda>bs s.
       if hd bs = 0 then Ok (Some (out @ [0])) s else fetchstr_loop n (va + 1) (out @ bs) s)"

text \<open>The result is the string \<open>*pp\<close> points to, with its NUL; its length is the return value.\<close>

definition fetchstr :: "u32 \<Rightarrow> kstate \<Rightarrow> (kstate, u8 list option) res" where
  "fetchstr addr s =
     bind (curproc s) (\<lambda>p s.
       let sz = p_sz (procs s ! p) in
       if sz \<le> addr then Ok None s else fetchstr_loop (unat (sz - addr)) addr [] s)"

definition argint :: "nat \<Rightarrow> kstate \<Rightarrow> (kstate, u32 option) res" where
  "argint n s = bind (curproc s) (\<lambda>p s. fetchint (tf_esp (tf_of (procs s ! p)) + 4 + 4 * of_nat n) s)"

definition argptr :: "nat \<Rightarrow> u32 \<Rightarrow> kstate \<Rightarrow> (kstate, u32 option) res" where
  "argptr n len s =
     bind (curproc s) (\<lambda>p s.
     bind (argint n s) (\<lambda>r s.
       case r of None \<Rightarrow> Ok None s
       | Some i \<Rightarrow>
           let sz = p_sz (procs s ! p) in
           if sint len < 0 \<or> sz \<le> i \<or> sz < i + len then Ok None s else Ok (Some i) s))"

definition argstr :: "nat \<Rightarrow> kstate \<Rightarrow> (kstate, u8 list option) res" where
  "argstr n s = bind (argint n s) (\<lambda>r s. case r of None \<Rightarrow> Ok None s | Some addr \<Rightarrow> fetchstr addr s)"

text \<open>The pattern \<open>if(arg\<dots>(\<dots>) < 0) return -1;\<close> of the system calls.\<close>

definition or_fail :: "(kstate, 'a option) res \<Rightarrow> ('a \<Rightarrow> kstate \<Rightarrow> (kstate, u32) res) \<Rightarrow> (kstate, u32) res" where
  "or_fail r k = bind r (\<lambda>x s. case x of None \<Rightarrow> Ok (- 1) s | Some x \<Rightarrow> k x s)"

section \<open>Accepted arguments lie inside the process\<close>

text \<open>What a user program finds at an address.\<close>

definition ubyte :: "kstate \<Rightarrow> u32 \<Rightarrow> u32 \<Rightarrow> u8 option" where
  "ubyte s d va = map_option (mem s) (ka_read s d va)"

lemma uload_Some:
  "uload n d va s = Some bs \<longleftrightarrow> length bs = n \<and> (\<forall>i < n. ubyte s d (va + of_nat i) = Some (bs ! i))"
proof (induction n arbitrary: va bs)
  case (Suc n)
  show ?case
  proof (cases bs)
    case (Cons c cs)
    have "uload (Suc n) d va s = Some bs \<longleftrightarrow> ubyte s d va = Some c \<and> uload n d (va + 1) s = Some cs"
      by (auto simp: Cons ubyte_def split: option.splits)
    also have "\<dots> \<longleftrightarrow> length bs = Suc n \<and> (\<forall>i < Suc n. ubyte s d (va + of_nat i) = Some (bs ! i))"
      unfolding Suc.IH All_less_Suc2 by (auto simp: Cons algebra_simps)
    finally show ?thesis .
  qed (auto split: option.splits)
qed auto

lemma curproc_ok: "cpu_ok s \<Longrightarrow> cur_proc s = Some p \<Longrightarrow> curproc s = Ok p s"
  by (simp add: curproc_def myproc_ok)

lemma uread_eq:
  "cpu_ok s \<Longrightarrow> cur_proc s = Some p \<Longrightarrow> uread va n s =
     (case uload n (p_pgdir (procs s ! p)) va s of None \<Rightarrow> Panic ''trap'' | Some bs \<Rightarrow> Ok bs s)"
  by (simp add: uread_def curproc_ok)

lemma fetchint_same: "cpu_ok s \<Longrightarrow> cur_proc s = Some p \<Longrightarrow> fetchint a s = Ok r t \<Longrightarrow> t = s"
  by (auto simp: fetchint_def curproc_ok uread_eq Let_def bind_eq_Ok split: if_splits option.splits)

lemma argint_same: "cpu_ok s \<Longrightarrow> cur_proc s = Some p \<Longrightarrow> argint n s = Ok r t \<Longrightarrow> t = s"
  by (auto simp: argint_def curproc_ok dest: fetchint_same)

text \<open>\<open>str\<close> is the string at \<open>va\<close>, with its NUL.\<close>

definition ustring :: "kstate \<Rightarrow> u32 \<Rightarrow> u32 \<Rightarrow> u8 list \<Rightarrow> bool" where
  "ustring s d va str \<longleftrightarrow> (\<exists>w. str = w @ [0] \<and> 0 \<notin> set w)
     \<and> (\<forall>i < length str. ubyte s d (va + of_nat i) = Some (str ! i))"

lemma ustring_step:
  assumes "c \<noteq> 0" "ubyte s d va = Some c" "ustring s d (va + 1) str"
  shows "ustring s d va (c # str)"
proof -
  obtain w where w: "str = w @ [0]" "0 \<notin> set w" using assms(3) by (auto simp: ustring_def)
  have "ubyte s d (va + of_nat i) = Some ((c # str) ! i)" if "i < length (c # str)" for i
    using that assms(2,3) by (cases i) (auto simp: ustring_def algebra_simps)
  moreover have "c # str = (c # w) @ [0]" "0 \<notin> set (c # w)" using w assms(1) by auto
  ultimately show ?thesis unfolding ustring_def by blast
qed

lemma fetchstr_loop_ok:
  assumes "cpu_ok s" "cur_proc s = Some p" "fetchstr_loop n va out s = Ok r t"
  shows "t = s \<and> (case r of
      Some str \<Rightarrow> \<exists>w. str = out @ w \<and> length w \<le> n \<and> ustring s (p_pgdir (procs s ! p)) va w
    | None \<Rightarrow> \<forall>i < n. \<exists>c. ubyte s (p_pgdir (procs s ! p)) (va + of_nat i) = Some c \<and> c \<noteq> 0)"
  using assms(3)
proof (induction n arbitrary: va out)
  case (Suc n)
  let ?d = "p_pgdir (procs s ! p)"
  from Suc.prems obtain bs where bs: "uload 1 ?d va s = Some bs"
    and k: "(if hd bs = 0 then Ok (Some (out @ [0])) s else fetchstr_loop n (va + 1) (out @ bs) s) = Ok r t"
    using assms(1,2) by (auto simp: uread_eq bind_eq_Ok split: option.splits)
  then obtain c where c: "bs = [c]" "ubyte s ?d va = Some c" by (auto simp: uload_Some length_Suc_conv simp del: uload.simps)
  show ?case
  proof (cases "c = 0")
    case True
    then have "ustring s ?d va [0]" using c by (auto simp: ustring_def intro: exI [of _ "[]"])
    then show ?thesis using k True c(1) by auto
  next
    case False
    with k c(1) have l: "fetchstr_loop n (va + 1) (out @ [c]) s = Ok r t" by simp
    from Suc.IH [OF this] show ?thesis
    proof (cases r)
      case None
      have "\<exists>c. ubyte s ?d (va + of_nat i) = Some c \<and> c \<noteq> 0" if "i < Suc n" for i
        using that Suc.IH [OF l] None c(2) False by (cases i) (auto simp: algebra_simps)
      with Suc.IH [OF l] None show ?thesis by simp
    next
      case (Some str)
      with Suc.IH [OF l] obtain w where
        "str = out @ c # w" "length w \<le> n" "ustring s ?d (va + 1) w" "t = s" by auto
      with ustring_step [OF False c(2)] Some show ?thesis by (auto intro!: exI [of _ "c # w"])
    qed
  qed
qed auto

lemma fetchstr_ok:
  assumes "cpu_ok s" "cur_proc s = Some p" "fetchstr a s = Ok r t"
  defines "sz \<equiv> p_sz (procs s ! p)" and "d \<equiv> p_pgdir (procs s ! p)"
  shows "t = s \<and> (case r of
      Some str \<Rightarrow> unat a + length str \<le> unat sz \<and> ustring s d a str
    | None \<Rightarrow> sz \<le> a \<or> (\<forall>i. unat a + i < unat sz \<longrightarrow> ubyte s d (a + of_nat i) \<noteq> Some 0))"
proof (cases "sz \<le> a")
  case True
  then show ?thesis using assms(1-3) by (auto simp: fetchstr_def curproc_ok sz_def)
next
  case False
  then have n: "unat (sz - a) = unat sz - unat a" "unat a \<le> unat sz"
    by (auto simp: unat_sub word_le_nat_alt)
  from False assms(1-3) have "fetchstr_loop (unat sz - unat a) a [] s = Ok r t"
    by (auto simp: fetchstr_def curproc_ok sz_def [symmetric] n(1) [symmetric])
  note l = fetchstr_loop_ok [OF assms(1,2) this, folded d_def]
  show ?thesis
  proof (cases r)
    case None
    then have "ubyte s d (a + of_nat i) \<noteq> Some 0" if "unat a + i < unat sz" for i
      using l that by (auto dest: spec [of _ i])
    with l None show ?thesis by simp
  next
    case (Some str)
    with l n(2) show ?thesis by auto
  qed
qed

lemma sint_nonneg_iff: "0 \<le> sint x \<longleftrightarrow> unat x < 2 ^ 31" for x :: u32
proof -
  have "unat x div 2 ^ 31 = (if unat x < 2 ^ 31 then 0 else 1)"
    using unat32 [of x] by (auto intro!: div_nat_eqI)
  then have "odd (unat x div 2 ^ 31) \<longleftrightarrow> \<not> unat x < 2 ^ 31" by simp
  moreover have "(sint x < 0) = bit (unat x) 31"
    using bit_last_iff [of x] by (simp add: bit_unsigned_iff possible_bit_def)
  ultimately show ?thesis by (auto simp: bit_iff_odd)
qed

lemma inside_iff:
  fixes a len sz :: u32
  assumes "unat sz \<le> 2 ^ 31"
  shows "(sint len < 0 \<or> sz \<le> a \<or> sz < a + len)
     = (\<not> (0 \<le> sint len \<and> unat a < unat sz \<and> unat a + unat len \<le> unat sz))"
proof (cases "0 \<le> sint len \<and> unat a < unat sz")
  case True
  then have "unat len < 2 ^ 31" by (simp add: sint_nonneg_iff)
  then have "unat (a + len) = unat a + unat len"
    using True assms by (subst unat_add_lem [THEN iffD1]) simp_all
  then show ?thesis using True by (auto simp: word_le_nat_alt word_less_nat_alt)
qed (auto simp: word_le_nat_alt)

lemma argptr_eq:
  assumes "cpu_ok s" "cur_proc s = Some p" "unat (p_sz (procs s ! p)) \<le> 2 ^ 31" "argint n s = Ok (Some a) s"
  shows "argptr n len s = Ok (if 0 \<le> sint len \<and> unat a < unat (p_sz (procs s ! p))
      \<and> unat a + unat len \<le> unat (p_sz (procs s ! p)) then Some a else None) s"
  using assms by (simp add: argptr_def curproc_ok inside_iff)

lemma argstr_ok:
  assumes "cpu_ok s" "cur_proc s = Some p" "argstr n s = Ok (Some str) t"
  shows "t = s \<and> (\<exists>a. argint n s = Ok (Some a) s \<and> unat a + length str \<le> unat (p_sz (procs s ! p))
      \<and> ustring s (p_pgdir (procs s ! p)) a str)"
proof -
  from assms(3) obtain a u where "argint n s = Ok (Some a) u" "fetchstr a u = Ok (Some str) t"
    by (auto simp: argstr_def bind_eq_Ok split: option.splits)
  with argint_same [OF assms(1,2)] fetchstr_ok [OF assms(1,2)] show ?thesis by fastforce
qed

text \<open>A process with one page of memory; \<open>bs\<close> is what its stack holds above the return address.\<close>

definition user_demo :: "u8 list \<Rightarrow> kstate" where
  "user_demo bs = (kstate0 [0] (\<lambda>_. []))
     \<lparr>cpus := [(cpu0 0)\<lparr>cpu_proc := Some 0\<rparr>],
      procs := proc0\<lparr>p_state := RUNNING, p_pid := 1, p_sz := 0x1000, p_pgdir := 0x80201000,
                      tf_of := trapframe0\<lparr>tf_esp := 0x100\<rparr>\<rparr> # replicate 63 proc0,
      mem := (\<lambda>a. if 0x80203104 \<le> a \<and> unat (a - 0x80203104) < length bs
                        then bs ! unat (a - 0x80203104)
                   else if a = 0x80201000 then 7 else if a = 0x80201001 then 0x20 else if a = 0x80201002 then 0x20
                   else if a = 0x80202000 then 7 else if a = 0x80202001 then 0x30 else if a = 0x80202002 then 0x20
                   else 0)\<rparr>"

lemma user_demo_ok [simp]:
  "quiet (user_demo bs)" "cpu_ok (user_demo bs)" "cur_proc (user_demo bs) = Some 0"
  "p_sz (procs (user_demo bs) ! 0) = 0x1000" "p_pgdir (procs (user_demo bs) ! 0) = 0x80201000"
  "tf_esp (tf_of (procs (user_demo bs) ! 0)) = 0x100"
  by (simp_all add: user_demo_def kstate0_def quiet_def cpu_ok_def this_cpu_def scan_def lock_free_def
        spinlock0_def cpu0_def cur_proc_def)

text \<open>
  C14. What the argument functions accept lies inside the process: for a process of at most 2 GB, a
  pointer argument is accepted exactly when the whole block of the given length, which must not be
  negative, lies below the size of the process (additions on addresses do not wrap around
  unnoticed); an accepted string argument is the NUL-terminated string at the address the user
  passed, and its terminator, too, lies below the size of the process. None of the functions
  changes the state.
\<close>

theorem arguments_inside:
  assumes "cpu_ok s" "cur_proc s = Some p" "unat (p_sz (procs s ! p)) \<le> 2 ^ 31"
  shows "(\<forall>a len. argint n s = Ok (Some a) s \<longrightarrow>
       argptr n len s = Ok (if 0 \<le> sint len \<and> unat a < unat (p_sz (procs s ! p))
         \<and> unat a + unat len \<le> unat (p_sz (procs s ! p)) then Some a else None) s)
     \<and> (\<forall>str t. argstr n s = Ok (Some str) t \<longrightarrow>
       t = s \<and> (\<exists>a. argint n s = Ok (Some a) s \<and> unat a + length str \<le> unat (p_sz (procs s ! p))
         \<and> ustring s (p_pgdir (procs s ! p)) a str))
     \<and> (\<forall>r t. argint n s = Ok r t \<longrightarrow> t = s)"
  using argptr_eq [OF assms] argstr_ok [OF assms(1,2)] argint_same [OF assms(1,2)] by blast

lemma user_demo_read:
  assumes "va < 0x1000"
  shows "ka_read (user_demo bs) 0x80201000 va = Some (0x80203000 + va)"
proof -
  have lt: "unat va < 4096" using assms by (simp add: word_less_nat_alt)
  then have "PDX va = 0" "PTX va = 0" by (simp_all add: unat_eq_0 [symmetric] unat_PDX unat_PTX del: unat_eq_0)
  then have "translate (mem (user_demo bs)) 0x80201000 va = Some 0x203007"
    by (simp add: translate_def present_def pde_at_def ptab_def read32_def)
       (simp add: user_demo_def get32_def P2V_def PTE_ADDR_def)
  moreover have "va - PGROUNDDOWN va = va"
    using lt by (simp add: word_unat_eq_iff unat_page_offset)
  ultimately show ?thesis by (simp add: ka_read_def P2V_def PTE_ADDR_def)
qed

lemma user_demo_byte:
  assumes "0x104 \<le> va" "va < 0x1000" "unat va < 0x104 + length bs"
  shows "ubyte (user_demo bs) 0x80201000 va = Some (bs ! (unat va - 0x104))"
proof -
  have "unat va < 4096" "260 \<le> unat va" using assms(1,2) by (simp_all add: word_less_nat_alt word_le_nat_alt)
  then have e: "unat (0x80203000 + va) = 0x80203000 + unat va"
    by (subst unat_add_lem [THEN iffD1]) simp_all
  then have le: "0x80203104 \<le> 0x80203000 + va" using \<open>260 \<le> unat va\<close> by (simp add: word_le_nat_alt e)
  have "unat (0x80203000 + va - 0x80203104) = unat va - 0x104"
    unfolding unat_sub [OF le] e by simp
  with le show ?thesis
    using assms(3) \<open>260 \<le> unat va\<close>
    by (auto simp: ubyte_def user_demo_read [OF assms(2)]) (auto simp: user_demo_def)
qed

lemma user_demo_args:
  "argint 0 (user_demo [0x0c, 1, 0, 0, 2, 0, 0, 0, 104, 105, 0])
     = Ok (Some 0x10c) (user_demo [0x0c, 1, 0, 0, 2, 0, 0, 0, 104, 105, 0])"
  "argstr 0 (user_demo [0x0c, 1, 0, 0, 2, 0, 0, 0, 104, 105, 0])
     = Ok (Some [104, 105, 0]) (user_demo [0x0c, 1, 0, 0, 2, 0, 0, 0, 104, 105, 0])"
proof -
  let ?s = "user_demo [0x0c, 1, 0, 0, 2, 0, 0, 0, 104, 105, 0]"
  have u: "uread a n ?s = Ok bs ?s" if "uload n 0x80201000 a ?s = Some bs" for a n bs
    using that by (simp add: uread_eq [of _ 0])
  have b: "ubyte ?s 0x80201000 0x104 = Some 0x0c" "ubyte ?s 0x80201000 0x105 = Some 1"
    "ubyte ?s 0x80201000 0x106 = Some 0" "ubyte ?s 0x80201000 0x107 = Some 0"
    by (simp_all add: user_demo_byte)
  then have "uload 4 0x80201000 0x104 ?s = Some [0x0c, 1, 0, 0]"
    by (auto simp: uload_Some less_Suc_eq numeral_eq_Suc simp del: uload.simps)
  then show i: "argint 0 ?s = Ok (Some 0x10c) ?s"
    by (simp add: argint_def fetchint_def curproc_ok [of _ 0] u get32_def)
  have "uload 1 0x80201000 0x10c ?s = Some [104]" "uload 1 0x80201000 0x10d ?s = Some [105]"
    "uload 1 0x80201000 0x10e ?s = Some [0]"
    by (auto simp: uload_Some user_demo_byte simp del: uload.simps)
  note r = this [THEN u]
  have "fetchstr_loop (Suc (Suc (Suc n))) 0x10c [] ?s = Ok (Some [104, 105, 0]) ?s" for n
    by (simp add: r [unfolded One_nat_def])
  from this [of 3825] show "argstr 0 ?s = Ok (Some [104, 105, 0]) ?s"
    by (simp add: argstr_def i fetchstr_def curproc_ok [of _ 0])
qed

theorem arguments_inside_witness:
  "\<exists>s. argptr 0 0x100 s = Ok (Some 0x10c) s \<and> argptr 0 0x1000 s = Ok None s
     \<and> ustring s (p_pgdir (procs s ! 0)) 0x10c [104, 105, 0]"
  using arguments_inside [of "user_demo [0x0c, 1, 0, 0, 2, 0, 0, 0, 104, 105, 0]" 0 0] user_demo_args
  by (intro exI [of _ "user_demo [0x0c, 1, 0, 0, 2, 0, 0, 0, 104, 105, 0]"]) simp

end
