(* ===== verification/Sysproc.thy ===== *)
theory Sysproc
  imports Sysarg
begin

text \<open>
  The system calls on processes (\<open>sysproc.c\<close>). A call's result is the value of \<open>%eax\<close>, so that -1
  is the word \<open>0xFFFFFFFF\<close>.
\<close>

section \<open>Processes\<close>

definition sys_fork :: "kstate \<Rightarrow> (kstate, u32) res" where
  "sys_fork s = fork s"

definition sys_exit :: "kstate \<Rightarrow> (kstate, u32) res" where
  "sys_exit s = bind (exit s) (\<lambda>_ s. Ok 0 s)"

definition sys_wait :: "kstate \<Rightarrow> (kstate, u32) res" where
  "sys_wait s = wait s"

definition sys_kill :: "kstate \<Rightarrow> (kstate, u32) res" where
  "sys_kill s = or_fail (argint 0 s) (\<lambda>pid s. bind (kill pid s) (\<lambda>r s. Ok (of_int r) s))"

definition sys_getpid :: "kstate \<Rightarrow> (kstate, u32) res" where
  "sys_getpid s = bind (curproc s) (\<lambda>p s. Ok (p_pid (procs s ! p)) s)"

definition sys_sbrk :: "kstate \<Rightarrow> (kstate, u32) res" where
  "sys_sbrk s =
     or_fail (argint 0 s) (\<lambda>n s.
       bind (curproc s) (\<lambda>p s.
         let addr = p_sz (procs s ! p) in
       bind (growproc n s) (\<lambda>r s. if r < 0 then Ok (- 1) s else Ok addr s)))"

text \<open>
  The loop of \<open>sys_sleep\<close> with the lock on the clock held; \<open>ticks - ticks0 < n\<close> compares unsigned.
\<close>

definition sys_sleep_test :: "u32 \<Rightarrow> u32 \<Rightarrow> kstate \<Rightarrow> (kstate, u32) res" where
  "sys_sleep_test ticks0 n s =
     (if ticks s - ticks0 < n then
        bind (curproc s) (\<lambda>p s.
          if p_killed (procs s ! p) then bind (release TicksLock s) (\<lambda>_ s. Ok (- 1) s)
          else bind (sleep ChTicks (Some TicksLock) s) (\<lambda>_ s. Undef))
      else bind (release TicksLock s) (\<lambda>_ s. Ok 0 s))"

definition sys_sleep :: "kstate \<Rightarrow> (kstate, u32) res" where
  "sys_sleep s =
     or_fail (argint 0 s) (\<lambda>n s.
       bind (acquire TicksLock s) (\<lambda>_ s. sys_sleep_test (ticks s) n s))"

definition sys_sleep_resume :: "u32 \<Rightarrow> u32 \<Rightarrow> bool \<Rightarrow> nat \<Rightarrow> u32 \<Rightarrow> kstate \<Rightarrow> (kstate, u32) res" where
  "sys_sleep_resume ticks0 n ie p start_ticks s =
     bind (sleep_resume ie p start_ticks TicksLock s) (\<lambda>_ s. sys_sleep_test ticks0 n s)"

definition sys_uptime :: "kstate \<Rightarrow> (kstate, u32) res" where
  "sys_uptime s =
     bind (acquire TicksLock s) (\<lambda>_ s.
       let xticks = ticks s in
     bind (release TicksLock s) (\<lambda>_ s. Ok xticks s))"

section \<open>Digit roots\<close>

text \<open>
  The loop of \<open>sys_find_digit_root\<close> on the two variables \<open>num\<close> and \<open>root\<close>. It is not entered for a
  number that is not positive; afterwards both variables are natural numbers, and \<open>root\<close> is a sum of
  at most ten digits.
\<close>

function digit_root_loop :: "nat \<Rightarrow> nat \<Rightarrow> nat" where
  "digit_root_loop num root =
     (if 0 < num \<or> 9 < root then
        case (if num = 0 then (root, 0) else (num, root)) of
          (num, root) \<Rightarrow> digit_root_loop (num div 10) (root + num mod 10)
      else root)"
  by pat_completeness auto
termination
proof (relation "measures [\<lambda>(num, root). num + root, fst]", goal_cases)
  case (2 num root x y)
  show ?case
  proof (cases "num = 0")
    case True
    then have x: "x = root" "y = 0" "0 < root div 10" using 2 by auto
    have "x div 10 + (y + x mod 10) < root" unfolding x(1,2) using x(3) div_mult_mod_eq [of root 10] by linarith
    then show ?thesis using True by simp
  next
    case False
    then have "x = num" "y = root" using 2 by auto
    then have "x div 10 + (y + x mod 10) \<le> num + root \<and> (x div 10 < num)"
      using div_mult_mod_eq [of num 10] False by (auto simp: div_less_dividend)
    then show ?thesis by auto
  qed
qed simp

declare digit_root_loop.simps [simp del]

definition sys_find_digit_root :: "kstate \<Rightarrow> (kstate, u32) res" where
  "sys_find_digit_root s =
     or_fail (argint 0 s) (\<lambda>num s.
       Ok (if sint num \<le> 0 then 0 else of_nat (digit_root_loop (unat num) 0)) s)"

section \<open>Questions about processes\<close>

definition sys_get_uncle_count :: "kstate \<Rightarrow> (kstate, u32) res" where
  "sys_get_uncle_count s = or_fail (argint 0 s) (\<lambda>pid s. bind (get_uncle_count pid s) (\<lambda>r s. Ok (of_int r) s))"

definition sys_get_process_lifetime :: "kstate \<Rightarrow> (kstate, u32) res" where
  "sys_get_process_lifetime s =
     or_fail (argint 0 s) (\<lambda>pid s.
       bind (acquire PtableLock s) (\<lambda>_ s.
         case scan (\<lambda>p. p_state p \<noteq> UNUSED \<and> p_pid p = pid) (procs s) of
           Some p \<Rightarrow>
             bind (acquire TicksLock s) (\<lambda>_ s.
               let lifetime = ticks s - p_createtime (procs s ! p) in
             bind (release TicksLock s) (\<lambda>_ s.
             bind (release PtableLock s) (\<lambda>_ s. Ok lifetime s)))
         | None \<Rightarrow> bind (release PtableLock s) (\<lambda>_ s. Ok (- 1) s)))"

definition sys_getnumsyscalls :: "kstate \<Rightarrow> (kstate, u32) res" where
  "sys_getnumsyscalls s = bind (curproc s) (\<lambda>p s. Ok (p_syscall_count (procs s ! p)) s)"

definition sys_getnumsyscallsgood :: "kstate \<Rightarrow> (kstate, u32) res" where
  "sys_getnumsyscallsgood s = bind (curproc s) (\<lambda>p s. Ok (p_good_syscall_count (procs s ! p)) s)"

definition sys_waitx_store :: "u32 \<Rightarrow> u32 \<Rightarrow> u32 \<times> (u32 \<times> u32) option \<Rightarrow> kstate \<Rightarrow> (kstate, u32) res" where
  "sys_waitx_store wtime rtime r s =
     (case r of
        (pid, None) \<Rightarrow> Ok pid s
      | (pid, Some (w, t)) \<Rightarrow>
          bind (uwrite wtime (put32 w) s) (\<lambda>_ s. bind (uwrite rtime (put32 t) s) (\<lambda>_ s. Ok pid s)))"

definition sys_waitx :: "kstate \<Rightarrow> (kstate, u32) res" where
  "sys_waitx s =
     or_fail (argptr 0 4 s) (\<lambda>wtime s.
     or_fail (argptr 1 4 s) (\<lambda>rtime s.
       bind (waitx s) (\<lambda>r s. sys_waitx_store wtime rtime r s)))"

primrec ps_state :: "procstate \<Rightarrow> string" where
  "ps_state UNUSED = ''UNUSED  ''"
| "ps_state EMBRYO = ''EMBRYO  ''"
| "ps_state SLEEPING = ''SLEEPING''"
| "ps_state RUNNABLE = ''RUNNABLE''"
| "ps_state RUNNING = ''RUNNING ''"
| "ps_state ZOMBIE = ''ZOMBIE  ''"

primrec ps_loop :: "nat list \<Rightarrow> kstate \<Rightarrow> (kstate, unit) res" where
  "ps_loop [] s = Ok () s"
| "ps_loop (i # is) s =
     (let p = procs s ! i in
      if p_state p = UNUSED then ps_loop is s
      else
        bind (cprintf (Some (bytes ''%d'' @ [9] @ bytes ''%s'' @ [9] @ bytes ''%d'' @ [9, 9] @ bytes ''%d'' @ [9] @ bytes ''%d''
                 @ [9] @ bytes ''%s'' @ [10, 0]))
               [AInt (p_pid p), AStr (Some (lit (ps_state (p_state p)))), AInt (p_priority p), AInt (p_runtime p),
                AInt (p_estimated_burst p), AStr (Some (p_name p))] s) (\<lambda>_ s. ps_loop is s))"

definition sys_ps :: "kstate \<Rightarrow> (kstate, u32) res" where
  "sys_ps s =
     bind (cprintf (Some (bytes ''PID'' @ [9] @ bytes ''STATE'' @ [9, 9] @ bytes ''PRIORITY'' @ [9] @ bytes ''RUNTIME''
             @ [9] @ bytes ''BURST'' @ [9] @ bytes ''NAME'' @ [10, 0])) [] s) (\<lambda>_ s.
     bind (cprintf (Some (replicate 50 45 @ [10, 0])) [] s) (\<lambda>_ s.
     bind (acquire PtableLock s) (\<lambda>_ s.
     bind (ps_loop [0..<NPROC] s) (\<lambda>_ s.
     bind (release PtableLock s) (\<lambda>_ s. Ok 0 s)))))"

section \<open>Scheduling\<close>

definition sys_set_priority :: "kstate \<Rightarrow> (kstate, u32) res" where
  "sys_set_priority s =
     or_fail (argint 0 s) (\<lambda>new_priority s.
       bind (curproc s) (\<lambda>p s. Ok 0 (upd_proc p (\<lambda>q. q\<lparr>p_priority := new_priority\<rparr>) s)))"

definition sys_setschedpolicy :: "kstate \<Rightarrow> (kstate, u32) res" where
  "sys_setschedpolicy s =
     or_fail (argint 0 s) (\<lambda>policy s.
       if sint policy < sint SCHED_FCFS \<or> sint SCHED_RR < sint policy then Ok (- 1) s
       else
         bind (acquire PtableLock s) (\<lambda>_ s.
           let s = s\<lparr>current_scheduler := policy\<rparr> in
         bind (release PtableLock s) (\<lambda>_ s.
         bind (cprintf (Some (bytes ''Scheduler policy changed to %d'' @ [10, 0])) [AInt policy] s) (\<lambda>_ s. Ok 0 s))))"

definition sys_set_burst_estimate :: "kstate \<Rightarrow> (kstate, u32) res" where
  "sys_set_burst_estimate s =
     or_fail (argint 0 s) (\<lambda>burst s.
       if sint burst < 0 then Ok (- 1) s
       else bind (curproc s) (\<lambda>p s. Ok 0 (upd_proc p (\<lambda>q. q\<lparr>p_estimated_burst := burst\<rparr>) s)))"

definition sys_yield :: "kstate \<Rightarrow> (kstate, u32) res" where
  "sys_yield s = bind (yield s) (\<lambda>_ s. Ok 0 s)"

section \<open>The round-robin test\<close>

text \<open>
  The forks of \<open>sys_test_rr\<close>; \<open>False\<close> stands for the return of -1 when one fails. In a process that
  finds 0 in \<open>pid\<close> the first thing the busy loop does is to yield.
\<close>

primrec test_rr_forks :: "nat \<Rightarrow> kstate \<Rightarrow> (kstate, bool) res" where
  "test_rr_forks 0 s = Ok True s"
| "test_rr_forks (Suc n) s =
     bind (fork s) (\<lambda>pid s.
       if sint pid < 0
       then bind (cprintf (Some (bytes ''Fork failed in test_rr system call'' @ [10, 0])) [] s) (\<lambda>_ s. Ok False s)
       else if pid = 0 then bind (yield s) (\<lambda>_ s. Undef)
       else test_rr_forks n s)"

primrec test_rr_waits :: "nat \<Rightarrow> kstate \<Rightarrow> (kstate, unit) res" where
  "test_rr_waits 0 s = Ok () s"
| "test_rr_waits (Suc n) s = bind (wait s) (\<lambda>_ s. test_rr_waits n s)"

definition test_rr_end :: "u32 \<Rightarrow> kstate \<Rightarrow> (kstate, u32) res" where
  "test_rr_end start_time s =
     bind (acquire TicksLock s) (\<lambda>_ s.
       let elapsed = ticks s - start_time in
     bind (release TicksLock s) (\<lambda>_ s.
     bind (cprintf (Some ([10] @ bytes ''=== TEST COMPLETE ==='' @ [10, 0])) [] s) (\<lambda>_ s.
     bind (cprintf (Some (bytes ''All processes completed in %d timer ticks'' @ [10, 0])) [AInt elapsed] s) (\<lambda>_ s.
     bind (cprintf (Some (bytes ''If you observed interleaved outputs from different processes,'' @ [10, 0])) [] s) (\<lambda>_ s.
     bind (cprintf (Some (bytes ''then Round Robin scheduling is working correctly.'' @ [10, 0])) [] s) (\<lambda>_ s. Ok 0 s))))))"

definition sys_test_rr :: "kstate \<Rightarrow> (kstate, u32) res" where
  "sys_test_rr s =
     bind (argint 0 s) (\<lambda>r s.
       let n = (case r of None \<Rightarrow> 3 | Some n \<Rightarrow> sint n);
           n = nat (min 8 (max 1 n))
       in
     bind (cprintf (Some ([10] @ bytes ''=== ROUND ROBIN SCHEDULING TEST ==='' @ [10, 0])) [] s) (\<lambda>_ s.
     bind (cprintf (Some (bytes ''Creating %d CPU-intensive processes'' @ [10, 0])) [AInt (of_nat n)] s) (\<lambda>_ s.
     bind (cprintf (Some (bytes ''Each process will report its progress periodically'' @ [10, 0])) [] s) (\<lambda>_ s.
     bind (cprintf (Some (bytes ''You should observe interleaved execution if RR is working'' @ [10, 10, 0])) [] s) (\<lambda>_ s.
     bind (acquire TicksLock s) (\<lambda>_ s.
       let start_time = ticks s in
     bind (release TicksLock s) (\<lambda>_ s.
     bind (test_rr_forks n s) (\<lambda>ok s.
       if \<not> ok then Ok (- 1) s
       else bind (test_rr_waits n s) (\<lambda>_ s. test_rr_end start_time s)))))))))"

text \<open>When \<open>wait\<close> has slept, with \<open>k\<close> further calls of it to come.\<close>

definition sys_test_rr_resume :: "u32 \<Rightarrow> nat \<Rightarrow> bool \<Rightarrow> nat \<Rightarrow> u32 \<Rightarrow> kstate \<Rightarrow> (kstate, u32) res" where
  "sys_test_rr_resume start_time k ie cp start_ticks s =
     bind (wait_resume ie cp start_ticks s) (\<lambda>_ s.
     bind (test_rr_waits k s) (\<lambda>_ s. test_rr_end start_time s))"

section \<open>Digit roots\<close>

text \<open>The sum of the decimal digits, and what is left when it is taken until one digit remains.\<close>

fun digit_sum :: "nat \<Rightarrow> nat" where
  "digit_sum n = (if n = 0 then 0 else n mod 10 + digit_sum (n div 10))"

declare digit_sum.simps [simp del]

lemma digit_sum_0 [simp]: "digit_sum 0 = 0"
  by (simp add: digit_sum.simps)

lemma digit_sum_rec: "digit_sum n = n mod 10 + digit_sum (n div 10)"
  by (cases "n = 0") (simp_all add: digit_sum.simps [of n])

lemma digit_sum_digit: "n < 10 \<Longrightarrow> digit_sum n = n"
  by (simp add: digit_sum_rec [of n])

lemma digit_sum_le: "digit_sum n \<le> n"
proof (induction n rule: digit_sum.induct)
  case (1 n)
  then have "digit_sum (n div 10) \<le> n div 10" by (cases "n = 0") auto
  then show ?case using div_mult_mod_eq [of n 10] by (simp add: digit_sum_rec [of n])
qed

lemma digit_sum_less: "10 \<le> n \<Longrightarrow> digit_sum n < n"
  unfolding digit_sum_rec [of n]
  using digit_sum_le [of "n div 10"] div_mult_mod_eq [of n 10] div_greater_zero_iff [of n 10] by linarith

lemma digit_sum_pos: "0 < n \<Longrightarrow> 0 < digit_sum n"
proof (induction n rule: digit_sum.induct)
  case (1 n)
  then show ?case by (cases "n < 10") (auto simp: digit_sum_digit digit_sum_rec [of n])
qed

lemma digit_sum_mod: "digit_sum n mod 9 = n mod 9"
proof (induction n rule: digit_sum.induct)
  case (1 n)
  have "digit_sum (n div 10) mod 9 = n div 10 mod 9" using 1 by (cases "n = 0") auto
  then have "digit_sum n mod 9 = (n mod 10 + n div 10) mod 9"
    unfolding digit_sum_rec [of n] by (metis mod_add_right_eq)
  also have "\<dots> = (n mod 10 + n div 10 + 9 * (n div 10)) mod 9"
    by (rule mod_mult_self2 [symmetric])
  also have "n mod 10 + n div 10 + 9 * (n div 10) = n" using div_mult_mod_eq [of n 10] by linarith
  finally show ?case .
qed

function digit_root :: "nat \<Rightarrow> nat" where
  "digit_root n = (if n < 10 then n else digit_root (digit_sum n))"
  by pat_completeness auto
termination by (relation "measure id") (auto simp: digit_sum_less)

declare digit_root.simps [simp del]

lemma digit_root_sum: "digit_root (digit_sum n) = digit_root n"
  by (cases "n < 10") (simp_all add: digit_sum_digit digit_root.simps [of n])

lemma digit_root_mod: "0 < n \<Longrightarrow> digit_root n = 1 + (n - 1) mod 9"
proof (induction n rule: digit_root.induct)
  case (1 n)
  show ?case
  proof (cases "n < 10")
    case True
    then show ?thesis using 1(2) by (simp add: digit_root.simps [of n])
  next
    case False
    have "(digit_sum n - 1) mod 9 = (n - 1) mod 9"
      using digit_sum_mod [of n] digit_sum_pos [OF 1(2)] 1(2)
      by (cases n; cases "digit_sum n") (auto simp: mod_Suc split: if_splits)
    then show ?thesis using 1(1) [OF False digit_sum_pos [OF 1(2)]] False by (simp add: digit_root.simps [of n])
  qed
qed

lemma digit_root_loop_eq: "digit_root_loop num root = digit_root (digit_sum num + root)"
proof (induction num root rule: digit_root_loop.induct)
  case (1 num root)
  show ?case
  proof (cases "0 < num \<or> 9 < root")
    case True
    then have "digit_root_loop num root = digit_root (digit_sum (if num = 0 then root else num) + (if num = 0 then 0 else root))"
      using "1.IH" [OF True] digit_sum_rec [of root] digit_sum_rec [of num]
      by (subst digit_root_loop.simps) (auto simp: ac_simps)
    then show ?thesis by (simp add: digit_root_sum split: if_splits)
  next
    case False
    then show ?thesis by (subst digit_root_loop.simps, subst digit_root.simps) simp
  qed
qed

text \<open>
  C15. The loop of the system call \<open>find_digit_root\<close> ends for every argument, and for a positive
  one the call returns its digit root: the one digit that is left when the sum of the decimal
  digits is taken again and again, which is 1 + (n - 1) mod 9. For other arguments it returns 0.
\<close>

theorem find_digit_root_returns:
  assumes "argint 0 s = Ok (Some v) s"
  shows "sys_find_digit_root s = Ok (if 0 < sint v then of_nat (digit_root (unat v)) else 0) s
     \<and> (0 < sint v \<longrightarrow> digit_root (unat v) = 1 + (unat v - 1) mod 9)"
proof -
  have "0 < unat v" if "0 < sint v" using that by (cases "v = 0") (auto simp: unat_gt_0)
  then show ?thesis
    using assms by (simp add: sys_find_digit_root_def or_fail_def digit_root_loop_eq digit_root_sum digit_root_mod)
qed

theorem find_digit_root_returns_witness:
  "\<exists>s. sys_find_digit_root s = Ok 7 s"
proof -
  let ?s = "user_demo [0x0c, 1, 0, 0, 2, 0, 0, 0, 104, 105, 0]"
  have "digit_root (unat (0x10c :: u32)) = 7" by (simp add: digit_root_mod)
  with find_digit_root_returns [OF user_demo_args(1)] show ?thesis by (intro exI [of _ ?s]) simp
qed

end
