(* ===== verification/Sysfile.thy ===== *)
theory Sysfile
  imports Sysarg
begin

text \<open>
  The system calls on files (\<open>sysfile.c\<close>). A call that reads delivers the bytes to the user's
  buffer when the read is complete; a call that writes takes them from there first.
\<close>

section \<open>Descriptors\<close>

text \<open>The descriptor and its file, or -1.\<close>

definition argfd :: "nat \<Rightarrow> kstate \<Rightarrow> (kstate, (nat \<times> nat) option) res" where
  "argfd n s =
     bind (argint n s) (\<lambda>r s.
       case r of None \<Rightarrow> Ok None s
       | Some fd \<Rightarrow>
           bind (curproc s) (\<lambda>p s.
             if sint fd < 0 \<or> int NOFILE \<le> sint fd then Ok None s
             else case p_ofile (procs s ! p) ! unat fd of
               None \<Rightarrow> Ok None s
             | Some f \<Rightarrow> Ok (Some (unat fd, f)) s))"

definition fdalloc :: "nat \<Rightarrow> kstate \<Rightarrow> (kstate, nat option) res" where
  "fdalloc f s =
     bind (curproc s) (\<lambda>p s.
       case scan (\<lambda>x. x = None) (p_ofile (procs s ! p)) of
         None \<Rightarrow> Ok None s
       | Some fd \<Rightarrow> Ok (Some fd) (upd_proc p (\<lambda>q. q\<lparr>p_ofile := (p_ofile q)[fd := Some f]\<rparr>) s))"

definition sys_dup :: "kstate \<Rightarrow> (kstate, u32) res" where
  "sys_dup s =
     or_fail (argfd 0 s) (\<lambda>r s.
     or_fail (fdalloc (snd r) s) (\<lambda>fd s.
       bind (filedup (snd r) s) (\<lambda>_ s. Ok (of_nat fd) s)))"

definition sys_read :: "kstate \<Rightarrow> (kstate, u32) res" where
  "sys_read s =
     or_fail (argfd 0 s) (\<lambda>r s.
     or_fail (argint 2 s) (\<lambda>n s.
     or_fail (argptr 1 n s) (\<lambda>p s.
       bind (fileread (snd r) (sint n) s) (\<lambda>r s.
       bind (uwrite p (snd r) s) (\<lambda>_ s. Ok (of_int (fst r)) s)))))"

definition sys_write :: "kstate \<Rightarrow> (kstate, u32) res" where
  "sys_write s =
     or_fail (argfd 0 s) (\<lambda>r s.
     or_fail (argint 2 s) (\<lambda>n s.
     or_fail (argptr 1 n s) (\<lambda>p s.
       bind (uread p (unat n) s) (\<lambda>bs s.
       bind (filewrite (snd r) bs (sint n) s) (\<lambda>r s. Ok (of_int r) s)))))"

definition sys_close :: "kstate \<Rightarrow> (kstate, u32) res" where
  "sys_close s =
     or_fail (argfd 0 s) (\<lambda>r s.
       bind (curproc s) (\<lambda>p s.
         let s = upd_proc p (\<lambda>q. q\<lparr>p_ofile := (p_ofile q)[fst r := None]\<rparr>) s in
       bind (fileclose (snd r) s) (\<lambda>_ s. Ok 0 s)))"

text \<open>\<open>struct stat\<close> in memory: 20 bytes, with the padding C puts behind the two \<open>short\<close>s.\<close>

definition put_stat :: "u8 list \<Rightarrow> stat \<Rightarrow> u8 list" where
  "put_stat old st = put16 (st_type st) @ chunk old 2 2 @ put32 (st_dev st) @ put32 (st_ino st)
     @ put16 (st_nlink st) @ chunk old 14 2 @ put32 (st_size st)"

definition sys_fstat :: "kstate \<Rightarrow> (kstate, u32) res" where
  "sys_fstat s =
     or_fail (argfd 0 s) (\<lambda>r s.
     or_fail (argptr 1 20 s) (\<lambda>p s.
       bind (filestat (snd r) s) (\<lambda>r s.
         case snd r of
           None \<Rightarrow> Ok (of_int (fst r)) s
         | Some st \<Rightarrow>
             bind (uread p 20 s) (\<lambda>old s.
             bind (uwrite p (put_stat old st) s) (\<lambda>_ s. Ok (of_int (fst r)) s)))))"

section \<open>Links\<close>

definition op_fail :: "kstate \<Rightarrow> (kstate, u32) res" where
  "op_fail s = bind (end_op s) (\<lambda>_ s. Ok (- 1) s)"

text \<open>The label \<open>bad\<close> of \<open>sys_link\<close>.\<close>

definition link_bad :: "nat \<Rightarrow> kstate \<Rightarrow> (kstate, u32) res" where
  "link_bad ip s =
     bind (ilock (Some ip) s) (\<lambda>_ s.
       let s = upd_inode ip (\<lambda>p. p\<lparr>ip_nlink := ip_nlink p - 1\<rparr>) s in
     bind (iupdate ip s) (\<lambda>_ s.
     bind (iunlockput ip s) (\<lambda>_ s. op_fail s)))"

definition sys_link :: "kstate \<Rightarrow> (kstate, u32) res" where
  "sys_link s =
     or_fail (argstr 0 s) (\<lambda>old s.
     or_fail (argstr 1 s) (\<lambda>new s.
       bind (begin_op s) (\<lambda>_ s.
       bind (namei old s) (\<lambda>ipo s.
         case ipo of None \<Rightarrow> op_fail s
         | Some ip \<Rightarrow>
             bind (ilock (Some ip) s) (\<lambda>_ s.
               if ip_type (inodes s ! ip) = T_DIR then bind (iunlockput ip s) (\<lambda>_ s. op_fail s)
               else
                 let s = upd_inode ip (\<lambda>p. p\<lparr>ip_nlink := ip_nlink p + 1\<rparr>) s in
                 bind (iupdate ip s) (\<lambda>_ s.
                 bind (iunlock (Some ip) s) (\<lambda>_ s.
                 bind (nameiparent new (replicate DIRSIZ 0) s) (\<lambda>r s.
                   case r of (None, _) \<Rightarrow> link_bad ip s
                   | (Some dp, name) \<Rightarrow>
                       bind (ilock (Some dp) s) (\<lambda>_ s.
                       bind (if ip_dev (inodes s ! dp) \<noteq> ip_dev (inodes s ! ip) then Ok (- 1) s
                             else dirlink dp name (ip_inum (inodes s ! ip)) s) (\<lambda>r s.
                         if r < 0 then bind (iunlockput dp s) (\<lambda>_ s. link_bad ip s)
                         else
                           bind (iunlockput dp s) (\<lambda>_ s.
                           bind (iput ip s) (\<lambda>_ s.
                           bind (end_op s) (\<lambda>_ s. Ok 0 s)))))))))))))"

function isdirempty_loop :: "nat \<Rightarrow> nat \<Rightarrow> kstate \<Rightarrow> (kstate, bool) res" where
  "isdirempty_loop dp off s =
     (if off < unat (ip_size (inodes s ! dp)) then
        bind (readi dp (of_nat off) 16 s) (\<lambda>r s.
          if fst r \<noteq> 16 then Panic ''isdirempty: readi''
          else if de_inum (get_dirent (snd r)) \<noteq> 0 then Ok False s
          else isdirempty_loop dp (off + 16) s)
      else Ok True s)"
  by pat_completeness auto
termination
proof (relation "measure (\<lambda>(dp, off, s). 2 ^ 32 - off)", goal_cases)
  case (2 dp off s r t)
  then show ?case using unat32 [of "ip_size (inodes s ! dp)"] by simp
qed simp

declare isdirempty_loop.simps [simp del]

definition isdirempty :: "nat \<Rightarrow> kstate \<Rightarrow> (kstate, bool) res" where
  "isdirempty dp s = isdirempty_loop dp 32 s"

text \<open>\<open>sys_unlink\<close> from the point where the entry at offset \<open>off\<close> of \<open>dp\<close> is known to go.\<close>

definition unlink_entry :: "nat \<Rightarrow> nat \<Rightarrow> u32 \<Rightarrow> kstate \<Rightarrow> (kstate, u32) res" where
  "unlink_entry dp ip off s =
     bind (writei dp (replicate 16 0) off 16 s) (\<lambda>n s.
       if n \<noteq> 16 then Panic ''unlink: writei''
       else
         bind (if ip_type (inodes s ! ip) = T_DIR
               then iupdate dp (upd_inode dp (\<lambda>p. p\<lparr>ip_nlink := ip_nlink p - 1\<rparr>) s)
               else Ok () s) (\<lambda>_ s.
         bind (iunlockput dp s) (\<lambda>_ s.
         bind (iupdate ip (upd_inode ip (\<lambda>p. p\<lparr>ip_nlink := ip_nlink p - 1\<rparr>) s)) (\<lambda>_ s.
         bind (iunlockput ip s) (\<lambda>_ s.
         bind (end_op s) (\<lambda>_ s. Ok 0 s))))))"

definition is_dot :: "u8 list \<Rightarrow> bool option" where
  "is_dot name =
     (case namecmp name (lit ''.'') of
        None \<Rightarrow> None
      | Some c \<Rightarrow> if c = 0 then Some True else map_option (\<lambda>c. c = 0) (namecmp name (lit ''..'')))"

definition sys_unlink :: "kstate \<Rightarrow> (kstate, u32) res" where
  "sys_unlink s =
     or_fail (argstr 0 s) (\<lambda>path s.
       bind (begin_op s) (\<lambda>_ s.
       bind (nameiparent path (replicate DIRSIZ 0) s) (\<lambda>r s.
         case r of (None, _) \<Rightarrow> op_fail s
         | (Some dp, name) \<Rightarrow>
             bind (ilock (Some dp) s) (\<lambda>_ s.
               let bad = (\<lambda>s. bind (iunlockput dp s) (\<lambda>_ s. op_fail s)) in
               case is_dot name of
                 None \<Rightarrow> Undef
               | Some True \<Rightarrow> bad s
               | Some False \<Rightarrow>
                   bind (dirlookup dp name s) (\<lambda>r s.
                     case r of None \<Rightarrow> bad s
                     | Some (ip, off) \<Rightarrow>
                         bind (ilock (Some ip) s) (\<lambda>_ s.
                           if sint (ip_nlink (inodes s ! ip)) < 1 then Panic ''unlink: nlink < 1''
                           else
                             bind (if ip_type (inodes s ! ip) = T_DIR then isdirempty ip s else Ok True s) (\<lambda>ok s.
                               if \<not> ok then bind (iunlockput ip s) (\<lambda>_ s. bad s)
                               else unlink_entry dp ip off s)))))))"

section \<open>Creating and opening\<close>

definition create :: "u8 list \<Rightarrow> u16 \<Rightarrow> u16 \<Rightarrow> u16 \<Rightarrow> kstate \<Rightarrow> (kstate, nat option) res" where
  "create path type major minor s =
     bind (nameiparent path (replicate DIRSIZ 0) s) (\<lambda>r s.
       case r of (None, _) \<Rightarrow> Ok None s
       | (Some dp, name) \<Rightarrow>
           bind (ilock (Some dp) s) (\<lambda>_ s.
           bind (dirlookup dp name s) (\<lambda>r s.
             case r of
               Some (ip, _) \<Rightarrow>
                 bind (iunlockput dp s) (\<lambda>_ s.
                 bind (ilock (Some ip) s) (\<lambda>_ s.
                   if type = T_FILE \<and> ip_type (inodes s ! ip) = T_FILE then Ok (Some ip) s
                   else bind (iunlockput ip s) (\<lambda>_ s. Ok None s)))
             | None \<Rightarrow>
                 bind (ialloc (ip_dev (inodes s ! dp)) type s) (\<lambda>ip s.
                 bind (ilock (Some ip) s) (\<lambda>_ s.
                 bind (iupdate ip (upd_inode ip (\<lambda>p. p\<lparr>ip_major := major, ip_minor := minor, ip_nlink := 1\<rparr>) s)) (\<lambda>_ s.
                 bind (if type = T_DIR
                       then bind (iupdate dp (upd_inode dp (\<lambda>p. p\<lparr>ip_nlink := ip_nlink p + 1\<rparr>) s)) (\<lambda>_ s.
                            bind (dirlink ip (lit ''.'') (ip_inum (inodes s ! ip)) s) (\<lambda>r s.
                              if r < 0 then Panic ''create dots''
                              else
                                bind (dirlink ip (lit ''..'') (ip_inum (inodes s ! dp)) s) (\<lambda>r s.
                                  if r < 0 then Panic ''create dots'' else Ok () s)))
                       else Ok () s) (\<lambda>_ s.
                 bind (dirlink dp name (ip_inum (inodes s ! ip)) s) (\<lambda>r s.
                   if r < 0 then Panic ''create: dirlink''
                   else bind (iunlockput dp s) (\<lambda>_ s. Ok (Some ip) s)))))))))"

text \<open>The second half of \<open>sys_open\<close>, with \<open>ip\<close> locked inside a transaction.\<close>

definition open_file :: "nat \<Rightarrow> u32 \<Rightarrow> kstate \<Rightarrow> (kstate, u32) res" where
  "open_file ip omode s =
     bind (filealloc s) (\<lambda>f s.
       case f of
         None \<Rightarrow> bind (iunlockput ip s) (\<lambda>_ s. op_fail s)
       | Some f \<Rightarrow>
           bind (fdalloc f s) (\<lambda>fd s.
             case fd of
               None \<Rightarrow> bind (fileclose f s) (\<lambda>_ s. bind (iunlockput ip s) (\<lambda>_ s. op_fail s))
             | Some fd \<Rightarrow>
                 bind (iunlock (Some ip) s) (\<lambda>_ s.
                 bind (end_op s) (\<lambda>_ s.
                   Ok (of_nat fd) (upd_file f (\<lambda>k. k\<lparr>f_type := FD_INODE, f_ip := Some ip, f_off := 0,
                     f_readable := (omode AND 1 = 0), f_writable := (omode AND 1 \<noteq> 0 \<or> omode AND 2 \<noteq> 0)\<rparr>) s)))))"

definition sys_open :: "kstate \<Rightarrow> (kstate, u32) res" where
  "sys_open s =
     or_fail (argstr 0 s) (\<lambda>path s.
     or_fail (argint 1 s) (\<lambda>omode s.
       bind (begin_op s) (\<lambda>_ s.
         if omode AND 0x200 \<noteq> 0 then
           bind (create path T_FILE 0 0 s) (\<lambda>ipo s.
             case ipo of None \<Rightarrow> op_fail s | Some ip \<Rightarrow> open_file ip omode s)
         else
           bind (namei path s) (\<lambda>ipo s.
             case ipo of None \<Rightarrow> op_fail s
             | Some ip \<Rightarrow>
                 bind (ilock (Some ip) s) (\<lambda>_ s.
                   if ip_type (inodes s ! ip) = T_DIR \<and> omode \<noteq> 0
                   then bind (iunlockput ip s) (\<lambda>_ s. op_fail s)
                   else open_file ip omode s)))))"

definition made :: "nat option \<Rightarrow> kstate \<Rightarrow> (kstate, u32) res" where
  "made ipo s =
     (case ipo of None \<Rightarrow> op_fail s
      | Some ip \<Rightarrow> bind (iunlockput ip s) (\<lambda>_ s. bind (end_op s) (\<lambda>_ s. Ok 0 s)))"

definition sys_mkdir :: "kstate \<Rightarrow> (kstate, u32) res" where
  "sys_mkdir s =
     bind (begin_op s) (\<lambda>_ s.
     bind (argstr 0 s) (\<lambda>path s.
       case path of None \<Rightarrow> op_fail s
       | Some path \<Rightarrow> bind (create path T_DIR 0 0 s) (\<lambda>ipo s. made ipo s)))"

definition sys_mknod :: "kstate \<Rightarrow> (kstate, u32) res" where
  "sys_mknod s =
     bind (begin_op s) (\<lambda>_ s.
     bind (argstr 0 s) (\<lambda>path s.
       case path of None \<Rightarrow> op_fail s
       | Some path \<Rightarrow>
           bind (argint 1 s) (\<lambda>major s.
             case major of None \<Rightarrow> op_fail s
             | Some major \<Rightarrow>
                 bind (argint 2 s) (\<lambda>minor s.
                   case minor of None \<Rightarrow> op_fail s
                   | Some minor \<Rightarrow>
                       bind (create path T_DEV (ucast major) (ucast minor) s) (\<lambda>ipo s. made ipo s)))))"

definition sys_chdir :: "kstate \<Rightarrow> (kstate, u32) res" where
  "sys_chdir s =
     bind (curproc s) (\<lambda>cp s.
     bind (begin_op s) (\<lambda>_ s.
     bind (argstr 0 s) (\<lambda>path s.
       case path of None \<Rightarrow> op_fail s
       | Some path \<Rightarrow>
           bind (namei path s) (\<lambda>ipo s.
             case ipo of None \<Rightarrow> op_fail s
             | Some ip \<Rightarrow>
                 bind (ilock (Some ip) s) (\<lambda>_ s.
                   if ip_type (inodes s ! ip) \<noteq> T_DIR then bind (iunlockput ip s) (\<lambda>_ s. op_fail s)
                   else
                     bind (iunlock (Some ip) s) (\<lambda>_ s.
                     bind (case p_cwd (procs s ! cp) of None \<Rightarrow> Undef | Some cwd \<Rightarrow> iput cwd s) (\<lambda>_ s.
                     bind (end_op s) (\<lambda>_ s.
                       Ok 0 (upd_proc cp (\<lambda>q. q\<lparr>p_cwd := Some ip\<rparr>) s)))))))))"

section \<open>\<open>exec\<close> and \<open>pipe\<close>\<close>

text \<open>The loop of \<open>sys_exec\<close> that collects the arguments; at most \<open>MAXARG - 1\<close> of them fit.\<close>

primrec exec_argv :: "nat \<Rightarrow> u32 \<Rightarrow> u8 list list \<Rightarrow> kstate \<Rightarrow> (kstate, u8 list list option) res" where
  "exec_argv 0 uargv argv s = Ok None s"
| "exec_argv (Suc n) uargv argv s =
     bind (fetchint uargv s) (\<lambda>uarg s.
       case uarg of None \<Rightarrow> Ok None s
       | Some uarg \<Rightarrow>
           if uarg = 0 then Ok (Some argv) s
           else
             bind (fetchstr uarg s) (\<lambda>a s.
               case a of None \<Rightarrow> Ok None s | Some a \<Rightarrow> exec_argv n (uargv + 4) (argv @ [a]) s))"

definition sys_exec :: "kstate \<Rightarrow> (kstate, u32) res" where
  "sys_exec s =
     or_fail (argstr 0 s) (\<lambda>path s.
     or_fail (argint 1 s) (\<lambda>uargv s.
     or_fail (exec_argv MAXARG uargv [] s) (\<lambda>argv s.
       bind (exec path argv s) (\<lambda>r s. Ok (of_int r) s))))"

definition sys_pipe :: "kstate \<Rightarrow> (kstate, u32) res" where
  "sys_pipe s =
     or_fail (argptr 0 8 s) (\<lambda>fd s.
     or_fail (pipealloc s) (\<lambda>(rf, wf) s.
       bind (fdalloc rf s) (\<lambda>fd0 s.
         case fd0 of
           None \<Rightarrow> bind (fileclose rf s) (\<lambda>_ s. bind (fileclose wf s) (\<lambda>_ s. Ok (- 1) s))
         | Some fd0 \<Rightarrow>
             bind (fdalloc wf s) (\<lambda>fd1 s.
               case fd1 of
                 None \<Rightarrow>
                   bind (curproc s) (\<lambda>p s.
                     let s = upd_proc p (\<lambda>q. q\<lparr>p_ofile := (p_ofile q)[fd0 := None]\<rparr>) s in
                   bind (fileclose rf s) (\<lambda>_ s. bind (fileclose wf s) (\<lambda>_ s. Ok (- 1) s)))
               | Some fd1 \<Rightarrow>
                   bind (uwrite fd (put32 (of_nat fd0)) s) (\<lambda>_ s.
                   bind (uwrite (fd + 4) (put32 (of_nat fd1)) s) (\<lambda>_ s. Ok 0 s))))))"

section \<open>Copying a file\<close>

text \<open>The two offsets of \<open>sys_copy_file\<close> are always equal. The result says whether all was written.\<close>

function copy_file_loop :: "nat \<Rightarrow> nat \<Rightarrow> nat \<Rightarrow> kstate \<Rightarrow> (kstate, bool) res" where
  "copy_file_loop src dest off s =
     (if off < unat (ip_size (inodes s ! src)) then
        bind (readi src (of_nat off) 512 s) (\<lambda>r s.
          if fst r \<le> 0 then Ok True s
          else
            bind (writei dest (snd r) (of_nat off) (of_int (fst r)) s) (\<lambda>n s.
              if n \<noteq> fst r then Ok False s
              else copy_file_loop src dest (off + nat (fst r)) s))
      else Ok True s)"
  by pat_completeness auto
termination
proof (relation "measure (\<lambda>(src, dest, off, s). 2 ^ 32 - off)", goal_cases)
  case (2 src dest off s r t n u)
  then show ?case using unat32 [of "ip_size (inodes s ! src)"] by simp
qed simp

declare copy_file_loop.simps [simp del]

definition sys_copy_file :: "kstate \<Rightarrow> (kstate, u32) res" where
  "sys_copy_file s =
     or_fail (argstr 0 s) (\<lambda>src s.
     or_fail (argstr 1 s) (\<lambda>dest s.
       bind (begin_op s) (\<lambda>_ s.
       bind (namei src s) (\<lambda>ipo s.
         case ipo of None \<Rightarrow> op_fail s
         | Some ip_src \<Rightarrow>
             bind (ilock (Some ip_src) s) (\<lambda>_ s.
               if ip_type (inodes s ! ip_src) \<noteq> T_FILE then bind (iunlockput ip_src s) (\<lambda>_ s. op_fail s)
               else
                 bind (create dest T_FILE 0 0 s) (\<lambda>ipo s.
                   case ipo of None \<Rightarrow> bind (iunlockput ip_src s) (\<lambda>_ s. op_fail s)
                   | Some ip_dest \<Rightarrow>
                       bind (copy_file_loop ip_src ip_dest 0 s) (\<lambda>ok s.
                       bind (iunlockput ip_src s) (\<lambda>_ s.
                       bind (iunlockput ip_dest s) (\<lambda>_ s.
                       bind (end_op s) (\<lambda>_ s. Ok (if ok then 0 else - 1) s))))))))))"

end
