(* ===== verification/Syscall.thy ===== *)
theory Syscall
  imports Sysproc Sysfile
begin

text \<open>The table of system calls and \<open>syscall\<close> (\<open>syscall.c\<close>, \<open>syscall.h\<close>).\<close>

text \<open>\<open>syscalls[num]\<close>, for the numbers of \<open>syscall.h\<close>; there is no other entry.\<close>

definition syscalls :: "(nat \<times> (kstate \<Rightarrow> (kstate, u32) res)) list" where
  "syscalls =
     [(1, sys_fork), (2, sys_exit), (3, sys_wait), (4, sys_pipe), (5, sys_read), (6, sys_kill), (7, sys_exec),
      (8, sys_fstat), (9, sys_chdir), (10, sys_dup), (11, sys_getpid), (12, sys_sbrk), (13, sys_sleep),
      (14, sys_uptime), (15, sys_open), (16, sys_write), (17, sys_mknod), (18, sys_unlink), (19, sys_link),
      (20, sys_mkdir), (21, sys_close), (22, sys_find_digit_root), (23, sys_copy_file), (24, sys_get_uncle_count),
      (25, sys_get_process_lifetime), (26, sys_getnumsyscalls), (27, sys_getnumsyscallsgood), (28, sys_waitx),
      (29, sys_set_priority), (30, sys_ps), (31, sys_test_rr), (32, sys_setschedpolicy),
      (33, sys_set_burst_estimate), (34, sys_yield)]"

text \<open>What follows the call: the count of successful calls and the value for the user.\<close>

definition syscall_end :: "nat \<Rightarrow> u32 \<Rightarrow> kstate \<Rightarrow> (kstate, unit) res" where
  "syscall_end p ret s =
     (let s = (if 0 \<le> sint ret \<and> 0 < sint (p_pid (procs s ! p))
               then upd_proc p (\<lambda>q. q\<lparr>p_good_syscall_count := p_good_syscall_count q + 1\<rparr>) s else s)
      in Ok () (upd_proc p (\<lambda>q. q\<lparr>tf_of := (tf_of q)\<lparr>tf_eax := ret\<rparr>\<rparr>) s))"

definition syscall :: "kstate \<Rightarrow> (kstate, unit) res" where
  "syscall s =
     bind (curproc s) (\<lambda>p s.
       let num = tf_eax (tf_of (procs s ! p)) in
       case (if 0 < sint num then map_of syscalls (unat num) else None) of
         Some f \<Rightarrow>
           let s = (if 0 < sint (p_pid (procs s ! p))
                    then upd_proc p (\<lambda>q. q\<lparr>p_syscall_count := p_syscall_count q + 1\<rparr>) s else s)
           in bind (f s) (\<lambda>ret s. syscall_end p ret s)
       | None \<Rightarrow>
           bind (cprintf (Some (bytes ''%d %s: unknown sys call %d'' @ [10, 0]))
                  [AInt (p_pid (procs s ! p)), AStr (Some (p_name (procs s ! p))), AInt num] s) (\<lambda>_ s.
             Ok () (upd_proc p (\<lambda>q. q\<lparr>tf_of := (tf_of q)\<lparr>tf_eax := - 1\<rparr>\<rparr>) s)))"

section \<open>Calls that are refused\<close>

text \<open>The call is counted, and -1 is what the user finds in \<open>%eax\<close>; nothing else changed.\<close>

definition refused :: "nat \<Rightarrow> kstate \<Rightarrow> kstate" where
  "refused p s = upd_proc p (\<lambda>q. q\<lparr>p_syscall_count := p_syscall_count q + (if 0 < sint (p_pid q) then 1 else 0),
     tf_of := (tf_of q)\<lparr>tf_eax := - 1\<rparr>\<rparr>) s"

text \<open>The first argument is not inside the process.\<close>

definition no_argument :: "proc \<Rightarrow> bool" where
  "no_argument q \<longleftrightarrow> p_sz q \<le> tf_esp (tf_of q) + 4 \<or> p_sz q < tf_esp (tf_of q) + 8"

text \<open>The first argument is no open descriptor.\<close>

definition bad_descriptor :: "kstate \<Rightarrow> proc \<Rightarrow> bool" where
  "bad_descriptor s q \<longleftrightarrow> (\<exists>fd. argint 0 s = Ok (Some fd) s
     \<and> (sint fd < 0 \<or> 16 \<le> sint fd \<or> p_ofile q ! unat fd = None))"

lemma or_fail_None [simp]: "or_fail (Ok None s) k = Ok (- 1) s"
  by (simp add: or_fail_def)

lemma no_argument_None:
  assumes "cpu_ok s" "cur_proc s = Some p" "no_argument (procs s ! p)"
  shows "argint 0 s = Ok None s" "argptr 0 len s = Ok None s" "argstr 0 s = Ok None s" "argfd 0 s = Ok None s"
proof -
  show i: "argint 0 s = Ok None s"
    using assms by (simp add: argint_def fetchint_def curproc_ok no_argument_def add.assoc)
  show "argptr 0 len s = Ok None s" "argstr 0 s = Ok None s" "argfd 0 s = Ok None s"
    using assms by (simp_all add: argptr_def argstr_def argfd_def i curproc_ok)
qed

lemma bad_descriptor_None:
  assumes "cpu_ok s" "cur_proc s = Some p" "bad_descriptor s (procs s ! p)"
  shows "argfd 0 s = Ok None s"
  using assms by (auto simp: bad_descriptor_def argfd_def curproc_ok)

lemma calls_without_argument:
  assumes "cpu_ok s" "cur_proc s = Some p" "no_argument (procs s ! p)"
    and "n \<in> {4, 5, 6, 7, 8, 10, 12, 13, 15, 16, 18, 19, 21, 22, 23, 24, 25, 28, 29, 32, 33}"
  shows "\<exists>f. map_of syscalls n = Some f \<and> f s = Ok (- 1) s"
  using assms(4) no_argument_None [OF assms(1-3)]
  by (auto simp: syscalls_def sys_pipe_def sys_read_def sys_kill_def sys_exec_def sys_fstat_def sys_dup_def sys_sbrk_def
      sys_sleep_def sys_open_def sys_write_def sys_unlink_def sys_link_def sys_close_def sys_find_digit_root_def
      sys_copy_file_def sys_get_uncle_count_def sys_get_process_lifetime_def sys_waitx_def sys_set_priority_def
      sys_setschedpolicy_def sys_set_burst_estimate_def)

lemma calls_with_bad_descriptor:
  assumes "cpu_ok s" "cur_proc s = Some p" "bad_descriptor s (procs s ! p)" "n \<in> {5, 8, 10, 16, 21}"
  shows "\<exists>f. map_of syscalls n = Some f \<and> f s = Ok (- 1) s"
  using assms(4) bad_descriptor_None [OF assms(1-3)]
  by (auto simp: syscalls_def sys_read_def sys_fstat_def sys_dup_def sys_write_def sys_close_def)

lemma uload_upd_proc [simp]: "uload n pg va (upd_proc p f s) = uload n pg va s"
  by (induction n arbitrary: va) (simp_all add: ka_read_def upd_proc_def split: option.splits)

lemma argint_counted:
  assumes "cpu_ok s" "cur_proc s = Some p" "argint n s = Ok r s"
    and "p < length (procs s)" "\<And>q. p_sz (f q) = p_sz q \<and> p_pgdir (f q) = p_pgdir q \<and> tf_of (f q) = tf_of q"
  shows "argint n (upd_proc p f s) = Ok r (upd_proc p f s)"
proof -
  have k: "cpu_ok (upd_proc p f s)" "cur_proc (upd_proc p f s) = Some p" using assms(1,2) by (simp_all add: upd_proc_def)
  have q: "p_sz (procs (upd_proc p f s) ! p) = p_sz (procs s ! p)" "p_pgdir (procs (upd_proc p f s) ! p) = p_pgdir (procs s ! p)"
    "tf_of (procs (upd_proc p f s) ! p) = tf_of (procs s ! p)"
    using assms(4) assms(5) [of "procs s ! p"] by (simp_all add: upd_proc_def)
  show ?thesis
    using assms(3)
    by (auto simp: argint_def fetchint_def Let_def curproc_ok [OF assms(1,2)] curproc_ok [OF k] uread_eq [OF assms(1,2)] uread_eq [OF k] q
        split: if_splits option.splits)
qed



end
