(* ===== verification/Kbd.thy ===== *)
theory Kbd
  imports Console
begin

text \<open>
  The keyboard (\<open>kbd.c\<close>, \<open>kbd.h\<close>): scan codes become characters, under the control of the shift,
  control and lock keys, whose state \<open>kbdgetc\<close> keeps between calls.
\<close>

section \<open>Tables\<close>

text \<open>A table of \<open>kbd.h\<close>: leading entries, then designated ones; all others are \<open>NO\<close>, which is 0.\<close>

definition key_table :: "u8 list \<Rightarrow> (u8 \<times> u8) list \<Rightarrow> u8 \<Rightarrow> u8" where
  "key_table xs ps i = (case map_of ps i of Some v \<Rightarrow> v | None \<Rightarrow> if unat i < length xs then xs ! unat i else 0)"

abbreviation (input) SHIFT :: u32 where "SHIFT \<equiv> 1"
abbreviation (input) CTL :: u32 where "CTL \<equiv> 2"
abbreviation (input) CAPSLOCK :: u32 where "CAPSLOCK \<equiv> 8"
abbreviation (input) E0ESC :: u32 where "E0ESC \<equiv> 64"

definition shiftcode :: "u8 \<Rightarrow> u8" where
  "shiftcode = key_table [] [(0x1D, 2), (0x2A, 1), (0x36, 1), (0x38, 4), (0x9D, 2), (0xB8, 4)]"

definition togglecode :: "u8 \<Rightarrow> u8" where
  "togglecode = key_table [] [(0x3A, 8), (0x45, 16), (0x46, 32)]"

definition normalmap :: "u8 \<Rightarrow> u8" where
  "normalmap = key_table
     [0, 27, 49, 50, 51, 52, 53, 54, 55, 56, 57, 48, 45, 61, 8, 9,
      113, 119, 101, 114, 116, 121, 117, 105, 111, 112, 91, 93, 10, 0, 97, 115,
      100, 102, 103, 104, 106, 107, 108, 59, 39, 96, 0, 92, 122, 120, 99, 118,
      98, 110, 109, 44, 46, 47, 0, 42, 0, 32, 0, 0, 0, 0, 0, 0,
      0, 0, 0, 0, 0, 0, 0, 55, 56, 57, 45, 52, 53, 54, 43, 49,
      50, 51, 48, 46, 0, 0, 0, 0]
     [(0x9C, 10), (0xB5, 47), (0xC8, 0xe2), (0xD0, 0xe3), (0xC9, 0xe6), (0xD1, 0xe7), (0xCB, 0xe4), (0xCD, 0xe5), (0x97, 0xe0), (0xCF, 0xe1), (0xD2, 0xe8), (0xD3, 0xe9)]"

definition shiftmap :: "u8 \<Rightarrow> u8" where
  "shiftmap = key_table
     [0, 27, 33, 64, 35, 36, 37, 94, 38, 42, 40, 41, 95, 43, 8, 9,
      81, 87, 69, 82, 84, 89, 85, 73, 79, 80, 123, 125, 10, 0, 65, 83,
      68, 70, 71, 72, 74, 75, 76, 58, 34, 126, 0, 124, 90, 88, 67, 86,
      66, 78, 77, 60, 62, 63, 0, 42, 0, 32, 0, 0, 0, 0, 0, 0,
      0, 0, 0, 0, 0, 0, 0, 55, 56, 57, 45, 52, 53, 54, 43, 49,
      50, 51, 48, 46, 0, 0, 0, 0]
     [(0x9C, 10), (0xB5, 47), (0xC8, 0xe2), (0xD0, 0xe3), (0xC9, 0xe6), (0xD1, 0xe7), (0xCB, 0xe4), (0xCD, 0xe5), (0x97, 0xe0), (0xCF, 0xe1), (0xD2, 0xe8), (0xD3, 0xe9)]"

definition ctlmap :: "u8 \<Rightarrow> u8" where
  "ctlmap = key_table
     [0, 0, 0, 0, 0, 0, 0, 0, 0, 0, 0, 0, 0, 0, 0, 0,
      17, 23, 5, 18, 20, 25, 21, 9, 15, 16, 0, 0, 13, 0, 1, 19,
      4, 6, 7, 8, 10, 11, 12, 0, 0, 0, 0, 28, 26, 24, 3, 22,
      2, 14, 13, 0, 0, 239, 0, 0]
     [(0x9C, 13), (0xB5, 0xef), (0xC8, 0xe2), (0xD0, 0xe3), (0xC9, 0xe6), (0xD1, 0xe7), (0xCB, 0xe4), (0xCD, 0xe5), (0x97, 0xe0), (0xCF, 0xe1), (0xD2, 0xe8), (0xD3, 0xe9)]"

text \<open>\<open>charcode[shift & (CTL | SHIFT)]\<close>.\<close>

definition charcode :: "u32 \<Rightarrow> u8 \<Rightarrow> u8" where
  "charcode i = (if i = 0 then normalmap else if i = 1 then shiftmap else ctlmap)"

section \<open>Scan codes\<close>

text \<open>\<open>port\<close> is the byte of the data port, or \<open>None\<close> when the status port shows no data.\<close>

definition kbdgetc :: "u8 option \<Rightarrow> kstate \<Rightarrow> int \<times> kstate" where
  "kbdgetc port s =
     (case port of
        None \<Rightarrow> (- 1, s)
      | Some data \<Rightarrow>
          let shift = kbd_shift s in
          if data = 0xE0 then (0, s\<lparr>kbd_shift := shift OR E0ESC\<rparr>)
          else if data AND 0x80 \<noteq> 0 then
            let data = (if shift AND E0ESC \<noteq> 0 then data else data AND 0x7F)
            in (0, s\<lparr>kbd_shift := shift AND NOT (ucast (shiftcode data) OR E0ESC)\<rparr>)
          else
            let esc = (shift AND E0ESC \<noteq> 0);
                data = (if esc then data OR 0x80 else data);
                shift = (if esc then shift AND NOT E0ESC else shift);
                shift = shift OR ucast (shiftcode data);
                shift = shift XOR ucast (togglecode data);
                c = charcode (shift AND (CTL OR SHIFT)) data;
                c = (if shift AND CAPSLOCK \<noteq> 0
                     then if 97 \<le> c \<and> c \<le> 122 then c - 32 else if 65 \<le> c \<and> c \<le> 90 then c + 32 else c
                     else c)
            in (uint c, s\<lparr>kbd_shift := shift\<rparr>))"

definition kbdintr :: "u8 list \<Rightarrow> kstate \<Rightarrow> (kstate, unit) res" where
  "kbdintr ds s = consoleintr kbdgetc ds s"

section \<open>The driver as a device of the console\<close>

text \<open>What a scan code does to the driver's variable, and the character it gives.\<close>

definition key_of :: "u32 \<Rightarrow> u8 \<Rightarrow> int \<times> u32" where
  "key_of sh d = (case kbdgetc (Some d) (one_cpu\<lparr>kbd_shift := sh\<rparr>) of (c, t) \<Rightarrow> (c, kbd_shift t))"

lemma kbdgetc_key: "kbdgetc (Some d) s = (fst (key_of (kbd_shift s) d), s\<lparr>kbd_shift := snd (key_of (kbd_shift s) d)\<rparr>)"
  by (simp add: key_of_def kbdgetc_def Let_def)

interpretation keyboard: input_device kbdgetc key_of
  by unfold_locales (auto simp: kbdgetc_key kbdgetc_def key_of_def Let_def uint_u8)

section \<open>What a person does at the keyboard\<close>

text \<open>
  A key is named by the number the tables have for it; numbers from 128 on are keys whose scan codes
  have the prefix \<open>0xE0\<close>.
\<close>

datatype key_event = Press u8 | Release u8

record modifiers =
  held_shift :: bool
  held_ctl :: bool
  held_alt :: bool
  lock_caps :: bool
  lock_num :: bool
  lock_scroll :: bool

fun moves :: "key_event \<Rightarrow> modifiers \<Rightarrow> modifiers" where
  "moves (Press k) m =
     (if k \<in> {0x2A, 0x36} then m\<lparr>held_shift := True\<rparr>
      else if k \<in> {0x1D, 0x9D} then m\<lparr>held_ctl := True\<rparr>
      else if k \<in> {0x38, 0xB8} then m\<lparr>held_alt := True\<rparr>
      else if k = 0x3A then m\<lparr>lock_caps := \<not> lock_caps m\<rparr>
      else if k = 0x45 then m\<lparr>lock_num := \<not> lock_num m\<rparr>
      else if k = 0x46 then m\<lparr>lock_scroll := \<not> lock_scroll m\<rparr>
      else m)"
| "moves (Release k) m =
     (if k \<in> {0x2A, 0x36} then m\<lparr>held_shift := False\<rparr>
      else if k \<in> {0x1D, 0x9D} then m\<lparr>held_ctl := False\<rparr>
      else if k \<in> {0x38, 0xB8} then m\<lparr>held_alt := False\<rparr>
      else m)"

definition other_case :: "u8 \<Rightarrow> u8" where
  "other_case c = (if 97 \<le> c \<and> c \<le> 122 then c - 32 else if 65 \<le> c \<and> c \<le> 90 then c + 32 else c)"

definition char_of_key :: "modifiers \<Rightarrow> u8 \<Rightarrow> u8" where
  "char_of_key m k =
     (let c = (if held_ctl m then ctlmap k else if held_shift m then shiftmap k else normalmap k)
      in if lock_caps m then other_case c else c)"

text \<open>The characters that come of a sequence of events; a key that stands for none gives 0, which is left out.\<close>

primrec typed :: "key_event list \<Rightarrow> modifiers \<Rightarrow> int list" where
  "typed [] m = []"
| "typed (e # es) m =
     (let m = moves e m in
      (case e of Press k \<Rightarrow> if char_of_key m k = 0 then [] else [uint (char_of_key m k)] | Release k \<Rightarrow> [])
      @ typed es m)"

text \<open>What the keyboard sends, and the events it can send without ambiguity.\<close>

primrec scan_codes :: "key_event \<Rightarrow> u8 list" where
  "scan_codes (Press k) = (if k < 0x80 then [k] else [0xE0, k AND 0x7F])"
| "scan_codes (Release k) = (if k < 0x80 then [k OR 0x80] else [0xE0, k])"

primrec sendable :: "key_event \<Rightarrow> bool" where
  "sendable (Press k) \<longleftrightarrow> True"
| "sendable (Release k) \<longleftrightarrow> k AND 0x7F \<noteq> 0x60"

definition mod_bits :: "modifiers \<Rightarrow> u32" where
  "mod_bits m = (if held_shift m then 1 else 0) OR (if held_ctl m then 2 else 0) OR (if held_alt m then 4 else 0)
     OR (if lock_caps m then 8 else 0) OR (if lock_num m then 16 else 0) OR (if lock_scroll m then 32 else 0)"

lemma mod_bits_facts:
  "mod_bits m AND 64 = 0" "(mod_bits m OR 64) AND 64 = 64" "(mod_bits m OR 64) AND NOT 64 = mod_bits m"
  "mod_bits m AND 8 = (if lock_caps m then 8 else 0)"
  "charcode (mod_bits m AND (2 OR 1)) k = (if held_ctl m then ctlmap k else if held_shift m then shiftmap k else normalmap k)"
  by (simp_all add: mod_bits_def charcode_def)

lemma table_simps:
  "shiftcode k = (if k \<in> {0x2A, 0x36} then 1 else if k \<in> {0x1D, 0x9D} then 2 else if k \<in> {0x38, 0xB8} then 4 else 0)"
  "togglecode k = (if k = 0x3A then 8 else if k = 0x45 then 16 else if k = 0x46 then 32 else 0)"
  by (auto simp: shiftcode_def togglecode_def key_table_def)

lemma mod_bits_press:
  "(mod_bits m OR ucast (shiftcode k)) XOR ucast (togglecode k) = mod_bits (moves (Press k) m)"
  unfolding table_simps by (auto simp: mod_bits_def)

lemma mod_bits_release:
  "mod_bits m AND NOT (ucast (shiftcode k) OR 64) = mod_bits (moves (Release k) m)"
  "(mod_bits m OR 64) AND NOT (ucast (shiftcode k) OR 64) = mod_bits (moves (Release k) m)"
  unfolding table_simps by (auto simp: mod_bits_def)

lemma low_byte: "(k :: u8) < 0x80 \<longleftrightarrow> \<not> bit k 7"
proof -
  have "unat k < 256" using unsigned_less [of k] by simp
  then have "unat k div 128 = 0 \<or> unat k div 128 = 1" by linarith
  then have "unat k < 128 \<longleftrightarrow> even (unat k div 128)" by auto
  then show ?thesis by (simp add: word_less_nat_alt bit_iff_odd word_arith_nat_div)
qed

lemma byte_bits:
  fixes k :: u8
  shows "k AND 0x80 = 0 \<longleftrightarrow> k < 0x80" "(k OR 0x80) AND 0x80 = 0x80" "k < 0x80 \<Longrightarrow> (k OR 0x80) AND 0x7F = k"
    and "(k AND 0x7F) AND 0x80 = 0" "\<not> k < 0x80 \<Longrightarrow> (k AND 0x7F) OR 0x80 = k"
    and "k < 0x80 \<Longrightarrow> k AND 0x7F = k"
proof -
  have m: "bit (0x7F :: u8) n \<longleftrightarrow> n < 7" for n
    using bit_mask_iff [where 'a = u8, of 7 n] by (auto simp: mask_eq_exp_minus_1)
  have b: "bit (0x80 :: u8) n \<longleftrightarrow> n = 7" for n
    using bit_exp_iff [where 'a = u8, of 7 n] by auto
  note bits = bit_and_iff bit_or_iff m b
  show "(k OR 0x80) AND 0x80 = 0x80" by (rule bit_word_eqI) (unfold bits, blast)
  show 4: "(k AND 0x7F) AND 0x80 = 0" by (rule bit_word_eqI) (unfold bits, auto)
  show 6: "k AND 0x7F = k" if "k < 0x80"
  proof (rule bit_word_eqI)
    fix n
    assume "n < LENGTH(8)"
    then have "n = 7 \<or> n < 7" by auto
    then show "bit (k AND 0x7F) n = bit k n" using that unfolding low_byte bits by blast
  qed
  show "(k OR 0x80) AND 0x7F = k" if "k < 0x80"
  proof -
    have "(k OR 0x80) AND 0x7F = k AND 0x7F" by (rule bit_word_eqI) (unfold bits, auto)
    then show ?thesis using 6 [OF that] by simp
  qed
  show "(k AND 0x7F) OR 0x80 = k" if "\<not> k < 0x80"
  proof (rule bit_word_eqI)
    fix n
    assume "n < LENGTH(8)"
    then have "n = 7 \<or> n < 7" by auto
    then show "bit ((k AND 0x7F) OR 0x80) n = bit k n" using that unfolding low_byte bits by blast
  qed
  show "k AND 0x80 = 0 \<longleftrightarrow> k < 0x80"
  proof
    assume z: "k AND 0x80 = 0"
    have "bit (k AND 0x80) 7 = bit k 7" unfolding bits by blast
    then show "k < 0x80" unfolding low_byte z by simp
  next
    assume "k < 0x80"
    then have "k AND 0x80 = (k AND 0x7F) AND 0x80" using 6 by simp
    then show "k AND 0x80 = 0" unfolding 4 .
  qed
qed

lemma key_of_E0: "key_of (mod_bits m) 0xE0 = (0, mod_bits m OR 64)"
  by (simp add: key_of_def kbdgetc_def Let_def)

lemma key_of_make:
  assumes "d \<noteq> 0xE0" "d AND 0x80 = 0" "sh AND 64 \<noteq> 0 \<longleftrightarrow> esc"
    and "(if esc then d OR 0x80 else d) = k" "(if esc then sh AND NOT 64 else sh) = sh0"
    and "(sh0 OR ucast (shiftcode k)) XOR ucast (togglecode k) = sh2"
    and "charcode (sh2 AND (2 OR 1)) k = c"
  shows "key_of sh d = (uint (if sh2 AND 8 \<noteq> 0 then other_case c else c), sh2)"
proof -
  have "kbdgetc (Some d) s = (uint (if sh2 AND 8 \<noteq> 0 then other_case c else c), s\<lparr>kbd_shift := sh2\<rparr>)"
    if "kbd_shift s = sh" for s
    unfolding kbdgetc_def option.case Let_def that assms other_case_def
    using assms(1,2) by simp
  then show ?thesis by (simp add: key_of_def)
qed

lemma char_of_key_bits:
  "(if mod_bits m AND 8 \<noteq> 0 then other_case (charcode (mod_bits m AND (2 OR 1)) k) else charcode (mod_bits m AND (2 OR 1)) k)
     = char_of_key m k"
  unfolding mod_bits_facts by (simp add: char_of_key_def Let_def)

lemma key_of_press:
  assumes "k < 0x80"
  shows "key_of (mod_bits m) k = (uint (char_of_key (moves (Press k) m) k), mod_bits (moves (Press k) m))"
proof -
  have "k \<noteq> 0xE0" using assms by auto
  moreover have "k AND 0x80 = 0" using assms unfolding byte_bits(1) .
  moreover have "mod_bits m AND 64 \<noteq> 0 \<longleftrightarrow> False" by (simp add: mod_bits_facts)
  ultimately show ?thesis
    unfolding char_of_key_bits [symmetric] by (rule key_of_make) (rule if_False mod_bits_press refl)+
qed

lemma key_of_press_extended:
  assumes "\<not> k < 0x80"
  shows "key_of (mod_bits m OR 64) (k AND 0x7F)
     = (uint (char_of_key (moves (Press k) m) k), mod_bits (moves (Press k) m))"
proof -
  have "k AND 0x7F \<noteq> 0xE0"
  proof
    assume "k AND 0x7F = 0xE0"
    with byte_bits(4) [of k] show False by simp
  qed
  note this byte_bits(4)
  moreover have "(mod_bits m OR 64) AND 64 \<noteq> 0 \<longleftrightarrow> True" by (simp add: mod_bits_facts)
  moreover have "(if True then (k AND 0x7F) OR 0x80 else k AND 0x7F) = k" using byte_bits(5) [OF assms] by simp
  moreover have "(if True then (mod_bits m OR 64) AND NOT 64 else mod_bits m OR 64) = mod_bits m" by (simp only: mod_bits_facts if_True)
  ultimately show ?thesis
    unfolding char_of_key_bits [symmetric] by (rule key_of_make) (rule mod_bits_press refl)+
qed

lemma key_of_break:
  assumes "d \<noteq> 0xE0" "d AND 0x80 \<noteq> 0" "(if sh AND 64 \<noteq> 0 then d else d AND 0x7F) = k"
    and "sh AND NOT (ucast (shiftcode k) OR 64) = sh2"
  shows "key_of sh d = (0, sh2)"
proof -
  have "kbdgetc (Some d) s = (0, s\<lparr>kbd_shift := sh2\<rparr>)" if "kbd_shift s = sh" for s
    unfolding kbdgetc_def option.case Let_def that assms using assms(1,2) by simp
  then show ?thesis by (simp add: key_of_def)
qed

lemma key_of_release:
  assumes "k < 0x80" "k \<noteq> 0x60"
  shows "key_of (mod_bits m) (k OR 0x80) = (0, mod_bits (moves (Release k) m))"
proof -
  have "k OR 0x80 \<noteq> 0xE0"
  proof
    assume "k OR 0x80 = 0xE0"
    then have "(k OR 0x80) AND 0x7F = 0x60" by simp
    then show False using assms byte_bits(3) by simp
  qed
  moreover have "(k OR 0x80) AND 0x80 \<noteq> 0" unfolding byte_bits(2) by simp
  moreover have "(if mod_bits m AND 64 \<noteq> 0 then k OR 0x80 else (k OR 0x80) AND 0x7F) = k"
    using byte_bits(3) [OF assms(1)] by (simp only: mod_bits_facts simp_thms if_False)
  ultimately show ?thesis by (rule key_of_break) (rule mod_bits_release)
qed

lemma key_of_release_extended:
  assumes "\<not> k < 0x80" "k AND 0x7F \<noteq> 0x60"
  shows "key_of (mod_bits m OR 64) k = (0, mod_bits (moves (Release k) m))"
proof -
  have "k \<noteq> 0xE0" using assms(2) by auto
  moreover have "k AND 0x80 \<noteq> 0" using assms(1) unfolding byte_bits(1) .
  moreover have "(if (mod_bits m OR 64) AND 64 \<noteq> 0 then k else k AND 0x7F) = k"
    unfolding mod_bits_facts by simp
  ultimately show ?thesis by (rule key_of_break) (rule mod_bits_release)
qed

lemma key_steps_append:
  "key_steps (cs @ ds) x = (case key_steps cs x of (x, o1) \<Rightarrow> case key_steps ds x of (x, o2) \<Rightarrow> (x, o1 @ o2))"
  by (induction cs arbitrary: x) (auto split: prod.splits)

lemma key_steps_zero: "key_steps (0 # cs) x = key_steps cs x"
  by (simp add: key_step_def split: prod.splits)

text \<open>The scan codes of a sequence of events are decoded to its characters, and zeros that the console ignores.\<close>

lemma decode_append:
  "decode tr (cs @ ds) sh = (case decode tr cs sh of (a, sh) \<Rightarrow> case decode tr ds sh of (b, sh) \<Rightarrow> (a @ b, sh))"
  by (induction cs arbitrary: sh) (auto split: prod.splits)

lemma decode_event:
  assumes "sendable e"
  shows "\<exists>cs. decode key_of (scan_codes e) (mod_bits m) = (cs, mod_bits (moves e m))
    \<and> filter (\<lambda>c. c \<noteq> 0) cs = typed [e] m"
proof (cases e)
  case (Press k)
  then show ?thesis
    by (cases "k < 0x80")
      (simp_all add: key_of_press key_of_E0 key_of_press_extended Let_def uint_0_iff del: moves.simps)
next
  case (Release k)
  then show ?thesis
    using assms byte_bits(6) [of k]
    by (cases "k < 0x80")
      (simp_all add: key_of_release key_of_E0 key_of_release_extended Let_def del: moves.simps)
qed

lemma decode_events:
  assumes "\<forall>e \<in> set es. sendable e"
  shows "\<exists>cs. decode key_of (concat (map scan_codes es)) (mod_bits m) = (cs, mod_bits (fold moves es m))
    \<and> filter (\<lambda>c. c \<noteq> 0) cs = typed es m"
  using assms
proof (induction es arbitrary: m)
  case (Cons e es)
  from decode_event [of e m] Cons.prems obtain a where
    a: "decode key_of (scan_codes e) (mod_bits m) = (a, mod_bits (moves e m))" "filter (\<lambda>c. c \<noteq> 0) a = typed [e] m" by auto
  from Cons.IH [of "moves e m"] Cons.prems obtain b where
    b: "decode key_of (concat (map scan_codes es)) (mod_bits (moves e m)) = (b, mod_bits (fold moves es (moves e m)))"
      "filter (\<lambda>c. c \<noteq> 0) b = typed es (moves e m)" by auto
  show ?case using a b by (intro exI [of _ "a @ b"]) (simp add: decode_append Let_def del: moves.simps)
qed simp

lemma key_steps_filter: "key_steps (filter (\<lambda>c. c \<noteq> 0) cs) x = key_steps cs x"
proof (induction cs arbitrary: x)
  case (Cons c cs)
  then show ?case by (cases "c = 0") (simp_all add: key_steps_zero del: key_steps.simps(2), simp)
qed simp

text \<open>
  C19. From the keys to the line: whatever keys a person presses and lets go, in any order and with any
  of the shift, control and lock keys, the keyboard interrupt decodes the scan codes the keyboard
  sends to the characters these keys stand for under the modifiers in force, and the console
  edits its line with just these characters; afterwards the driver's variable holds the modifiers that
  are in force then. Control-P, which prints the process table instead, is left out.
\<close>

theorem keyboard_types:
  assumes "quiet s" "lines_ok (input s)" "crt_ok s" "uart s"
    and "\<forall>e \<in> set es. sendable e" "kbd_shift s = mod_bits m" "16 \<notin> set (typed es m)"
    and "key_steps (typed es m) (committed (input s), editing (input s)) = (x, out)"
  shows "\<exists>t. kbdintr (concat (map scan_codes es)) s = Ok () t \<and> kbd_shift t = mod_bits (fold moves es m)
     \<and> lines_ok (input t) \<and> (committed (input t), editing (input t)) = x \<and> cons_out t = cons_out s @ out
     \<and> (committed (input t) \<noteq> committed (input s) \<longrightarrow> (\<forall>p. \<not> waits_on ChInput t p))"
proof -
  from decode_events [OF assms(5), of m] obtain cs where
    cs: "decode key_of (concat (map scan_codes es)) (kbd_shift s) = (cs, mod_bits (fold moves es m))"
      "filter (\<lambda>c. c \<noteq> 0) cs = typed es m" unfolding assms(6) by blast
  have "16 \<notin> set cs" using assms(7) unfolding cs(2) [symmetric] by simp
  moreover have "key_steps cs (committed (input s), editing (input s)) = (x, out)"
    using assms(8) unfolding cs(2) [symmetric] key_steps_filter .
  ultimately obtain t where t: "consoleintr kbdgetc (concat (map scan_codes es)) s = Ok () t" "lines_ok (input t)"
      "(committed (input t), editing (input t)) = x" "con_rel out (input t) (s\<lparr>kbd_shift := mod_bits (fold moves es m)\<rparr>) t"
      "committed (input t) \<noteq> committed (input s) \<longrightarrow> (\<forall>p. \<not> waits_on ChInput t p)"
    using keyboard.handler_ok [OF assms(1-4) cs(1)] by blast
  moreover have "kbd_shift t = mod_bits (fold moves es m)" "cons_out t = cons_out s @ out"
    using con_rel_locks(4) [OF t(4)] con_rel_out [OF t(4)] assms(4) by simp_all
  ultimately show ?thesis by (auto simp: kbdintr_def)
qed

text \<open>Holding the left shift key for an \<open>L\<close>, letting it go, typing \<open>s\<close> and the return key of the number pad.\<close>

theorem keyboard_types_witness:
  "\<exists>t. kbdintr [0x2A, 0x26, 0xA6, 0xAA, 0x1F, 0x9F, 0xE0, 0x1C] console_demo = Ok () t \<and> kbd_shift t = 0
     \<and> committed (input t) = [97, 98, 10, 99, 76, 115, 10] \<and> editing (input t) = [] \<and> cons_out t = [76, 115, 10]"
proof -
  let ?m = "\<lparr>held_shift = False, held_ctl = False, held_alt = False, lock_caps = False, lock_num = False, lock_scroll = False\<rparr>"
  let ?es = "[Press 0x2A, Press 0x26, Release 0x26, Release 0x2A, Press 0x1F, Release 0x1F, Press 0x9C]"
  have t: "typed ?es ?m = [76, 115, 10]"
    by (simp add: char_of_key_def normalmap_def shiftmap_def key_table_def)
  have "key_steps [76, 115, 10] ([97, 98, 10], [99]) = (([97, 98, 10, 99, 76, 115, 10], []), [76, 115, 10])"
    by (simp add: key_step_def)
  moreover have "kbd_shift console_demo = mod_bits ?m" "cons_out console_demo = []"
    by (simp_all add: mod_bits_def console_demo_def one_cpu_def kstate0_def)
  moreover have "mod_bits (fold moves ?es ?m) = 0" by (simp add: mod_bits_def)
  moreover have "concat (map scan_codes ?es) = [0x2A, 0x26, 0xA6, 0xAA, 0x1F, 0x9F, 0xE0, 0x1C]"
    "\<forall>e \<in> set ?es. sendable e" by simp_all
  ultimately show ?thesis
    using keyboard_types [of console_demo ?es ?m] console_demo_ok unfolding t by (auto simp del: concat.simps)
qed

end
