(* ===== verification/Ide.thy ===== *)
theory Ide
  imports Sleeplock
begin

text \<open>
  The disk driver (\<open>ide.c\<close>): requests wait in the list that starts at \<open>idequeue\<close> and goes on
  through the field \<open>qnext\<close> of the buffers; the first one is the one the disk works on. A process
  sleeps until the interrupt handler has completed its request. What the driver writes to the
  controller's ports is the trace \<open>port_out\<close>; what it reads from the status port is a list of
  bytes, an argument of the operations, and so are the data of a completed read.
\<close>

section \<open>Ports\<close>

definition outb :: "u16 \<Rightarrow> u32 \<Rightarrow> kstate \<Rightarrow> kstate" where
  "outb port data s = s\<lparr>port_out := port_out s @ [(port, data AND 0xFF)]\<rparr>"

text \<open>\<open>outsl(port, d, n)\<close> for an array of \<open>4 * n\<close> bytes.\<close>

definition outsl :: "u16 \<Rightarrow> u8 list \<Rightarrow> nat \<Rightarrow> kstate \<Rightarrow> kstate" where
  "outsl port d n s = s\<lparr>port_out := port_out s @ map (\<lambda>i. (port, get32 d (4 * i))) [0..<n]\<rparr>"

text \<open>
  \<open>idewait\<close> polls the status port until the disk is ready: \<open>sts\<close> are the values the port shows, and a
  disk that never becomes ready is polled forever. The result is the status and the values left.
\<close>

fun idewait :: "bool \<Rightarrow> u8 list \<Rightarrow> kstate \<Rightarrow> (kstate, int \<times> u8 list) res" where
  "idewait checkerr [] s = Spin"
| "idewait checkerr (r # sts) s =
     (if r AND (0x80 OR 0x40) \<noteq> 0x40 then idewait checkerr sts s
      else if checkerr \<and> r AND (0x20 OR 0x01) \<noteq> 0 then Ok (- 1, sts) s
      else Ok (0, sts) s)"

section \<open>Requests\<close>

text \<open>\<open>BSIZE/SECTOR_SIZE\<close> is 1, so that the commands are the single-sector ones.\<close>

definition idestart :: "nat option \<Rightarrow> u8 list \<Rightarrow> kstate \<Rightarrow> (kstate, u8 list) res" where
  "idestart bo sts s =
     (case bo of None \<Rightarrow> Panic ''idestart''
      | Some b \<Rightarrow>
          let k = bufs s ! b; sector = b_blockno k in
          if FSSIZE \<le> b_blockno k then Panic ''incorrect blockno''
          else
            bind (idewait False sts s) (\<lambda>r s.
              let s = outb 0x3F6 0 s;
                  s = outb 0x1F2 1 s;
                  s = outb 0x1F3 (sector AND 0xFF) s;
                  s = outb 0x1F4 (drop_bit 8 sector AND 0xFF) s;
                  s = outb 0x1F5 (drop_bit 16 sector AND 0xFF) s;
                  s = outb 0x1F6 (0xE0 OR push_bit 4 (b_dev k AND 1) OR (drop_bit 24 sector AND 0x0F)) s;
                  s = (if b_dirty k then outsl 0x1F0 (b_data k) 128 (outb 0x1F7 0x30 s) else outb 0x1F7 0x20 s)
              in Ok (snd r) s))"

definition set_flags :: "nat \<Rightarrow> bool \<Rightarrow> bool \<Rightarrow> kstate \<Rightarrow> kstate" where
  "set_flags b valid dirty s = s\<lparr>bufs := (bufs s)[b := (bufs s ! b)\<lparr>b_valid := valid, b_dirty := dirty\<rparr>]\<rparr>"

text \<open>\<open>data\<close> is what the data port delivers.\<close>

definition ideintr :: "u8 list \<Rightarrow> u8 list \<Rightarrow> kstate \<Rightarrow> (kstate, unit) res" where
  "ideintr sts data s =
     bind (acquire IdeLock s) (\<lambda>_ s.
       case idequeue s of
         None \<Rightarrow> release IdeLock s
       | Some b \<Rightarrow>
           let s = s\<lparr>idequeue := b_qnext s b\<rparr> in
           bind (if b_dirty (bufs s ! b) then Ok (- 1, sts) s else idewait True sts s) (\<lambda>r s.
             let s = (if \<not> b_dirty (bufs s ! b) \<and> 0 \<le> fst r
                      then s\<lparr>bufs := (bufs s)[b := (bufs s ! b)\<lparr>b_data := take BSIZE data\<rparr>]\<rparr> else s);
                 s = set_flags b True False s
             in bind (wakeup (ChBuf b) s) (\<lambda>_ s.
                bind (if idequeue s \<noteq> None
                      then bind (idestart (idequeue s) (snd r) s) (\<lambda>_ s. Ok () s)
                      else Ok () s) (\<lambda>_ s. release IdeLock s))))"

text \<open>
  The loop that finds the end of the queue. The queue has at most \<open>NBUF\<close> buffers, so that \<open>NBUF + 1\<close>
  steps reach its end; running out of them stands for a queue that is a cycle.
\<close>

primrec queue_end :: "nat \<Rightarrow> (nat \<Rightarrow> nat option) \<Rightarrow> nat \<Rightarrow> nat option" where
  "queue_end 0 nx b = None"
| "queue_end (Suc n) nx b = (case nx b of None \<Rightarrow> Some b | Some c \<Rightarrow> queue_end n nx c)"

text \<open>\<open>*pp = b\<close>.\<close>

definition enqueue :: "nat \<Rightarrow> kstate \<Rightarrow> (kstate, unit) res" where
  "enqueue b s =
     (let s = s\<lparr>b_qnext := (b_qnext s)(b := None)\<rparr> in
      case idequeue s of
        None \<Rightarrow> Ok () (s\<lparr>idequeue := Some b\<rparr>)
      | Some h \<Rightarrow>
          (case queue_end (NBUF + 1) (b_qnext s) h of
             None \<Rightarrow> Spin
           | Some l \<Rightarrow> Ok () (s\<lparr>b_qnext := (b_qnext s)(l := Some b)\<rparr>)))"

text \<open>The waiting loop, with the lock held.\<close>

definition ide_wait :: "nat \<Rightarrow> kstate \<Rightarrow> (kstate, unit) res" where
  "ide_wait b s =
     (if b_valid (bufs s ! b) \<and> \<not> b_dirty (bufs s ! b) then release IdeLock s
      else bind (sleep (ChBuf b) (Some IdeLock) s) (\<lambda>_ s. Undef))"

definition ide_iderw :: "nat \<Rightarrow> u8 list \<Rightarrow> kstate \<Rightarrow> (kstate, unit) res" where
  "ide_iderw b sts s =
     bind (holdingsleep (SlBuf b) s) (\<lambda>h s.
       if \<not> h then Panic ''iderw: buf not locked''
       else if b_valid (bufs s ! b) \<and> \<not> b_dirty (bufs s ! b) then Panic ''iderw: nothing to do''
       else if b_dev (bufs s ! b) \<noteq> 0 \<and> \<not> havedisk1 s then Panic ''iderw: ide disk 1 not present''
       else
         bind (acquire IdeLock s) (\<lambda>_ s.
         bind (enqueue b s) (\<lambda>_ s.
         bind (if idequeue s = Some b then bind (idestart (Some b) sts s) (\<lambda>_ s. Ok () s) else Ok () s) (\<lambda>_ s.
           ide_wait b s))))"

definition ide_iderw_resume :: "nat \<Rightarrow> bool \<Rightarrow> nat \<Rightarrow> u32 \<Rightarrow> kstate \<Rightarrow> (kstate, unit) res" where
  "ide_iderw_resume b ie p start_ticks s =
     bind (sleep_resume ie p start_ticks IdeLock s) (\<lambda>_ s. ide_wait b s)"

text \<open>\<open>ideinit\<close>: \<open>sts\<close> for \<open>idewait\<close>, then \<open>probe\<close> are the values of the status port of disk 1.\<close>

definition ideinit :: "u8 list \<Rightarrow> u8 list \<Rightarrow> kstate \<Rightarrow> (kstate, unit) res" where
  "ideinit sts probe s =
     (let s = initlock IdeLock ''ide'' s in
      bind (idewait False sts s) (\<lambda>_ s.
        let s = outb 0x1F6 (0xE0 OR push_bit 4 1) s;
            s = (if \<exists>x \<in> set (take 1000 probe). x \<noteq> 0 then s\<lparr>havedisk1 := True\<rparr> else s)
        in Ok () (outb 0x1F6 (0xE0 OR push_bit 4 0) s)))"

end
