(* ===== verification/Trap.thy ===== *)
theory Trap
  imports Syscall Kbd Ide
begin

text \<open>
  Traps and interrupts (\<open>trap.c\<close>): system calls, the clock, device interrupts, faults of user
  programs and of the kernel. Acknowledging an interrupt at the local interrupt controller
  (\<open>lapiceoi\<close>) changes no variable of the kernel and is left out.
\<close>

text \<open>What the devices show while the handler runs: keys, serial input, disk status and data, \<open>%cr2\<close>.\<close>

record hardware =
  hw_kbd :: "u8 list"
  hw_uart :: "u8 list"
  hw_ide_status :: "u8 list"
  hw_ide_data :: "u8 list"
  hw_cr2 :: u32

definition tvinit :: "kstate \<Rightarrow> kstate" where
  "tvinit s = initlock TicksLock ''time'' s"

text \<open>\<open>if(myproc() && myproc()->killed \<dots>) exit()\<close>; \<open>user\<close> says whether the trap came from user space.\<close>

definition exit_if_killed :: "bool \<Rightarrow> kstate \<Rightarrow> (kstate, unit) res" where
  "exit_if_killed user s =
     bind (myproc s) (\<lambda>p s.
       case p of None \<Rightarrow> Ok () s
       | Some p \<Rightarrow> if p_killed (procs s ! p) \<and> user then exit s else Ok () s)"

text \<open>A system call: \<open>tfp\<close> is the address of the trap frame and \<open>tf\<close> what it holds.\<close>

definition trap_syscall :: "u32 \<Rightarrow> trapframe \<Rightarrow> kstate \<Rightarrow> (kstate, unit) res" where
  "trap_syscall tfp tf s =
     bind (curproc s) (\<lambda>p s.
     bind (if p_killed (procs s ! p) then exit s else Ok () s) (\<lambda>_ s.
       let s = upd_proc p (\<lambda>q. q\<lparr>p_tf := tfp, tf_of := tf\<rparr>) s in
     bind (syscall s) (\<lambda>_ s.
     bind (curproc s) (\<lambda>p s. if p_killed (procs s ! p) then exit s else Ok () s))))"

definition trap_timer :: "kstate \<Rightarrow> (kstate, unit) res" where
  "trap_timer s =
     bind (cpuid s) (\<lambda>c s.
       if c = 0 then
         bind (acquire TicksLock s) (\<lambda>_ s.
         bind (wakeup ChTicks (s\<lparr>ticks := ticks s + 1\<rparr>)) (\<lambda>_ s. release TicksLock s))
       else Ok () s)"

text \<open>A trap that is none of the known ones: a mistake of the kernel, or of the user program.\<close>

definition trap_fault :: "trapframe \<Rightarrow> u32 \<Rightarrow> kstate \<Rightarrow> (kstate, unit) res" where
  "trap_fault tf cr2 s =
     bind (myproc s) (\<lambda>po s.
     bind (cpuid s) (\<lambda>c s.
       if po = None \<or> tf_cs tf AND 3 = 0 then
         bind (cprintf (Some (bytes ''unexpected trap %d from cpu %d eip %x (cr2=0x%x)'' @ [10, 0]))
                [AInt (tf_trapno tf), AInt (of_nat c), AInt (tf_eip tf), AInt cr2] s) (\<lambda>_ s. Panic ''trap'')
       else
         let p = the po in
         bind (cprintf (Some (bytes ''pid %d %s: trap %d err %d on cpu %d eip 0x%x addr 0x%x--kill proc'' @ [10, 0]))
                [AInt (p_pid (procs s ! p)), AStr (Some (p_name (procs s ! p))), AInt (tf_trapno tf), AInt (tf_err tf),
                 AInt (of_nat c), AInt (tf_eip tf), AInt cr2] s) (\<lambda>_ s.
           Ok () (upd_proc p (\<lambda>q. q\<lparr>p_killed := True\<rparr>) s))))"

definition trap_dispatch :: "hardware \<Rightarrow> trapframe \<Rightarrow> kstate \<Rightarrow> (kstate, unit) res" where
  "trap_dispatch hw tf s =
     (let n = tf_trapno tf in
      if n = 32 then trap_timer s
      else if n = 46 then ideintr (hw_ide_status hw) (hw_ide_data hw) s
      else if n = 47 then Ok () s
      else if n = 33 then kbdintr (hw_kbd hw) s
      else if n = 36 then uartintr (hw_uart hw) s
      else if n = 39 \<or> n = 63 then
        bind (cpuid s) (\<lambda>c s.
          cprintf (Some (bytes ''cpu%d: spurious interrupt at %x:%x'' @ [10, 0]))
            [AInt (of_nat c), AInt (ucast (tf_cs tf)), AInt (tf_eip tf)] s)
      else trap_fault tf (hw_cr2 hw) s)"

text \<open>The clock's work for the running process; none of \<open>FCFS\<close>, \<open>SJF\<close> and \<open>BJF\<close> is defined in the build.\<close>

definition trap_tick :: "trapframe \<Rightarrow> kstate \<Rightarrow> (kstate, unit) res" where
  "trap_tick tf s =
     bind (myproc s) (\<lambda>po s.
       case po of None \<Rightarrow> Ok () s
       | Some p \<Rightarrow>
           if p_state (procs s ! p) = RUNNING \<and> tf_trapno tf = 32 then
             let s = upd_proc p (\<lambda>q. q\<lparr>p_runtime := p_runtime q + 1, p_last_burst_ticks := p_last_burst_ticks q + 1,
                       p_ticks := p_ticks q + 1\<rparr>) s
             in if QUANTUM \<le> p_ticks (procs s ! p)
                then yield (upd_proc p (\<lambda>q. q\<lparr>p_yield_request := True\<rparr>) s)
                else Ok () s
           else Ok () s)"

definition from_user :: "trapframe \<Rightarrow> bool" where
  "from_user tf \<longleftrightarrow> tf_cs tf AND 3 = 3"

definition trap :: "hardware \<Rightarrow> u32 \<Rightarrow> trapframe \<Rightarrow> kstate \<Rightarrow> (kstate, unit) res" where
  "trap hw tfp tf s =
     (if tf_trapno tf = 64 then trap_syscall tfp tf s
      else
        bind (trap_dispatch hw tf s) (\<lambda>_ s.
        bind (exit_if_killed (from_user tf) s) (\<lambda>_ s.
        bind (trap_tick tf s) (\<lambda>_ s.
          exit_if_killed (from_user tf) s))))"

text \<open>What follows a \<open>yield\<close> in \<open>trap\<close> once the process runs again.\<close>

definition trap_resume :: "trapframe \<Rightarrow> bool \<Rightarrow> kstate \<Rightarrow> (kstate, unit) res" where
  "trap_resume tf ie s = bind (yield_resume ie s) (\<lambda>_ s. exit_if_killed (from_user tf) s)"

end
