(* ===== verification/Grep.thy ===== *)
theory Grep
  imports CString
begin

text \<open>
  The user program \<open>grep\<close> (\<open>grep.c\<close>): the matcher for patterns with \<open>^\<close>, \<open>$\<close>, \<open>.\<close> and \<open>*\<close>, and the loop that
  reads a file through a buffer of 1024 bytes and prints the lines that match. A string is the list
  of its bytes, without the NUL at its end.
\<close>

section \<open>The matcher\<close>

function matchhere :: "u8 list \<Rightarrow> u8 list \<Rightarrow> bool"
  and matchstar :: "u8 \<Rightarrow> u8 list \<Rightarrow> u8 list \<Rightarrow> bool" where
  "matchhere re text =
     (if re = [] then True
      else if tl re \<noteq> [] \<and> hd (tl re) = 42 then matchstar (hd re) (tl (tl re)) text
      else if hd re = 36 \<and> tl re = [] then text = []
      else if text \<noteq> [] \<and> (hd re = 46 \<or> hd re = hd text) then matchhere (tl re) (tl text)
      else False)"
| "matchstar c re text =
     (if matchhere re text then True
      else if text \<noteq> [] \<and> (hd text = c \<or> c = 46) then matchstar c re (tl text)
      else False)"
  by pat_completeness auto
termination
proof (relation "measures [\<lambda>x. case x of Inl (re, text) \<Rightarrow> length re + length text | Inr (c, re, text) \<Rightarrow> Suc (length re + length text),
    \<lambda>x. case x of Inl _ \<Rightarrow> 0 | Inr _ \<Rightarrow> 1]", goal_cases)
qed (auto simp: neq_Nil_conv)

declare matchhere.simps [simp del] matchstar.simps [simp del]

primrec match_loop :: "u8 list \<Rightarrow> u8 list \<Rightarrow> bool" where
  "match_loop re [] \<longleftrightarrow> matchhere re []"
| "match_loop re (t # text) \<longleftrightarrow> (if matchhere re (t # text) then True else match_loop re text)"

definition match :: "u8 list \<Rightarrow> u8 list \<Rightarrow> bool" where
  "match re text \<longleftrightarrow> (if re \<noteq> [] \<and> hd re = 94 then matchhere (tl re) text else match_loop re text)"

section \<open>Reading and printing\<close>

text \<open>
  The inner loop on the bytes from \<open>p\<close> on, of which there are \<open>m - (p - buf)\<close>: lines are printed as they are
  found; the result has what was printed and the bytes left behind the last line end. \<open>strchr\<close> stops at
  a NUL among the bytes.
\<close>

function grep_lines :: "u8 list \<Rightarrow> u8 list \<Rightarrow> u8 list \<times> u8 list" where
  "grep_lines pattern p =
     (case strchr (p @ [0]) 10 of
        Some (Some q) \<Rightarrow>
          let line = take (length p + 1 - length q) p;
              out = (if match pattern line then line @ [10] else []);
              (out', rest) = grep_lines pattern (drop (length line + 1) p)
          in (out @ out', rest)
      | _ \<Rightarrow> ([], p))"
  by pat_completeness auto

lemma strchr_Some: "strchr s c = Some (Some q) \<Longrightarrow> \<exists>u. s = u @ q \<and> q \<noteq> [] \<and> hd q = c \<and> c \<notin> set u \<and> 0 \<notin> set u \<and> c \<noteq> 0"
  by (induction s c rule: strchr.induct) (auto split: if_splits intro: exI [of _ "[]"] dest!: Cons_eq_appendI)

termination grep_lines
proof (relation "measure (\<lambda>(pattern, p). length p)", goal_cases)
  case (2 pattern p x q line out)
  then obtain u where u: "p @ [0] = u @ q" "q \<noteq> []" "hd q = 10" using strchr_Some by blast
  then have "p \<noteq> []" by (cases u) auto
  then show ?case by simp
qed simp

declare grep_lines.simps [simp del]

text \<open>\<open>cs\<close> are the bytes the successive calls of \<open>read\<close> deliver, and \<open>buf\<close> the bytes kept at the start of the buffer.\<close>

primrec grep_loop :: "u8 list \<Rightarrow> u8 list list \<Rightarrow> u8 list \<Rightarrow> u8 list" where
  "grep_loop pattern [] buf = []"
| "grep_loop pattern (c # cs) buf =
     (let (out, p) = grep_lines pattern (buf @ c);
          m = (if length p = length (buf @ c) then [] else p)
      in out @ grep_loop pattern cs m)"

definition grep :: "u8 list \<Rightarrow> u8 list list \<Rightarrow> u8 list" where
  "grep pattern cs = grep_loop pattern cs []"

section \<open>What a pattern means\<close>

datatype atom = Any | Byte u8

datatype item = One atom | Star atom

definition atom :: "u8 \<Rightarrow> atom" where
  "atom c = (if c = 46 then Any else Byte c)"

fun fits :: "atom \<Rightarrow> u8 \<Rightarrow> bool" where
  "fits Any t \<longleftrightarrow> True"
| "fits (Byte c) t \<longleftrightarrow> t = c"

lemma fits_atom: "fits (atom c) t \<longleftrightarrow> c = 46 \<or> c = t"
  by (auto simp: atom_def)

text \<open>The items of a pattern behind a possible \<open>^\<close>, and whether it is tied to the end of the line.\<close>

fun items :: "u8 list \<Rightarrow> item list \<times> bool" where
  "items [] = ([], False)"
| "items [c] = (if c = 36 then ([], True) else ([One (atom c)], False))"
| "items (c # d # re) =
     (if d = 42 then apfst ((#) (Star (atom c))) (items re) else apfst ((#) (One (atom c))) (items (d # re)))"

inductive denotes :: "item list \<Rightarrow> u8 list \<Rightarrow> bool" where
  empty: "denotes [] []"
| one: "fits a t \<Longrightarrow> denotes its text \<Longrightarrow> denotes (One a # its) (t # text)"
| star: "\<forall>t \<in> set u. fits a t \<Longrightarrow> denotes its text \<Longrightarrow> denotes (Star a # its) (u @ text)"

inductive_simps denotes_simps: "denotes [] text" "denotes (One a # its) text" "denotes (Star a # its) text"

definition matches_at :: "u8 list \<Rightarrow> u8 list \<Rightarrow> bool" where
  "matches_at re text \<longleftrightarrow> (\<exists>v w. text = v @ w \<and> denotes (fst (items re)) v \<and> (snd (items re) \<longrightarrow> w = []))"

definition matches :: "u8 list \<Rightarrow> u8 list \<Rightarrow> bool" where
  "matches re text \<longleftrightarrow>
     (if re \<noteq> [] \<and> hd re = 94 then matches_at (tl re) text else \<exists>u v. text = u @ v \<and> matches_at re v)"

lemma matches_at_Nil: "matches_at [] text"
  by (auto simp: matches_at_def denotes_simps)

lemma matches_at_end: "matches_at [36] text \<longleftrightarrow> text = []"
  by (auto simp: matches_at_def denotes_simps)

lemma items_one:
  assumes "re = [] \<Longrightarrow> c \<noteq> 36" "re = [] \<or> hd re \<noteq> 42"
  shows "items (c # re) = apfst ((#) (One (atom c))) (items re)"
  using assms by (cases re) simp_all

lemma matches_at_one:
  assumes "re = [] \<Longrightarrow> c \<noteq> 36" "re = [] \<or> hd re \<noteq> 42"
  shows "matches_at (c # re) text \<longleftrightarrow> text \<noteq> [] \<and> fits (atom c) (hd text) \<and> matches_at re (tl text)"
proof (cases "text")
  case (Cons t text')
  have "(\<exists>v w. t # text' = v @ w \<and> denotes (One (atom c) # its) v \<and> P w)
      \<longleftrightarrow> fits (atom c) t \<and> (\<exists>v w. text' = v @ w \<and> denotes its v \<and> P w)" for its P
    unfolding denotes_simps Cons_eq_append_conv by blast
  then show ?thesis using Cons by (simp add: matches_at_def items_one [OF assms])
qed (simp add: matches_at_def items_one [OF assms] denotes_simps)

lemma matches_at_star:
  "matches_at (c # 42 # re) text \<longleftrightarrow> (\<exists>u v. text = u @ v \<and> (\<forall>t \<in> set u. fits (atom c) t) \<and> matches_at re v)"
    (is "?l \<longleftrightarrow> ?r")
proof
  assume ?l
  then obtain v w where v: "text = v @ w" "denotes (Star (atom c) # fst (items re)) v" "snd (items re) \<longrightarrow> w = []"
    by (auto simp: matches_at_def)
  from v(2) obtain u v' where "v = u @ v'" "\<forall>t \<in> set u. fits (atom c) t" "denotes (fst (items re)) v'"
    unfolding denotes_simps by blast
  with v(1,3) show ?r by (intro exI [of _ u] exI [of _ "v' @ w"]) (auto simp: matches_at_def)
next
  assume ?r
  then obtain u v w where "text = u @ v @ w" "\<forall>t \<in> set u. fits (atom c) t" "denotes (fst (items re)) v" "snd (items re) \<longrightarrow> w = []"
    by (auto simp: matches_at_def)
  then show ?l unfolding matches_at_def by (intro exI [of _ "u @ v"] exI [of _ w]) (simp add: denotes.star)
qed

lemma star_step:
  "(\<exists>u v. text = u @ v \<and> (\<forall>t \<in> set u. P t) \<and> Q v) \<longleftrightarrow>
   Q text \<or> text \<noteq> [] \<and> P (hd text) \<and> (\<exists>u v. tl text = u @ v \<and> (\<forall>t \<in> set u. P t) \<and> Q v)"
proof
  assume "\<exists>u v. text = u @ v \<and> (\<forall>t \<in> set u. P t) \<and> Q v"
  then obtain u v where "text = u @ v" "\<forall>t \<in> set u. P t" "Q v" by blast
  then show "Q text \<or> text \<noteq> [] \<and> P (hd text) \<and> (\<exists>u v. tl text = u @ v \<and> (\<forall>t \<in> set u. P t) \<and> Q v)"
    by (cases u) auto
next
  assume "Q text \<or> text \<noteq> [] \<and> P (hd text) \<and> (\<exists>u v. tl text = u @ v \<and> (\<forall>t \<in> set u. P t) \<and> Q v)"
  then show "\<exists>u v. text = u @ v \<and> (\<forall>t \<in> set u. P t) \<and> Q v"
  proof (elim disjE conjE exE)
    fix u v
    assume *: "text \<noteq> []" "P (hd text)" "tl text = u @ v" "\<forall>t \<in> set u. P t" "Q v"
    then show ?thesis by (intro exI [of _ "hd text # u"] exI [of _ v]) (cases "text"; simp)
  qed (intro exI [of _ "[]"] exI [of _ "text"], simp)
qed

lemma matcher_ok:
  "matchhere re text \<longleftrightarrow> matches_at re text"
  "matchstar c re text \<longleftrightarrow> (\<exists>u v. text = u @ v \<and> (\<forall>t \<in> set u. fits (atom c) t) \<and> matches_at re v)"
proof (induction re "text" and c re "text" rule: matchhere_matchstar.induct)
  case (1 re "text")
  show ?case
  proof (cases re)
    case Nil
    then show ?thesis by (simp add: matchhere.simps [of "[]"] matches_at_Nil)
  next
    case (Cons c re')
    show ?thesis
      using 1 Cons matches_at_one [of re' c "text"] matches_at_star [of c "tl re'" "text"] matches_at_end [of "text"]
      by (subst matchhere.simps) (cases re'; auto simp: fits_atom)
  qed
next
  case (2 c re "text")
  show ?case
    using 2 by (subst matchstar.simps, subst star_step) (auto simp: fits_atom)
qed

lemma match_loop_ok: "match_loop re text \<longleftrightarrow> (\<exists>u v. text = u @ v \<and> matches_at re v)"
proof (induction "text")
  case (Cons t text')
  have "(\<exists>u v. t # text' = u @ v \<and> P v) \<longleftrightarrow> P (t # text') \<or> (\<exists>u v. text' = u @ v \<and> P v)" for P
    unfolding Cons_eq_append_conv by blast
  then show ?case using Cons.IH by (simp add: matcher_ok)
qed (simp add: matcher_ok)

text \<open>
  C22. The recursive matcher decides the meaning of patterns: a pattern is a sequence of single characters,
  of dots, which stand for any character, and of either with a star behind it, which stands for any number
  of characters it fits; it matches a line if some part of the line is of this form, which begins at
  the line's start if the pattern begins with \<open>^\<close> and ends at its end if the pattern ends with \<open>$\<close>.
\<close>

theorem match_decides: "match re text \<longleftrightarrow> matches re text"
  by (simp add: match_def matches_def matcher_ok match_loop_ok)

section \<open>The lines of a file\<close>

text \<open>The lines that end in a line end, without it, and what follows the last of them.\<close>

fun lines_of :: "u8 list \<Rightarrow> u8 list list \<times> u8 list" where
  "lines_of [] = ([], [])"
| "lines_of (x # xs) =
     (if x = 10 then apfst ((#) []) (lines_of xs)
      else case lines_of xs of ([], r) \<Rightarrow> ([], x # r) | (l # ls, r) \<Rightarrow> ((x # l) # ls, r))"

lemma lines_of_none: "10 \<notin> set xs \<Longrightarrow> lines_of xs = ([], xs)"
  by (induction xs) auto

lemma lines_of_line: "10 \<notin> set l \<Longrightarrow> lines_of (l @ 10 # xs) = apfst ((#) l) (lines_of xs)"
  by (cases "lines_of xs") (induction l, auto)

lemma lines_of_append:
  "lines_of (xs @ ys) = apfst ((@) (fst (lines_of xs))) (lines_of (snd (lines_of xs) @ ys))"
proof (induction xs)
  case (Cons x xs)
  then show ?case by (cases "lines_of xs"; cases "lines_of (snd (lines_of xs) @ ys)") (auto split: list.splits prod.splits)
qed (cases "lines_of ys"; simp)

lemma lines_of_rest: "10 \<notin> set (snd (lines_of xs))"
  by (induction xs) (auto split: list.splits prod.splits)

lemma lines_of_rest_subset: "set (snd (lines_of xs)) \<subseteq> set xs"
  by (induction xs) (auto split: list.splits prod.splits)

lemma lines_of_shorter: "10 \<in> set xs \<Longrightarrow> length (snd (lines_of xs)) < length xs"
proof -
  assume "10 \<in> set xs"
  then obtain l ys where x: "xs = l @ 10 # ys" "10 \<notin> set l" by (meson split_list_first)
  have "length (snd (lines_of zs)) \<le> length zs" for zs by (induction zs) (auto split: list.splits prod.splits)
  from this [of ys] show ?thesis using lines_of_line [OF x(2), of ys] by (simp add: x(1))
qed

definition matching :: "u8 list \<Rightarrow> u8 list list \<Rightarrow> u8 list" where
  "matching pattern ls = concat (map (\<lambda>l. l @ [10]) (filter (match pattern) ls))"

lemma strchr_line:
  assumes "0 \<notin> set l" "10 \<notin> set l"
  shows "strchr (l @ 10 # xs) 10 = Some (Some (10 # xs))" "strchr (l @ [0]) 10 = Some None"
  using assms by (induction l) auto

lemma grep_lines_ok: "0 \<notin> set p \<Longrightarrow> grep_lines pattern p = apfst (matching pattern) (lines_of p)"
proof (induction p rule: length_induct)
  case (1 p)
  show ?case
  proof (cases "10 \<in> set p")
    case False
    then show ?thesis
      using 1(2) by (subst grep_lines.simps) (simp add: strchr_line(2) lines_of_none matching_def)
  next
    case True
    then obtain l xs where p: "p = l @ 10 # xs" "10 \<notin> set l" by (meson split_list_first)
    have "strchr (p @ [0]) 10 = Some (Some (10 # xs @ [0]))" using strchr_line(1) [of l "xs @ [0]"] 1(2) p by simp
    moreover have "grep_lines pattern xs = apfst (matching pattern) (lines_of xs)" using 1 p by simp
    ultimately show ?thesis
      by (subst grep_lines.simps) (cases "lines_of xs"; simp add: p lines_of_line [OF p(2)] matching_def)
  qed
qed

text \<open>
  The calls of \<open>read\<close> on a regular file: as many bytes as the buffer has room for, or what is left of
  the file. The buffer keeps the bytes behind the last line end, and none at all if there was no line end.
\<close>

definition keeps :: "u8 list \<Rightarrow> u8 list" where
  "keeps buf = (if 10 \<in> set buf then snd (lines_of buf) else [])"

primrec reads_file :: "u8 list \<Rightarrow> u8 list list \<Rightarrow> u8 list \<Rightarrow> bool" where
  "reads_file buf [] file \<longleftrightarrow> file = []"
| "reads_file buf (c # cs) file \<longleftrightarrow>
     c \<noteq> [] \<and> c = take (1023 - length buf) file \<and> reads_file (keeps (buf @ c)) cs (drop (length c) file)"

definition short_lines :: "u8 list \<Rightarrow> bool" where
  "short_lines file \<longleftrightarrow> (\<forall>l \<in> set (fst (lines_of file)) \<union> {snd (lines_of file)}. length l < 1023)"

lemma short_lines_append: "short_lines (xs @ ys) \<Longrightarrow> short_lines (snd (lines_of xs) @ ys)"
  by (auto simp: short_lines_def lines_of_append [of xs ys])

lemma short_prefix: "short_lines (xs @ ys) \<Longrightarrow> 10 \<notin> set xs \<Longrightarrow> length xs < 1023"
proof -
  assume s: "short_lines (xs @ ys)" and x: "10 \<notin> set xs"
  have "\<exists>l \<in> set (fst (lines_of (xs @ ys))) \<union> {snd (lines_of (xs @ ys))}. length xs \<le> length l"
  proof (cases "10 \<in> set ys")
    case True
    then obtain l zs where "ys = l @ 10 # zs" "10 \<notin> set l" by (meson split_list_first)
    then show ?thesis using x lines_of_line [of "xs @ l" zs] by auto
  qed (use x in \<open>simp add: lines_of_none\<close>)
  then show ?thesis using s by (fastforce simp: short_lines_def)
qed

lemma grep_loop_ok:
  assumes "0 \<notin> set (buf @ file)" "10 \<notin> set buf" "short_lines (buf @ file)" "reads_file buf cs file"
  shows "grep_loop pattern cs buf = matching pattern (fst (lines_of (buf @ file)))"
  using assms
proof (induction cs arbitrary: buf "file")
  case Nil
  then show ?case by (simp add: lines_of_none matching_def)
next
  case (Cons c cs)
  let ?d = "buf @ c" and ?f = "drop (length c) file"
  have "take (length (take n file)) file = take n file" for n by (simp add: min_def)
  then have "take (length c) file = c" using Cons.prems(4) by (metis reads_file.simps(2))
  then have f: "file = c @ ?f" by (metis append_take_drop_id)
  have z: "0 \<notin> set ?d" "0 \<notin> set ?f" using Cons.prems(1) arg_cong [OF f, of set] by auto
  have g: "grep_lines pattern ?d = apfst (matching pattern) (lines_of ?d)" using z(1) by (rule grep_lines_ok)
  have r: "reads_file (keeps ?d) cs ?f" using Cons.prems(4) unfolding reads_file.simps by blast
  have s: "short_lines (?d @ ?f)" using Cons.prems(3) f by (metis append.assoc)
  show ?case
  proof (cases "10 \<in> set ?d")
    case True
    let ?r = "snd (lines_of ?d)"
    have rest: "set ?r \<subseteq> set ?d" "10 \<notin> set ?r" "length ?r \<noteq> length ?d"
      using lines_of_rest_subset [of ?d] lines_of_rest [of ?d] lines_of_shorter [OF True] by auto
    have "grep_loop pattern cs ?r = matching pattern (fst (lines_of (?r @ ?f)))"
      using z rest short_lines_append [OF s] r True by (intro Cons.IH) (auto simp: keeps_def)
    then show ?thesis
      using g rest(3) lines_of_append [of ?d ?f] f
      by (cases "lines_of ?d"; cases "lines_of (?r @ ?f)") (simp add: matching_def)
  next
    case False
    have "?f = []"
    proof (rule ccontr)
      assume "?f \<noteq> []"
      then have "length ?d \<ge> 1023" using Cons.prems(4) by (auto simp: min_def split: if_splits)
      then show False using short_prefix [OF s False] by simp
    qed
    then have "cs = []" using r by (cases cs) auto
    then show ?thesis using g False \<open>?f = []\<close> f by (simp add: lines_of_none matching_def)
  qed
qed

text \<open>
  C23. \<open>grep\<close> prints the lines that match: for a file without NUL bytes and with lines of at most 1022 bytes,
  read as a regular file delivers its bytes, the output is the matching lines in their order, each with
  its line end; what follows the last line end is not printed. Which bytes the buffer holds at which
  time makes no difference.
\<close>

theorem grep_filters:
  assumes "0 \<notin> set file" "short_lines file" "reads_file [] cs file"
  shows "grep pattern cs = concat (map (\<lambda>l. l @ [10]) (filter (matches pattern) (fst (lines_of file))))"
proof -
  have "match pattern = matches pattern" by (rule ext) (simp add: match_def matches_def matcher_ok match_loop_ok)
  then show ?thesis using grep_loop_ok [of "[]" "file" cs pattern] assms by (simp add: grep_def matching_def)
qed

theorem grep_filters_witness:
  "grep [94, 97, 42, 98] [[97, 97, 98, 10, 99, 98, 10, 98, 99, 10]] = [97, 97, 98, 10, 98, 99, 10]"
proof -
  let ?f = "[97, 97, 98, 10, 99, 98, 10, 98, 99, 10] :: u8 list"
  have m: "matches [94, 97, 42, 98] l = matchhere [97, 42, 98] l" for l by (simp add: matches_def matcher_ok)
  have "grep [94, 97, 42, 98] [?f] = concat (map (\<lambda>l. l @ [10]) (filter (matches [94, 97, 42, 98]) (fst (lines_of ?f))))"
    by (rule grep_filters) (simp_all add: short_lines_def)
  then show ?thesis by (simp add: m matchhere.simps matchstar.simps)
qed

end
