(* ===== verification/Utils.thy ===== *)
theory Utils
  imports Grep Fmt
begin

text \<open>
  User programs that read files and print: \<open>cat.c\<close>, \<open>wc.c\<close>, \<open>echo.c\<close> and the \<open>main\<close> of \<open>grep.c\<close>. A program's
  output is the list of the bytes it writes, each with its descriptor; what it is given are its
  arguments, for each file name whether it can be opened, and for each open file what the calls of
  \<open>read\<close> deliver until one returns no bytes, and whether that one reports an error.
\<close>

section \<open>Output\<close>

type_synonym uout = "(u32 \<times> u8) list"

type_synonym ufile = "u8 list list \<times> bool"

text \<open>The output so far, and whether the program has called \<open>exit\<close>; no value when \<open>printf\<close> is called with wrong arguments.\<close>

type_synonym urun = "(uout \<times> bool) option"

definition uprintf :: "u32 \<Rightarrow> u8 list \<Rightarrow> fmt_arg list \<Rightarrow> bool \<Rightarrow> urun" where
  "uprintf fd fmt ap quit = map_option (\<lambda>bs. (map (Pair fd) bs, quit)) (u_printf False fmt ap)"

definition uthen :: "urun \<Rightarrow> urun \<Rightarrow> urun" where
  "uthen a b = (case a of None \<Rightarrow> None | Some (out, True) \<Rightarrow> Some (out, True)
     | Some (out, False) \<Rightarrow> map_option (apfst ((@) out)) b)"

text \<open>The loop over the file names that \<open>cat\<close>, \<open>grep\<close> and \<open>wc\<close> have in common.\<close>

primrec each_file :: "string \<Rightarrow> (ufile \<Rightarrow> u8 list \<Rightarrow> urun) \<Rightarrow> (u8 list \<Rightarrow> ufile option) \<Rightarrow> u8 list list \<Rightarrow> urun" where
  "each_file me f files [] = Some ([], True)"
| "each_file me f files (a # as) =
     (case files a of
        None \<Rightarrow> uprintf 1 (bytes me @ bytes '': cannot open %s'' @ [10, 0]) [AStr (Some a)] True
      | Some fl \<Rightarrow> uthen (f fl a) (each_file me f files as))"

section \<open>\<open>cat\<close>\<close>

text \<open>\<open>ws\<close> are the values the calls of \<open>write\<close> return.\<close>

fun cat_loop :: "u8 list list \<Rightarrow> int list \<Rightarrow> bool \<Rightarrow> urun" where
  "cat_loop [] ws err =
     (if err then uprintf 1 (bytes ''cat: read error'' @ [10, 0]) [] True else Some ([], False))"
| "cat_loop (c # cs) [] err = None"
| "cat_loop (c # cs) (w # ws) err =
     uthen (Some (map (Pair 1) (take (nat w) c), False))
       (if w \<noteq> int (length c) then uprintf 1 (bytes ''cat: write error'' @ [10, 0]) [] True
        else cat_loop cs ws err)"

definition cat :: "int list \<Rightarrow> ufile \<Rightarrow> u8 list \<Rightarrow> urun" where
  "cat ws fl name = cat_loop (fst fl) ws (snd fl)"

definition cat_main :: "u8 list list \<Rightarrow> ufile \<Rightarrow> (u8 list \<Rightarrow> ufile option) \<Rightarrow> (u8 list \<Rightarrow> int list) \<Rightarrow> urun" where
  "cat_main args stdin files ws =
     (if args = [] then uthen (cat (ws []) stdin []) (Some ([], True))
      else each_file ''cat'' (\<lambda>fl a. cat (ws a) fl a) files args)"

section \<open>\<open>wc\<close>\<close>

text \<open>The counters \<open>l\<close>, \<open>w\<close> and \<open>c\<close>, and \<open>inword\<close>.\<close>

definition wc_byte :: "u32 \<times> u32 \<times> u32 \<times> bool \<Rightarrow> u8 \<Rightarrow> u32 \<times> u32 \<times> u32 \<times> bool" where
  "wc_byte st b =
     (case st of (l, w, c, inword) \<Rightarrow>
        let c = c + 1;
            l = (if b = 10 then l + 1 else l)
        in if (case strchr [32, 13, 9, 10, 11, 0] b of Some (Some _) \<Rightarrow> True | _ \<Rightarrow> False) then (l, w, c, False)
           else if \<not> inword then (l, w + 1, c, True)
           else (l, w, c, inword))"

primrec wc_loop :: "u8 list list \<Rightarrow> u32 \<times> u32 \<times> u32 \<times> bool \<Rightarrow> u32 \<times> u32 \<times> u32 \<times> bool" where
  "wc_loop [] st = st"
| "wc_loop (b # bs) st = wc_loop bs (foldl wc_byte st b)"

definition wc_format :: "u8 list" where
  "wc_format = bytes ''%d %d %d %s'' @ [10, 0]"

definition wc :: "ufile \<Rightarrow> u8 list \<Rightarrow> urun" where
  "wc fl name =
     (case wc_loop (fst fl) (0, 0, 0, False) of (l, w, c, inword) \<Rightarrow>
        if snd fl then uprintf 1 (bytes ''wc: read error'' @ [10, 0]) [] True
        else uprintf 1 wc_format [AInt l, AInt w, AInt c, AStr (Some name)] False)"

definition wc_main :: "u8 list list \<Rightarrow> ufile \<Rightarrow> (u8 list \<Rightarrow> ufile option) \<Rightarrow> urun" where
  "wc_main args stdin files =
     (if args = [] then uthen (wc stdin [0]) (Some ([], True)) else each_file ''wc'' wc files args)"

section \<open>\<open>grep\<close> and \<open>echo\<close>\<close>

definition grep_main :: "u8 list list \<Rightarrow> ufile \<Rightarrow> (u8 list \<Rightarrow> ufile option) \<Rightarrow> urun" where
  "grep_main args stdin files =
     (case args of
        [] \<Rightarrow> uprintf 2 (bytes ''usage: grep pattern [file ...]'' @ [10, 0]) [] True
      | pattern # as \<Rightarrow>
          let pat = takeWhile (\<lambda>b. b \<noteq> 0) pattern in
          if as = [] then Some (map (Pair 1) (grep pat (fst stdin)), True)
          else each_file ''grep'' (\<lambda>fl a. Some (map (Pair 1) (grep pat (fst fl)), False)) files as)"

primrec echo_main :: "u8 list list \<Rightarrow> urun" where
  "echo_main [] = Some ([], True)"
| "echo_main (a # as) =
     uthen (uprintf 1 (lit ''%s%s'') [AStr (Some a), AStr (Some (if as \<noteq> [] then [32, 0] else [10, 0]))] False)
       (echo_main as)"

section \<open>What \<open>wc\<close> counts\<close>

definition blank :: "u8 \<Rightarrow> bool" where
  "blank b \<longleftrightarrow> b \<in> {32, 13, 9, 10, 11}"

text \<open>The places where a word begins.\<close>

definition word_starts :: "u8 list \<Rightarrow> nat set" where
  "word_starts t = {i. i < length t \<and> \<not> blank (t ! i) \<and> (i = 0 \<or> blank (t ! (i - 1)))}"

lemma strchr_blank: "(case strchr [32, 13, 9, 10, 11, 0] b of Some (Some _) \<Rightarrow> True | _ \<Rightarrow> False) \<longleftrightarrow> blank b"
  by (simp add: blank_def)

lemma wc_byte_eq:
  "wc_byte (l, w, c, inword) b =
     (if b = 10 then l + 1 else l, if blank b \<or> inword then w else w + 1, c + 1, \<not> blank b)"
  by (simp only: wc_byte_def strchr_blank prod.case Let_def) simp

lemma word_starts_snoc:
  "word_starts (t @ [b]) = word_starts t \<union> (if \<not> blank b \<and> (t = [] \<or> blank (last t)) then {length t} else {})"
proof -
  have "i \<in> word_starts (t @ [b]) \<longleftrightarrow> i \<in> word_starts t \<or> i = length t \<and> \<not> blank b \<and> (t = [] \<or> blank (last t))" for i
    by (cases "t = []"; cases "i < length t") (auto simp: word_starts_def nth_append last_conv_nth less_Suc_eq)
  then show ?thesis by auto
qed

lemma wc_bytes:
  "foldl wc_byte (0, 0, 0, False) t
     = (of_nat (count_list t 10), of_nat (card (word_starts t)), of_nat (length t), t \<noteq> [] \<and> \<not> blank (last t))"
proof (induction t rule: rev_induct)
  case Nil
  then show ?case by (simp add: word_starts_def)
next
  case (snoc b t)
  have fin: "finite (word_starts t)" "length t \<notin> word_starts t" by (auto simp: word_starts_def)
  have "blank 10" by (simp add: blank_def)
  then show ?case
    using snoc fin by (auto simp: wc_byte_eq word_starts_snoc)
qed

lemma wc_loop_concat: "wc_loop bs st = foldl wc_byte st (concat bs)"
  by (induction bs arbitrary: st) simp_all

text \<open>
  C24. \<open>wc\<close> prints the number of line ends, of words and of bytes of its input, however the calls of \<open>read\<close> cut
  it into pieces; a word begins at a byte that is no blank and has none but blanks right before it. The
  counters are those numbers modulo \<open>2 ^ 32\<close>.
\<close>

theorem wc_counts:
  "wc (cs, False) name = uprintf 1 wc_format [AInt (of_nat (count_list (concat cs) 10)),
     AInt (of_nat (card (word_starts (concat cs)))), AInt (of_nat (length (concat cs))), AStr (Some name)] False"
  by (simp add: wc_def wc_loop_concat wc_bytes)

end
