(* ===== verification/Spec2Isabelle.thy ===== *)
theory Spec2Isabelle
  imports Fair Crash Trap Utils
begin

text \<open>
  A model of the xv6 kernel of this repository, of the string, number and printing routines of its
  user library, and of the user programs \<open>grep\<close>, \<open>wc\<close>, \<open>cat\<close> and \<open>echo\<close>. The kernel runs processes on several processors of an x86 machine. Traps enter it
  (\<open>trap.c\<close>); system calls (\<open>syscall.c\<close>, \<open>sysproc.c\<close>, \<open>sysfile.c\<close>) act on processes (\<open>proc.c\<close>,
  \<open>exec.c\<close>), on memory (\<open>vm.c\<close>, \<open>kalloc.c\<close>) and on files (\<open>file.c\<close>, \<open>pipe.c\<close>, \<open>fs.c\<close>), which lie on a
  disk behind a log (\<open>log.c\<close>), a buffer cache (\<open>bio.c\<close>) and a driver (\<open>ide.c\<close>, \<open>memide.c\<close>); the
  console (\<open>console.c\<close>, \<open>kbd.c\<close>, \<open>uart.c\<close>) is a file too. Spin locks (\<open>spinlock.c\<close>) and sleep locks
  (\<open>sleeplock.c\<close>) protect all of it. Compared with the original xv6 this kernel has five scheduling
  policies that can be changed while it runs, and a number of additional system calls.

  \<^bold>\<open>How code is modelled.\<close> The kernel's global variables are one record, \<^typ>\<open>kstate\<close> (theory
  \<open>KState\<close>), with the code's structures as records and its tables as lists; physical memory is a
  function from addresses to bytes, and free lists, page directories and page tables are read from and
  written to these bytes as the code does. Machine integers are words of their width. A C function is a
  function of its arguments and of the state. Its result (type \<open>res\<close> of \<open>Prelude\<close>) is a value and
  a new state, a panic with its message, the point where \<open>swtch\<close> leaves the kernel stack, the
  fact that a loop does not end, or undefined behaviour of C. What a function does after
  \<open>swtch\<close> came back is a function of its own, whose name ends in \<open>_resume\<close>; the order in which
  processors and processes take their turns is a step relation where a theorem depends on it.
  A spin lock that is held by another processor makes \<open>acquire\<close> end in \<open>Spin\<close>, so that an \<open>Ok\<close> is
  always a run that got every lock it needed.

  \<^bold>\<open>Theories, in the order of the layers.\<close>
  \<^item> \<open>Prelude\<close>: results and their sequencing, table searches, little-endian numbers, and the locale
    \<open>frame\<close> for relations between the states before and after a stretch of code.
  \<^item> \<open>KState\<close>: constants and data (\<open>param.h\<close>, \<open>mmu.h\<close>, \<open>memlayout.h\<close>, \<open>proc.h\<close>, \<open>buf.h\<close>, \<open>file.h\<close>, \<open>fs.h\<close>).
  \<^item> \<open>CString\<close>, \<open>Fmt\<close>: \<open>string.c\<close>, \<open>ulib.c\<close>, \<open>printf.c\<close> and the number printing of \<open>console.c\<close>.
    Copying with overlap, the termination of copied strings; \<open>atoi\<close> reads back what \<open>printf\<close> prints.
  \<^item> \<open>Spinlock\<close>: \<open>spinlock.c\<close> and \<open>mycpu\<close>, \<open>myproc\<close>. Mutual exclusion over any interleaving, and the
    facts by which later theories see a lock as transparent when nobody else holds it.
  \<^item> \<open>Kalloc\<close>, \<open>Vm\<close>: pages and page tables. The locale \<open>page_allocator\<close> is what \<open>Vm\<close> needs of \<open>Kalloc\<close>.
  \<^item> \<open>ConsOut\<close>, \<open>Console\<close>, \<open>Kbd\<close>: the display, the serial line, the line editor, the keyboard. The locale
    \<open>input_device\<close> is what the line editor needs of a device.
  \<^item> \<open>Proc\<close>, \<open>Process\<close>, \<open>Dispatch\<close>, \<open>Fair\<close>: the process table, the policies (locale \<open>preference\<close>), creation and
    end of processes; \<open>Dispatch\<close> lets the processors take turns, and \<open>Fair\<close> follows one of them through a
    round under round robin.
  \<^item> \<open>Frames\<close>, \<open>Monitor\<close>: what code that only locks or prints leaves alone; what a client of \<open>sleep\<close> and
    \<open>wakeup\<close> must do so that no wakeup is lost (locale \<open>monitor\<close>).
  \<^item> \<open>Sleeplock\<close>, \<open>Ring\<close>, \<open>Pipe\<close>: sleep locks; ring buffers with wrapping counters; pipes.
  \<^item> \<open>Bio\<close>, \<open>Log\<close>, \<open>Txn\<close>, \<open>Crash\<close>: the buffer cache as a map from block numbers to contents, the log,
    transactions as the file system uses them, and the disk after a crash at any write of a commit.
  \<^item> \<open>Inode\<close>, \<open>Fs\<close>, \<open>File\<close>: \<open>fs.c\<close> and \<open>file.c\<close>: blocks, inodes, contents, directories, paths, open files.
  \<^item> \<open>Exec\<close>, \<open>Sysarg\<close>, \<open>Sysproc\<close>, \<open>Sysfile\<close>, \<open>Syscall\<close>, \<open>Trap\<close>: loading programs, the arguments of system
    calls, the calls, their table, and the handler of all traps.
  \<^item> \<open>Ide\<close>: the disk driver's request queue and the commands it writes to the ports.
  \<^item> \<open>Grep\<close>, \<open>Utils\<close>: \<open>grep.c\<close>, and \<open>wc.c\<close>, \<open>cat.c\<close> and \<open>echo.c\<close>, with what the system calls answer as arguments.

  \<^bold>\<open>What is shown.\<close> Spin locks exclude (C1). The allocator hands out pages that are not in use, and
  \<open>mappages\<close> and \<open>copyout\<close> change exactly the translations and bytes they should (C2 to C4). The
  kernel's and the user's formatted printing agree, and printed numbers are read back (C5, C6). The
  scheduler takes the process each policy promises, and no process is on two processors (C7, C8). A
  crash during a commit loses all of a transaction or nothing (C9), and the buffer cache is a map to
  its clients (C10). Sleep locks and pipes lose no wakeup, and a pipe is a queue (C11 to C13). Pointers
  a system call accepts lie inside the process (C14). A loop with a data-dependent bound ends (C15).
  Path names are cut into elements (C16). The console is a line editor and readers get lines (C17, C18);
  it edits with the characters of the keys that are pressed, under the modifiers in force (C19). Under
  round robin no process starves (C20). System calls with arguments outside the process or descriptors
  that are not open change nothing (C21). The matcher of \<open>grep\<close> decides what patterns mean, \<open>grep\<close> prints the
  lines that match, and \<open>wc\<close> counts what it should (C22 to C24).

  \<^bold>\<open>Bounds and fuel.\<close> A loop of the code that is bounded by a table or by a length is structural
  recursion on it. The loops over user addresses in \<open>mappages\<close>, \<open>allocuvm\<close>, \<open>deallocuvm\<close> and \<open>copyuvm\<close> have
  \<open>PAGES\<close> steps of fuel, one more than there are pages in the address space; each step goes on by a page.
  The walk through the ring of buffers has one step more than there are buffers. \<open>balloc\<close> and \<open>ialloc\<close>
  are bounded by the size of the disk and the number of inodes. The loops that wait for hardware take
  the list of what the hardware answers as an argument. Where fuel ends the result is \<open>Spin\<close>, which is
  never a result a theorem counts as success.

  \<^bold>\<open>Not modelled.\<close> Boot code, the setup of processors and interrupt controllers (\<open>main.c\<close>, \<open>mp.c\<close>, \<open>lapic.c\<close>,
  \<open>ioapic.c\<close>, \<open>picirq.c\<close>, \<open>bootmain.c\<close>): they write device registers whose effect is not in the sources.
  Assembly (\<open>swtch.S\<close>, \<open>trapasm.S\<close>, \<open>entry.S\<close> and others). The file system builder \<open>mkfs.c\<close>, which runs on
  another system. The shell, the other user programs and the user memory
  allocator, which change the kernel only through the system calls modelled here. Paging hardware appears as the tables it would read.
\<close>

end
